(* ===== verification/Prelude.thy ===== *)
theory Prelude
  imports Main "HOL-Library.Word" "HOL-Library.Monad_Syntax" "HOL-Library.Char_ord"
begin

text \<open>
  What every component of the development shares: the machine integers of the 32-bit build
  (the Makefiles compile with \<^verbatim>\<open>-m32\<close>), the bit operations of the allocator's macros as
  arithmetic, and the fact collections the component theories add to.

  Pointers and C integers are HOL integers. An operation of the source on
  \<^verbatim>\<open>size_t\<close>/\<^verbatim>\<open>unsigned\<close> operands that can wrap is written with \<open>u32\<close>, a conversion to
  \<^verbatim>\<open>int\<close> with \<open>s32\<close>. Pointer arithmetic is exact where it stays in the
  heap, as the invariants show; the break of the heap, which a request can push past the end of the address
  space, wraps.
\<close>

unbundle bit_operations_syntax

named_theorems word_view \<open>reads of a memory after writes, and the fields a write keeps\<close>
named_theorems layout \<open>the block layout of the heap: tags, neighbours, free blocks\<close>

subsection \<open>Machine integers\<close>

abbreviation (input) NULL :: int where "NULL \<equiv> 0"

definition u32 :: "int \<Rightarrow> int" where
  "u32 x = x mod 2 ^ 32"

definition s32 :: "int \<Rightarrow> int" where
  "s32 x = (x + 2 ^ 31) mod 2 ^ 32 - 2 ^ 31"

lemma u32_bounds [simp]: "0 \<le> u32 x" "u32 x < 4294967296"
  by (simp_all add: u32_def)

lemma u32_id [simp]: "0 \<le> x \<Longrightarrow> x < 4294967296 \<Longrightarrow> u32 x = x"
  by (simp add: u32_def)

lemma s32_id [simp]: "- 2147483648 \<le> x \<Longrightarrow> x < 2147483648 \<Longrightarrow> s32 x = x"
  by (simp add: s32_def)

lemma s32_bounds: "- 2147483648 \<le> s32 x" "s32 x < 2147483648"
proof -
  have "0 \<le> (x + 2 ^ 31) mod 2 ^ 32" "(x + 2 ^ 31) mod 2 ^ 32 < 2 ^ 32" by simp_all
  then show "- 2147483648 \<le> s32 x" "s32 x < 2147483648" by (auto simp: s32_def)
qed

lemma s32_negative:
  assumes "2147483648 \<le> x" "x < 4294967296"
  shows "s32 x = x - 4294967296"
proof -
  have "(x + 2147483648) mod 4294967296 = (x + 2147483648 - 4294967296) mod 4294967296"
    by (rule minus_mod_self2 [symmetric])
  also have "\<dots> = x + 2147483648 - 4294967296"
    using assms by (intro mod_pos_pos_trivial) auto
  finally show ?thesis by (simp add: s32_def)
qed

subsection \<open>Masks and tags\<close>

text \<open>\<^verbatim>\<open>& ~0x7\<close> rounds down to a multiple of eight, \<^verbatim>\<open>& 0x1\<close> is the parity, and
  \<^verbatim>\<open>|\<close> with a bit that is clear is an addition.\<close>

lemma and_not_7: "x AND NOT 7 = x - x mod (8 :: int)"
proof -
  have low: "x AND 7 = x mod 8"
    using take_bit_eq_mask [of 3 x] by (simp add: take_bit_eq_mod mask_eq_exp_minus_1)
  have "x - (x AND 7) = x AND NOT (x AND 7)"
    by (rule disjunctive_diff) (simp add: bit_and_iff)
  also have "\<dots> = x AND NOT 7"
    by (rule bit_eqI) (auto simp: bit_simps)
  finally show ?thesis by (simp add: low)
qed

lemma and_1: "x AND 1 = x mod (2 :: int)"
  by (simp add: and_one_eq)

lemma or_1_even: "even x \<Longrightarrow> x OR 1 = x + (1 :: int)"
  by (simp add: or_one_eq)

lemma or_0 [simp]: "x OR 0 = (x :: int)"
  by simp

text \<open>Multiples of eight: what alignment proofs need of divisibility.\<close>

lemma dvd8_dvd4: "8 dvd x \<Longrightarrow> 4 dvd (x :: int)"
  by presburger

lemma dvd8_even: "8 dvd x \<Longrightarrow> even (x :: int)"
  by presburger

subsection \<open>Results that may stop\<close>

text \<open>\<open>Inl\<close> is an early end (an error, an exit, a fault), \<open>Inr\<close> a value; \<open>and_then\<close> goes on with the
  value.\<close>

definition and_then :: "'e + 'a \<Rightarrow> ('a \<Rightarrow> 'e + 'b) \<Rightarrow> 'e + 'b" where
  "and_then m f = (case m of Inl e \<Rightarrow> Inl e | Inr a \<Rightarrow> f a)"

lemma and_then_simps [simp]: "and_then (Inl e) f = Inl e" "and_then (Inr a) f = f a"
  by (simp_all add: and_then_def)

lemma and_then_Inr: "and_then m f = Inr b \<longleftrightarrow> (\<exists>a. m = Inr a \<and> f a = Inr b)"
  by (cases m) auto

lemma and_then_cong [fundef_cong]:
  "m = m' \<Longrightarrow> (\<And>a. m' = Inr a \<Longrightarrow> f a = g a) \<Longrightarrow> and_then m f = and_then m' g"
  by (cases m') auto

subsection \<open>Decimal output and input\<close>

text \<open>\<^verbatim>\<open>printf\<close>'s \<^verbatim>\<open>%d\<close> and libc's \<^verbatim>\<open>atoi\<close>: white space, a sign, then digits; a value out of range
  is clamped as \<^verbatim>\<open>strtol\<close> does.\<close>

fun show_nat :: "nat \<Rightarrow> string" where
  "show_nat n = (if n < 10 then [char_of (48 + n)] else show_nat (n div 10) @ [char_of (48 + n mod 10)])"

declare show_nat.simps [simp del]

definition show_int :: "int \<Rightarrow> string" where
  "show_int i = (if i < 0 then ''-'' @ show_nat (nat (- i)) else show_nat (nat i))"

text \<open>\<^verbatim>\<open>%x\<close>.\<close>

definition hex_digit :: "nat \<Rightarrow> char" where
  "hex_digit d = char_of (if d < 10 then 48 + d else 87 + d)"

fun show_hex :: "nat \<Rightarrow> string" where
  "show_hex n = (if n < 16 then [hex_digit n] else show_hex (n div 16) @ [hex_digit (n mod 16)])"

declare show_hex.simps [simp del]

text \<open>Field widths: \<^verbatim>\<open>%12s\<close> fills on the left, \<^verbatim>\<open>%-12s\<close> on the right.\<close>

definition pad :: "nat \<Rightarrow> string \<Rightarrow> string" where
  "pad w s = replicate (w - length s) CHR '' '' @ s"

definition pad_right :: "nat \<Rightarrow> string \<Rightarrow> string" where
  "pad_right w s = s @ replicate (w - length s) CHR '' ''"

definition is_digit :: "char \<Rightarrow> bool" where
  "is_digit c \<longleftrightarrow> CHR ''0'' \<le> c \<and> c \<le> CHR ''9''"

definition digit_val :: "char \<Rightarrow> nat" where
  "digit_val c = of_char c - 48"

definition read_nat :: "string \<Rightarrow> nat" where
  "read_nat cs = foldl (\<lambda>n c. 10 * n + digit_val c) 0 (takeWhile is_digit cs)"

definition is_space :: "char \<Rightarrow> bool" where
  "is_space c \<longleftrightarrow> c = CHR '' '' \<or> (CHR 0x09 \<le> c \<and> c \<le> CHR 0x0D)"

definition clamp32 :: "int \<Rightarrow> int" where
  "clamp32 i = max (- 2147483648) (min 2147483647 i)"

definition atoi :: "string \<Rightarrow> int" where
  "atoi cs =
     (case dropWhile is_space cs of
        [] \<Rightarrow> 0
      | c # r \<Rightarrow> clamp32 (if c = CHR ''-'' then - int (read_nat r)
                         else if c = CHR ''+'' then int (read_nat r)
                         else int (read_nat (c # r))))"

lemma show_nat_nonempty [simp]: "show_nat n \<noteq> []"
  by (simp add: show_nat.simps [of n])

lemma is_digit_code: "is_digit c \<longleftrightarrow> 48 \<le> (of_char c :: nat) \<and> (of_char c :: nat) \<le> 57"
  by (simp add: is_digit_def less_eq_char_def)

lemma digit_char: "d < 10 \<Longrightarrow> is_digit (char_of (48 + d)) \<and> digit_val (char_of (48 + d)) = (d :: nat)"
  by (simp add: is_digit_code digit_val_def)

lemma show_nat_digits: "c \<in> set (show_nat n) \<Longrightarrow> is_digit c"
proof (induction n rule: show_nat.induct)
  case (1 n)
  then show ?case
    using digit_char [of n] digit_char [of "n mod 10"]
    by (cases "n < 10") (auto simp: show_nat.simps [of n])
qed

lemma foldl_digits: "foldl (\<lambda>n c. 10 * n + digit_val c) 0 (show_nat n) = n"
proof (induction n rule: show_nat.induct)
  case (1 n)
  then show ?case
    using digit_char [of n] digit_char [of "n mod 10"]
    by (cases "n < 10") (simp_all add: show_nat.simps [of n])
qed

lemma read_show_nat:
  assumes "r = [] \<or> \<not> is_digit (hd r)"
  shows "read_nat (show_nat n @ r) = n"
proof -
  have "takeWhile is_digit (show_nat n @ r) = show_nat n"
    using assms show_nat_digits by (cases r) (auto simp: takeWhile_append2)
  then show ?thesis by (simp add: read_nat_def foldl_digits)
qed

text \<open>A number printed and read back.\<close>

lemma atoi_show_int:
  assumes "- 2147483648 \<le> i" "i \<le> 2147483647" "r = [] \<or> \<not> is_digit (hd r)"
  shows "atoi (show_int i @ r) = i"
proof (cases "i < 0")
  case True
  have "\<not> is_space (CHR ''-'')" by (simp add: is_space_def less_eq_char_def)
  with True assms show ?thesis
    by (simp add: atoi_def show_int_def read_show_nat clamp32_def)
next
  case False
  obtain c cs where c: "show_nat (nat i) = c # cs" by (cases "show_nat (nat i)") auto
  then have d: "is_digit c" using show_nat_digits [of c "nat i"] by simp
  then have "\<not> is_space c \<and> c \<noteq> CHR ''-'' \<and> c \<noteq> CHR ''+''"
    by (auto simp: is_digit_code is_space_def less_eq_char_def)
  moreover have "read_nat (c # cs @ r) = nat i" using read_show_nat [OF assms(3), of "nat i"] by (simp add: c)
  ultimately show ?thesis using False assms by (simp add: atoi_def show_int_def c clamp32_def)
qed

end
