(* ===== verification/Trace.thy ===== *)
theory Trace
  imports Prelude
begin

text \<open>
  Trace files of the allocator driver (\<^verbatim>\<open>malloclab/mdriver.c\<close>): \<open>read_trace\<close> on the text of the file.
  \<open>scan_d\<close>, \<open>scan_u\<close> and \<open>scan_word\<close> are the \<^verbatim>\<open>fscanf\<close> conversions \<^verbatim>\<open>%d\<close>, \<^verbatim>\<open>%u\<close>
  and \<^verbatim>\<open>%s\<close>. What \<^verbatim>\<open>malloc\<close> leaves in the two arrays that a trace brings for the driver is the
  argument \<open>junk\<close>; the request array is written past its end when a file has more requests than
  its header says. The four calls of \<^verbatim>\<open>malloc\<close> are taken to succeed, and the products of the header's numbers with the
  sizes of the elements not to wrap: a failed one ends the program with a message, a wrapped one gives too small an array.
\<close>

datatype op_type = ALLOC | FREE | REALLOC

record traceop_t =
  op_type :: op_type
  op_index :: int
  op_size :: int

record trace_t =
  sugg_heapsize :: int
  num_ids :: int
  num_ops :: int
  weight :: int
  ops :: "traceop_t list"
  blocks_init :: "nat \<Rightarrow> int"
  sizes_init :: "nat \<Rightarrow> int"

datatype trace_stop =
    UnixError
  | Bogus char
  | AssertFailed
  | Overrun          \<comment> \<open>a store past the end of an array\<close>

subsection \<open>Scanning\<close>

definition scan_sign :: "string \<Rightarrow> bool \<times> string" where
  "scan_sign cs =
     (case cs of
        [] \<Rightarrow> (False, [])
      | c # r \<Rightarrow> if c = CHR ''-'' then (True, r) else if c = CHR ''+'' then (False, r) else (False, cs))"

definition scan_number :: "string \<Rightarrow> (int \<times> string) option" where
  "scan_number cs =
     (let (neg, cs) = scan_sign (dropWhile is_space cs);
          ds = takeWhile is_digit cs
      in if ds = [] then None
         else Some (if neg then - int (read_nat ds) else int (read_nat ds), dropWhile is_digit cs))"

definition scan_d :: "string \<Rightarrow> (int \<times> string) option" where
  "scan_d cs = map_option (\<lambda>(v, r). (clamp32 v, r)) (scan_number cs)"

definition scan_u :: "string \<Rightarrow> (int \<times> string) option" where
  "scan_u cs =
     map_option (\<lambda>(v, r). (if \<bar>v\<bar> < 2 ^ 32 then u32 v else 2 ^ 32 - 1, r)) (scan_number cs)"

definition scan_word :: "string \<Rightarrow> (string \<times> string) option" where
  "scan_word cs =
     (let cs = dropWhile is_space cs;
          w = takeWhile (\<lambda>c. \<not> is_space c) cs
      in if w = [] then None else Some (w, dropWhile (\<lambda>c. \<not> is_space c) cs))"

text \<open>\<^verbatim>\<open>"%u %u"\<close>, and \<^verbatim>\<open>"%ud"\<close>, which eats a \<^verbatim>\<open>d\<close> after the number.\<close>

definition scan_u_u :: "string \<Rightarrow> (int \<times> int \<times> string) option" where
  "scan_u_u cs = do { (i, cs) \<leftarrow> scan_u cs; (z, cs) \<leftarrow> scan_u cs; Some (i, z, cs) }"

definition scan_ud :: "string \<Rightarrow> (int \<times> string) option" where
  "scan_ud cs =
     map_option (\<lambda>(i, r). (i, case r of c # r' \<Rightarrow> if c = CHR ''d'' then r' else r | [] \<Rightarrow> r)) (scan_u cs)"

lemma scan_sign_length: "scan_sign xs = (n, ys) \<Longrightarrow> length ys \<le> length xs"
  by (cases xs) (auto simp: scan_sign_def split: if_splits)

lemma scan_number_length: "scan_number cs = Some (v, r) \<Longrightarrow> length r \<le> length cs"
proof -
  assume "scan_number cs = Some (v, r)"
  then obtain neg ds where ds: "scan_sign (dropWhile is_space cs) = (neg, ds)" "r = dropWhile is_digit ds"
    by (auto simp: scan_number_def Let_def split: prod.splits if_splits)
  have "length ds \<le> length (dropWhile is_space cs)"
    using ds(1) by (rule scan_sign_length)
  then show ?thesis
    using length_dropWhile_le [of is_space cs] length_dropWhile_le [of is_digit ds] ds(2) by simp
qed

lemma scan_u_length: "scan_u cs = Some (v, r) \<Longrightarrow> length r \<le> length cs"
  by (auto simp: scan_u_def dest: scan_number_length)

lemma scan_u_u_length: "scan_u_u cs = Some (i, z, r) \<Longrightarrow> length r \<le> length cs"
  by (fastforce simp: scan_u_u_def bind_eq_Some_conv dest: scan_u_length)

lemma scan_ud_length: "scan_ud cs = Some (i, r) \<Longrightarrow> length r \<le> length cs"
proof -
  assume "scan_ud cs = Some (i, r)"
  then obtain r' where r: "scan_u cs = Some (i, r')"
    "r = (case r' of c # r'' \<Rightarrow> if c = CHR ''d'' then r'' else r' | [] \<Rightarrow> r')"
    by (auto simp: scan_ud_def)
  then have r': "scan_u cs = Some (i, r')" "length r \<le> length r'" by (cases r'; simp)+
  with scan_u_length [OF r'(1)] show ?thesis by simp
qed

lemma scan_word_length: "scan_word cs = Some (w, r) \<Longrightarrow> length r < length cs \<and> w \<noteq> []"
proof -
  assume "scan_word cs = Some (w, r)"
  then have w: "w = takeWhile (\<lambda>c. \<not> is_space c) (dropWhile is_space cs)" "w \<noteq> []"
    "r = dropWhile (\<lambda>c. \<not> is_space c) (dropWhile is_space cs)"
    by (auto simp: scan_word_def Let_def split: if_splits)
  have "length w + length r = length (dropWhile is_space cs)"
    unfolding w(1,3) by (metis length_append takeWhile_dropWhile_id)
  moreover have "length (dropWhile is_space cs) \<le> length cs" by (rule length_dropWhile_le)
  moreover have "0 < length w" using w(2) by simp
  ultimately show ?thesis using w(2) by linarith
qed

subsection \<open>Reading\<close>

definition op :: "op_type \<Rightarrow> int \<Rightarrow> int \<Rightarrow> traceop_t" where
  "op t i z = \<lparr>op_type = t, op_index = s32 i, op_size = s32 z\<rparr>"

text \<open>The request loop; \<open>n\<close> is \<^verbatim>\<open>num_ops\<close>, the length of the array. The size of a FREE request is
  never written; it is 0 here and never used.\<close>

function read_ops :: "int \<Rightarrow> string \<Rightarrow> int \<Rightarrow> traceop_t list \<Rightarrow> trace_stop + (int \<times> traceop_t list)" where
  "read_ops n cs max_index acc =
     (case scan_word cs of
        None \<Rightarrow> Inr (max_index, acc)
      | Some (w, cs) \<Rightarrow>
          if length w \<ge> 1024 then Inl Overrun
          else if hd w = CHR ''a'' \<or> hd w = CHR ''r'' then
            (case scan_u_u cs of
               None \<Rightarrow> Inl UnixError
             | Some (index, sz, cs) \<Rightarrow>
                 if int (length acc) \<ge> n then Inl Overrun
                 else read_ops n cs (if index > max_index then index else max_index)
                   (acc @ [op (if hd w = CHR ''a'' then ALLOC else REALLOC) index sz]))
          else if hd w = CHR ''f'' then
            (case scan_ud cs of
               None \<Rightarrow> Inl UnixError
             | Some (index, cs) \<Rightarrow>
                 if int (length acc) \<ge> n then Inl Overrun
                 else read_ops n cs max_index (acc @ [op FREE index 0]))
          else Inl (Bogus (hd w)))"
  by pat_completeness auto
termination
  by (relation "measure (\<lambda>(n, cs, max_index, acc). length cs)")
    (fastforce dest: scan_word_length scan_u_u_length scan_ud_length)+

declare read_ops.simps [simp del]

definition read_trace :: "(nat \<Rightarrow> int) \<Rightarrow> (nat \<Rightarrow> int) \<Rightarrow> string \<Rightarrow> trace_stop + trace_t" where
  "read_trace junk1 junk2 file =
     (case (do { (sugg, cs) \<leftarrow> scan_d file; (ids, cs) \<leftarrow> scan_d cs; (n, cs) \<leftarrow> scan_d cs; (wt, cs) \<leftarrow> scan_d cs;
                 Some (sugg, ids, n, wt, cs) }) of
        None \<Rightarrow> Inl UnixError
      | Some (sugg, ids, n, wt, cs) \<Rightarrow>
          and_then (read_ops n cs 0 []) (\<lambda>(max_index, os).
            if max_index \<noteq> u32 (ids - 1) then Inl AssertFailed
            else if u32 n \<noteq> int (length os) then Inl AssertFailed
            else Inr \<lparr>sugg_heapsize = sugg, num_ids = ids, num_ops = n, weight = wt, ops = os,
                      blocks_init = junk1, sizes_init = junk2\<rparr>))"

subsection \<open>Writing\<close>

definition show_op :: "traceop_t \<Rightarrow> string" where
  "show_op t =
     (case op_type t of
        ALLOC \<Rightarrow> ''a '' @ show_int (op_index t) @ '' '' @ show_int (op_size t)
      | REALLOC \<Rightarrow> ''r '' @ show_int (op_index t) @ '' '' @ show_int (op_size t)
      | FREE \<Rightarrow> ''f '' @ show_int (op_index t)) @ [CHR 0x0A]"

definition show_trace :: "trace_t \<Rightarrow> string" where
  "show_trace tr =
     show_int (sugg_heapsize tr) @ [CHR 0x0A] @ show_int (num_ids tr) @ [CHR 0x0A] @
     show_int (num_ops tr) @ [CHR 0x0A] @ show_int (weight tr) @ [CHR 0x0A] @ concat (map show_op (ops tr))"

subsection \<open>Round trip\<close>

lemma digits_end:
  assumes "r = [] \<or> \<not> is_digit (hd r)"
  shows "takeWhile is_digit (show_nat n @ r) = show_nat n" "dropWhile is_digit (show_nat n @ r) = r"
  using assms show_nat_digits [of _ n] by (cases r; auto simp: takeWhile_append2 dropWhile_append2)+

lemma digit_no_space: "is_digit c \<Longrightarrow> \<not> is_space c \<and> c \<noteq> CHR ''-'' \<and> c \<noteq> CHR ''+''"
  by (auto simp: is_digit_code is_space_def less_eq_char_def)

lemma scan_number_show:
  assumes r: "r = [] \<or> \<not> is_digit (hd r)"
  shows "scan_number (show_int i @ r) = Some (i, r)"
proof (cases "i < 0")
  case True
  have "\<not> is_space (CHR ''-'')" by (simp add: is_space_def less_eq_char_def)
  moreover have "read_nat (show_nat (nat (- i))) = nat (- i)" using read_show_nat [of "[]" "nat (- i)"] by simp
  ultimately show ?thesis
    using True digits_end [OF r, of "nat (- i)"] by (simp add: scan_number_def show_int_def scan_sign_def)
next
  case False
  obtain c cs where c: "show_nat (nat i) = c # cs" by (cases "show_nat (nat i)") auto
  then have "is_digit c" using show_nat_digits [of c "nat i"] by simp
  note d = digit_no_space [OF this]
  have "dropWhile is_space (show_nat (nat i) @ r) = show_nat (nat i) @ r" using d by (simp add: c)
  moreover have "scan_sign (show_nat (nat i) @ r) = (False, show_nat (nat i) @ r)" using d by (simp add: c scan_sign_def)
  moreover have "read_nat (show_nat (nat i)) = nat i" using read_show_nat [of "[]" "nat i"] by simp
  ultimately show ?thesis
    using False digits_end [OF r, of "nat i"] by (simp add: scan_number_def show_int_def)
qed

lemma scan_number_space: "is_space c \<Longrightarrow> scan_number (c # cs) = scan_number cs"
  by (simp add: scan_number_def)

lemma blank [simp]: "is_space (CHR '' '')" "is_space (CHR 0x0A)" "\<not> is_digit (CHR '' '')" "\<not> is_digit (CHR 0x0A)"
  by (simp_all add: is_space_def is_digit_def less_eq_char_def)

definition int32 :: "int \<Rightarrow> bool" where
  "int32 i \<longleftrightarrow> - 2147483648 \<le> i \<and> i \<le> 2147483647"

lemma clamp32_id: "int32 i \<Longrightarrow> clamp32 i = i"
  by (simp add: int32_def clamp32_def)

lemma scan_d_show: "int32 i \<Longrightarrow> r = [] \<or> \<not> is_digit (hd r) \<Longrightarrow> scan_d (show_int i @ r) = Some (i, r)"
  by (simp add: scan_d_def scan_number_show clamp32_id)

lemma scan_d_space: "is_space c \<Longrightarrow> scan_d (c # cs) = scan_d cs"
  by (simp add: scan_d_def scan_number_space)

lemma scan_u_show: "0 \<le> i \<Longrightarrow> i < 2147483648 \<Longrightarrow> r = [] \<or> \<not> is_digit (hd r) \<Longrightarrow> scan_u (show_int i @ r) = Some (i, r)"
  by (simp add: scan_u_def scan_number_show)

lemma scan_u_space: "is_space c \<Longrightarrow> scan_u (c # cs) = scan_u cs"
  by (simp add: scan_u_def scan_number_space)

definition op_ok :: "traceop_t \<Rightarrow> bool" where
  "op_ok t \<longleftrightarrow> 0 \<le> op_index t \<and> op_index t < 2147483648 \<and> 0 \<le> op_size t \<and> op_size t < 2147483648 \<and>
     (op_type t = FREE \<longrightarrow> op_size t = 0)"

text \<open>The largest index of a request that brings a block.\<close>

definition max_id :: "int \<Rightarrow> traceop_t list \<Rightarrow> int" where
  "max_id = foldl (\<lambda>m t. if op_type t \<noteq> FREE \<and> op_index t > m then op_index t else m)"

lemma scan_word_op: "\<not> is_space c \<Longrightarrow> scan_word (c # CHR '' '' # cs) = Some ([c], CHR '' '' # cs)"
  by (simp add: scan_word_def)

lemma op_letters [simp]: "\<not> is_space (CHR ''a'')" "\<not> is_space (CHR ''r'')" "\<not> is_space (CHR ''f'')"
  by (simp_all add: is_space_def less_eq_char_def)

lemma scan_word_skip: "is_space c \<Longrightarrow> scan_word (c # cs) = scan_word cs"
  by (simp add: scan_word_def)

lemma read_ops_skip: "is_space c \<Longrightarrow> read_ops n (c # cs) m acc = read_ops n cs m acc"
  by (simp add: read_ops.simps [of n "c # cs"] read_ops.simps [of n cs] scan_word_skip)

lemma op_id: "op_ok t \<Longrightarrow> op (op_type t) (op_index t) (op_size t) = t"
  by (cases t) (simp add: op_def op_ok_def)

lemma read_ops_show:
  assumes "op_ok t" "int (length acc) < n"
  shows "read_ops n (show_op t @ cs) m acc =
    read_ops n cs (if op_type t \<noteq> FREE \<and> op_index t > m then op_index t else m) (acc @ [t])"
proof -
  have i: "scan_u (CHR '' '' # show_int (op_index t) @ c # r) = Some (op_index t, c # r)" if "\<not> is_digit c" for c r
    using assms(1) that by (simp add: scan_u_space scan_u_show op_ok_def)
  have z: "scan_u (CHR '' '' # show_int (op_size t) @ CHR 0x0A # cs) = Some (op_size t, CHR 0x0A # cs)"
    using assms(1) by (simp add: scan_u_space scan_u_show op_ok_def)
  have uu: "scan_u_u (CHR '' '' # show_int (op_index t) @ CHR '' '' # show_int (op_size t) @ CHR 0x0A # cs) =
      Some (op_index t, op_size t, CHR 0x0A # cs)"
    by (simp add: scan_u_u_def i z)
  have ud: "scan_ud (CHR '' '' # show_int (op_index t) @ CHR 0x0A # cs) = Some (op_index t, CHR 0x0A # cs)"
    by (simp add: scan_ud_def i)
  show ?thesis
  proof (cases "op_type t")
    case ALLOC
    with assms(2) uu op_id [OF assms(1)] show ?thesis
      by (simp add: show_op_def read_ops.simps [of n "CHR ''a'' # _"] scan_word_op read_ops_skip)
  next
    case REALLOC
    with assms(2) uu op_id [OF assms(1)] show ?thesis
      by (simp add: show_op_def read_ops.simps [of n "CHR ''r'' # _"] scan_word_op read_ops_skip)
  next
    case FREE
    moreover have "op_size t = 0" using assms(1) FREE by (simp add: op_ok_def)
    ultimately show ?thesis using assms(2) ud op_id [OF assms(1)]
      by (simp add: show_op_def read_ops.simps [of n "CHR ''f'' # _"] scan_word_op read_ops_skip)
  qed
qed

lemma read_ops_all:
  "\<forall>t \<in> set ts. op_ok t \<Longrightarrow> int (length acc + length ts) \<le> n \<Longrightarrow>
    read_ops n (concat (map show_op ts)) m acc = Inr (max_id m ts, acc @ ts)"
proof (induction ts arbitrary: m acc)
  case Nil
  show ?case by (simp add: read_ops.simps [of n "[]"] scan_word_def max_id_def)
next
  case (Cons t ts)
  have "read_ops n (concat (map show_op (t # ts))) m acc =
      read_ops n (concat (map show_op ts)) (if op_type t \<noteq> FREE \<and> op_index t > m then op_index t else m) (acc @ [t])"
    using Cons.prems by (simp add: read_ops_show)
  with Cons show ?case by (simp add: max_id_def)
qed

definition trace_ok :: "trace_t \<Rightarrow> bool" where
  "trace_ok tr \<longleftrightarrow> int32 (sugg_heapsize tr) \<and> int32 (weight tr) \<and> 1 \<le> num_ids tr \<and> num_ids tr \<le> 2147483647 \<and>
     num_ops tr = int (length (ops tr)) \<and> num_ops tr \<le> 2147483647 \<and> (\<forall>t \<in> set (ops tr). op_ok t) \<and>
     max_id 0 (ops tr) = num_ids tr - 1"

lemma read_show_trace:
  assumes "trace_ok tr"
  shows "read_trace (blocks_init tr) (sizes_init tr) (show_trace tr) = Inr tr"
proof -
  have t: "int32 (sugg_heapsize tr)" "int32 (weight tr)" "int32 (num_ids tr)" "int32 (num_ops tr)"
    "num_ops tr = int (length (ops tr))" "\<forall>t \<in> set (ops tr). op_ok t" "max_id 0 (ops tr) = num_ids tr - 1"
    "1 \<le> num_ids tr" "num_ids tr \<le> 2147483647" "num_ops tr \<le> 2147483647"
    using assms by (auto simp: trace_ok_def int32_def)
  have "read_ops (num_ops tr) (concat (map show_op (ops tr))) 0 [] = Inr (num_ids tr - 1, ops tr)"
    using read_ops_all [OF t(6), of "[]" "num_ops tr" 0] t(5,7) by simp
  then have "read_ops (num_ops tr) (CHR 0x0A # concat (map show_op (ops tr))) 0 [] = Inr (num_ids tr - 1, ops tr)"
    by (simp add: read_ops_skip)
  with t show ?thesis
    by (simp add: read_trace_def show_trace_def scan_d_show scan_d_space)
qed

end
