(* ===== verification/Memlib.thy ===== *)
theory Memlib
  imports Prelude
begin

text \<open>
  The simulated memory system (\<^verbatim>\<open>malloclab/memlib.c\<close>) and the 32-bit loads and stores of the
  allocator's \<^verbatim>\<open>GET\<close> and \<^verbatim>\<open>PUT\<close> macros (\<^verbatim>\<open>malloclab/mm.c\<close>). Memory is a map from addresses
  to bytes; an \<^verbatim>\<open>unsigned int\<close> is stored little-endian, as on the x86 target. The locale
  \<open>word_store\<close> is the interface the allocator's proofs use: aligned words behave as
  independent cells. Its interpretation on the byte memory discharges the laws once.
\<close>

type_synonym addr = int
type_synonym byte = "8 word"

record memlib =
  heap_mem :: "addr \<Rightarrow> byte"
  mem_start_brk :: addr
  mem_brk :: addr
  mem_max_addr :: addr

definition MAX_HEAP :: int where
  "MAX_HEAP = 64 * 2 ^ 20"

subsection \<open>memlib.c\<close>

text \<open>\<open>mem_init\<close> gets its arena from libc's \<^verbatim>\<open>malloc\<close>: \<open>arena\<close> is what that call returned
  (\<open>NULL\<close> makes the driver exit, the value None).\<close>

definition mem_init :: "addr \<Rightarrow> 'a memlib_scheme \<Rightarrow> 'a memlib_scheme option" where
  "mem_init arena s =
     (if arena = NULL then None
      else Some (s\<lparr>mem_start_brk := arena, mem_max_addr := arena + MAX_HEAP, mem_brk := arena\<rparr>))"

definition mem_reset_brk :: "'a memlib_scheme \<Rightarrow> 'a memlib_scheme" where
  "mem_reset_brk s = s\<lparr>mem_brk := mem_start_brk s\<rparr>"

text \<open>None is the error return \<^verbatim>\<open>(void *)-1\<close>, with a line on standard error and \<^verbatim>\<open>errno\<close> that nothing reads;
  \<open>incr\<close> is a C \<^verbatim>\<open>int\<close>. The sum of the break and \<open>incr\<close> is a 32-bit address: when it leaves the address space it
  wraps, and the comparison is made with what is left.\<close>

definition mem_sbrk :: "int \<Rightarrow> 'a memlib_scheme \<Rightarrow> (addr \<times> 'a memlib_scheme) option" where
  "mem_sbrk incr s =
     (let old_brk = mem_brk s
      in if incr < 0 \<or> u32 (mem_brk s + incr) > mem_max_addr s then None
         else Some (old_brk, s\<lparr>mem_brk := u32 (mem_brk s + incr)\<rparr>))"

definition mem_heap_lo :: "'a memlib_scheme \<Rightarrow> addr" where
  "mem_heap_lo s = mem_start_brk s"

definition mem_heap_hi :: "'a memlib_scheme \<Rightarrow> addr" where
  "mem_heap_hi s = mem_brk s - 1"

definition mem_heapsize :: "'a memlib_scheme \<Rightarrow> int" where
  "mem_heapsize s = u32 (mem_brk s - mem_start_brk s)"

lemma mem_sbrk_exact:
  "0 \<le> mem_brk s \<Longrightarrow> 0 \<le> incr \<Longrightarrow> mem_brk s + incr < 4294967296 \<Longrightarrow>
   mem_sbrk incr s = (if mem_brk s + incr \<le> mem_max_addr s then Some (mem_brk s, s\<lparr>mem_brk := mem_brk s + incr\<rparr>) else None)"
  by (simp add: mem_sbrk_def Let_def)

lemma mem_sbrk_negative: "incr < 0 \<Longrightarrow> mem_sbrk incr s = None"
  by (simp add: mem_sbrk_def)

lemma mem_sbrk_wraps:
  assumes "4294967296 \<le> mem_brk s + incr" "mem_brk s + incr < 2 * 4294967296" "0 \<le> incr"
    "mem_brk s + incr - 4294967296 \<le> mem_max_addr s"
  shows "mem_sbrk incr s = Some (mem_brk s, s\<lparr>mem_brk := mem_brk s + incr - 4294967296\<rparr>)"
proof -
  have "u32 (mem_brk s + incr) = (mem_brk s + incr - 4294967296) mod 4294967296"
    unfolding u32_def by (simp only: minus_mod_self2) simp
  also have "\<dots> = mem_brk s + incr - 4294967296" using assms by (intro mod_pos_pos_trivial) simp_all
  finally show ?thesis using assms by (simp add: mem_sbrk_def Let_def)
qed

subsection \<open>Loads and stores of 32-bit words\<close>

definition load32 :: "(addr \<Rightarrow> byte) \<Rightarrow> addr \<Rightarrow> int" where
  "load32 m p = uint (m p) + 256 * uint (m (p + 1)) + 65536 * uint (m (p + 2))
     + 16777216 * uint (m (p + 3))"

definition store32 :: "addr \<Rightarrow> int \<Rightarrow> (addr \<Rightarrow> byte) \<Rightarrow> (addr \<Rightarrow> byte)" where
  "store32 p v m = m(p := word_of_int v, p + 1 := word_of_int (v div 256),
     p + 2 := word_of_int (v div 65536), p + 3 := word_of_int (v div 16777216))"

definition GET :: "'a memlib_scheme \<Rightarrow> addr \<Rightarrow> int" where
  "GET s p = load32 (heap_mem s) p"

definition PUT :: "addr \<Rightarrow> int \<Rightarrow> 'a memlib_scheme \<Rightarrow> 'a memlib_scheme" where
  "PUT p v s = s\<lparr>heap_mem := store32 p v (heap_mem s)\<rparr>"

lemma uint_byte_bounds: "0 \<le> uint (b :: byte)" "uint (b :: byte) < 256"
  using uint_bounded [of b] by simp_all

lemma load32_bounds: "0 \<le> load32 m p" "load32 m p < 4294967296"
  using uint_byte_bounds [of "m p"] uint_byte_bounds [of "m (p + 1)"]
    uint_byte_bounds [of "m (p + 2)"] uint_byte_bounds [of "m (p + 3)"]
  unfolding load32_def by linarith+

lemma digits32:
  "v mod 256 + 256 * (v div 256 mod 256) + 65536 * (v div 65536 mod 256)
     + 16777216 * (v div 16777216 mod 256) = u32 (v :: int)"
proof -
  have split: "x mod (256 * n) = 256 * (x div 256 mod n) + x mod 256" if "0 \<le> n" for x n :: int
    using that by (rule zmod_zmult2_eq)
  have "v mod 4294967296 = 256 * (v div 256 mod 16777216) + v mod 256"
    using split [of 16777216 v] by simp
  moreover have "v div 256 mod 16777216 = 256 * (v div 65536 mod 65536) + v div 256 mod 256"
    using split [of 65536 "v div 256"] by (simp add: zdiv_zmult2_eq [symmetric])
  moreover have "v div 65536 mod 65536 = 256 * (v div 16777216 mod 256) + v div 65536 mod 256"
    using split [of 256 "v div 65536"] by (simp add: zdiv_zmult2_eq [symmetric])
  moreover have "a = 256 * b + c \<Longrightarrow> b = 256 * d + e \<Longrightarrow> d = 256 * f + g \<Longrightarrow>
      c + 256 * e + 65536 * g + 16777216 * f = a" for a b c d e f g :: int
    by simp
  moreover have "u32 v = v mod 4294967296" by (simp add: u32_def)
  ultimately show ?thesis by metis
qed

lemma load32_store32_same: "load32 (store32 p v m) p = u32 v"
  unfolding digits32 [symmetric] by (simp add: load32_def store32_def uint_word_of_int)

lemma load32_store32_other: "q + 4 \<le> p \<or> p + 4 \<le> q \<Longrightarrow> load32 (store32 p v m) q = load32 m q"
  by (auto simp: load32_def store32_def)

lemma store32_frame: "b < p \<or> p + 4 \<le> b \<Longrightarrow> store32 p v m b = m b"
  by (auto simp: store32_def)

text \<open>A word determines its four bytes.\<close>

lemma digit_eq:
  assumes "a + 256 * x = b + 256 * (y :: int)" "0 \<le> a" "a < 256" "0 \<le> b" "b < 256"
  shows "a = b \<and> x = y"
proof -
  have "a = (a + 256 * x) mod 256" using assms(2,3) by simp
  also have "\<dots> = b" using assms(1,4,5) by simp
  finally show ?thesis using assms(1) by simp
qed

lemma load32_eq_bytes:
  assumes "load32 m p = load32 m' p" "p \<le> b" "b < p + 4"
  shows "m b = m' b"
proof -
  have "uint (m p) + 256 * (uint (m (p + 1)) + 256 * (uint (m (p + 2)) + 256 * uint (m (p + 3)))) =
      uint (m' p) + 256 * (uint (m' (p + 1)) + 256 * (uint (m' (p + 2)) + 256 * uint (m' (p + 3))))"
    using assms(1) by (simp add: load32_def algebra_simps)
  then have d: "m p = m' p \<and> m (p + 1) = m' (p + 1) \<and> m (p + 2) = m' (p + 2) \<and> m (p + 3) = m' (p + 3)"
    by (metis digit_eq uint_byte_bounds word_uint_eqI)
  have "b = p \<or> b = p + 1 \<or> b = p + 2 \<or> b = p + 3" using assms(2,3) by linarith
  with d show ?thesis by auto
qed

subsection \<open>Aligned words as independent cells\<close>

text \<open>\<open>view rd s\<close> is the memory as a map of its aligned words; a store to an aligned address is a
  function update of it, so frame arguments about the heap are facts about \<open>fun_upd\<close>.\<close>

definition view :: "('s \<Rightarrow> int \<Rightarrow> int) \<Rightarrow> 's \<Rightarrow> int \<Rightarrow> int" where
  "view rd s q = (if 4 dvd q then rd s q else 0)"

locale word_store =
  fixes rd :: "'s \<Rightarrow> int \<Rightarrow> int"
    and wr :: "int \<Rightarrow> int \<Rightarrow> 's \<Rightarrow> 's"
  assumes rd_same: "4 dvd p \<Longrightarrow> rd (wr p v s) p = u32 v"
    and rd_other: "4 dvd p \<Longrightarrow> 4 dvd q \<Longrightarrow> q \<noteq> p \<Longrightarrow> rd (wr p v s) q = rd s q"
    and rd_range: "0 \<le> rd s p \<and> rd s p < 4294967296"
begin

lemma view_wr: "4 dvd p \<Longrightarrow> view rd (wr p v s) = (view rd s)(p := u32 v)"
  by (auto simp: view_def fun_eq_iff rd_same rd_other)

lemma rd_view: "4 dvd q \<Longrightarrow> rd s q = view rd s q"
  by (simp add: view_def)

lemma view_range: "0 \<le> view rd s q" "view rd s q < 4294967296"
  using rd_range [of s q] by (auto simp: view_def)

lemma view_mod: "u32 (view rd s q) = view rd s q"
  by (simp add: view_range)

end

lemma dvd4_apart: "4 dvd p \<Longrightarrow> 4 dvd q \<Longrightarrow> q \<noteq> p \<Longrightarrow> q + 4 \<le> p \<or> p + 4 \<le> (q :: int)"
  by presburger

interpretation heap: word_store GET PUT
  by unfold_locales
    (auto simp: GET_def PUT_def load32_store32_same load32_bounds
      intro!: load32_store32_other dest: dvd4_apart)

abbreviation words :: "'a memlib_scheme \<Rightarrow> int \<Rightarrow> int" where
  "words \<equiv> view GET"

text \<open>The bytes of an aligned word that a computation leaves alone are left alone.\<close>

lemma words_bytes:
  assumes "words s q = words s' q" "4 dvd q" "q \<le> b" "b < q + 4"
  shows "heap_mem s b = heap_mem s' b"
  using load32_eq_bytes assms by (auto simp: view_def GET_def)

lemma words_brk [word_view]: "words (s\<lparr>mem_brk := x\<rparr>) = words s"
  by (simp add: view_def GET_def fun_eq_iff)

lemma PUT_fields [word_view]:
  "mem_start_brk (PUT p v s) = mem_start_brk s"
  "mem_brk (PUT p v s) = mem_brk s"
  "mem_max_addr (PUT p v s) = mem_max_addr s"
  "memlib.more (PUT p v s) = memlib.more s"
  by (simp_all add: PUT_def)

end
