(* ===== verification/Ranges.thy ===== *)
theory Ranges
  imports Memlib
begin

text \<open>
  The driver's range list (\<^verbatim>\<open>malloclab/mdriver.c\<close>): one record per allocated payload, used to
  detect misaligned, out-of-heap and overlapping blocks. \<^verbatim>\<open>mm.c\<close> holds a second copy of
  \<^verbatim>\<open>remove_range\<close>, called by \<^verbatim>\<open>mm_free\<close>. The nodes come from libc's allocator, so the list is
  a HOL list of records; the newest range is the head.
\<close>

record range_t =
  range_lo :: addr
  range_hi :: addr

definition ALIGNMENT :: int where
  "ALIGNMENT = 8"

definition IS_ALIGNED :: "addr \<Rightarrow> bool" where
  "IS_ALIGNED p \<longleftrightarrow> u32 p mod ALIGNMENT = 0"

fun remove_range :: "addr \<Rightarrow> range_t list \<Rightarrow> range_t list" where
  "remove_range lo [] = []"
| "remove_range lo (p # ps) = (if range_lo p = lo then ps else p # remove_range lo ps)"

definition clear_ranges :: "range_t list \<Rightarrow> range_t list" where
  "clear_ranges ranges = []"

datatype range_error =
    AssertSize          \<comment> \<open>\<^verbatim>\<open>assert(size > 0)\<close>\<close>
  | Misaligned addr
  | OutsideHeap addr addr addr addr     \<comment> \<open>the payload's ends and the heap's\<close>
  | Overlaps addr addr range_t

fun first_overlap :: "addr \<Rightarrow> addr \<Rightarrow> range_t list \<Rightarrow> range_t option" where
  "first_overlap lo hi [] = None"
| "first_overlap lo hi (p # ps) =
     (if (lo \<ge> range_lo p \<and> lo \<le> range_hi p) \<or> (hi \<ge> range_lo p \<and> hi \<le> range_hi p) then Some p
      else first_overlap lo hi ps)"

definition add_range :: "'a memlib_scheme \<Rightarrow> range_t list \<Rightarrow> addr \<Rightarrow> int \<Rightarrow> range_error + range_t list" where
  "add_range s ranges lo sz =
     (let hi = lo + sz - 1
      in if \<not> sz > 0 then Inl AssertSize
         else if \<not> IS_ALIGNED lo then Inl (Misaligned lo)
         else if lo < mem_heap_lo s \<or> lo > mem_heap_hi s \<or> hi < mem_heap_lo s \<or> hi > mem_heap_hi s
         then Inl (OutsideHeap lo hi (mem_heap_lo s) (mem_heap_hi s))
         else (case first_overlap lo hi ranges of
                 Some p \<Rightarrow> Inl (Overlaps lo hi p)
               | None \<Rightarrow> Inr (\<lparr>range_lo = lo, range_hi = hi\<rparr> # ranges)))"

subsection \<open>What the list says\<close>

text \<open>Two ranges are disjoint when they share no byte; the list is well formed when its ranges
  are non-empty and pairwise disjoint.\<close>

definition disjoint_ranges :: "range_t \<Rightarrow> range_t \<Rightarrow> bool" where
  "disjoint_ranges p q \<longleftrightarrow> range_hi p < range_lo q \<or> range_hi q < range_lo p"

definition ranges_ok :: "range_t list \<Rightarrow> bool" where
  "ranges_ok ps \<longleftrightarrow> (\<forall>p \<in> set ps. range_lo p \<le> range_hi p) \<and> sorted_wrt disjoint_ranges ps"

lemma remove_range_subset: "set (remove_range lo ps) \<subseteq> set ps"
  by (induction ps) auto

lemma remove_range_notin: "lo \<notin> range_lo ` set ps \<Longrightarrow> remove_range lo ps = ps"
  by (induction ps) auto

lemma ranges_ok_Cons:
  "ranges_ok (p # ps) \<longleftrightarrow>
   range_lo p \<le> range_hi p \<and> (\<forall>q \<in> set ps. disjoint_ranges p q) \<and> ranges_ok ps"
  by (auto simp: ranges_ok_def)

lemma ranges_ok_remove: "ranges_ok ps \<Longrightarrow> ranges_ok (remove_range lo ps)"
  by (induction ps) (auto simp: ranges_ok_Cons dest: subsetD [OF remove_range_subset])

lemma ranges_ok_lo_inj: "ranges_ok ps \<Longrightarrow> distinct (map range_lo ps)"
proof (induction ps)
  case (Cons p ps)
  then have "range_lo p \<noteq> range_lo q" if "q \<in> set ps" for q
    using that by (force simp: ranges_ok_Cons disjoint_ranges_def ranges_ok_def)
  with Cons show ?case by (auto simp: ranges_ok_Cons)
qed simp

lemma set_remove_range:
  "distinct (map range_lo ps) \<Longrightarrow> set (remove_range lo ps) = {p \<in> set ps. range_lo p \<noteq> lo}"
  by (induction ps) (auto simp: image_iff)

lemma first_overlap_None:
  "first_overlap lo hi ps = None \<longleftrightarrow>
   (\<forall>p \<in> set ps. \<not> (range_lo p \<le> lo \<and> lo \<le> range_hi p) \<and> \<not> (range_lo p \<le> hi \<and> hi \<le> range_hi p))"
  by (induction ps) auto

lemma first_overlap_Some: "first_overlap lo hi ps = Some p \<Longrightarrow> p \<in> set ps"
  by (induction ps) (auto split: if_splits)

end
