(* ===== verification/Mm.thy ===== *)
theory Mm
  imports Ranges
begin

text \<open>
  The allocator of \<^verbatim>\<open>malloclab/mm.c\<close>: segregated free lists over boundary-tagged blocks.
  One definition per macro and function, in the file's order of dependence; the global
  variables are the fields of \<open>mm\<close>. An operation whose loops follow links in memory is
  partial: None is "does not return".

  \<open>gl_ranges\<close> says whether \<^verbatim>\<open>mm_init\<close> was given the driver's range list (not
  \<^verbatim>\<open>NULL\<close>); the list itself, a variable of the driver that the pointer refers to, is the field
  \<open>ranges\<close>.
\<close>

record mm = memlib +
  heap_listp :: addr
  block_list_start :: addr
  gl_ranges :: bool
  ranges :: "range_t list"

subsection \<open>Constants and macros\<close>

definition WSIZE :: int where "WSIZE = 4"
definition DSIZE :: int where "DSIZE = 8"
definition CHUNKSIZE :: int where "CHUNKSIZE = 2 ^ 12"
definition MINFB_SIZE :: int where "MINFB_SIZE = 2"

definition ALIGN :: "int \<Rightarrow> int" where
  "ALIGN sz = u32 (sz + (ALIGNMENT - 1)) AND NOT 7"

definition MAX_macro :: "int \<Rightarrow> int \<Rightarrow> int" where
  "MAX_macro x y = (if x > y then x else y)"

definition PACK :: "int \<Rightarrow> int \<Rightarrow> int" where
  "PACK sz alloc = sz OR alloc"

definition GET_SIZE :: "'a memlib_scheme \<Rightarrow> addr \<Rightarrow> int" where
  "GET_SIZE s p = GET s p AND NOT 7"

definition GET_ALLOC :: "'a memlib_scheme \<Rightarrow> addr \<Rightarrow> int" where
  "GET_ALLOC s p = GET s p AND 1"

definition HDRP :: "addr \<Rightarrow> addr" where
  "HDRP bp = bp - WSIZE"

definition FTRP :: "'a memlib_scheme \<Rightarrow> addr \<Rightarrow> addr" where
  "FTRP s bp = bp + GET_SIZE s (HDRP bp) - DSIZE"

definition PREV_LINKNODE_RP :: "addr \<Rightarrow> addr" where
  "PREV_LINKNODE_RP bp = bp"

definition NEXT_LINKNODE_RP :: "addr \<Rightarrow> addr" where
  "NEXT_LINKNODE_RP bp = bp + WSIZE"

definition NEXT_BLKP :: "'a memlib_scheme \<Rightarrow> addr \<Rightarrow> addr" where
  "NEXT_BLKP s bp = bp + GET_SIZE s (bp - WSIZE)"

definition PREV_BLKP :: "'a memlib_scheme \<Rightarrow> addr \<Rightarrow> addr" where
  "PREV_BLKP s bp = bp - GET_SIZE s (bp - DSIZE)"

subsection \<open>Segregated free lists\<close>

definition category :: "int \<Rightarrow> int" where
  "category sz =
     (if sz \<le> 8 then 0
      else if sz \<le> 16 then 0
      else if sz \<le> 32 then 0
      else if sz \<le> 64 then 1
      else if sz \<le> 128 then 2
      else if sz \<le> 256 then 3
      else if sz \<le> 512 then 4
      else if sz \<le> 2048 then 5
      else if sz \<le> 4096 then 6
      else if sz \<le> 8192 then 7
      else if sz \<le> 16384 then 8
      else 9)"

definition get_freeCategory_root :: "mm \<Rightarrow> int \<Rightarrow> addr" where
  "get_freeCategory_root s sz = block_list_start s + category sz * WSIZE"

text \<open>The search loop of \<^verbatim>\<open>insert_free_block\<close>: the pair \<open>(prevp, nextp)\<close> it stops with.\<close>

partial_function (option) insert_position :: "mm \<Rightarrow> addr \<Rightarrow> addr \<Rightarrow> addr \<Rightarrow> (addr \<times> addr) option" where
  "insert_position s p prevp nextp =
     (if nextp = NULL then Some (prevp, nextp)
      else if GET_SIZE s (HDRP nextp) \<ge> GET_SIZE s (HDRP p) then Some (prevp, nextp)
      else insert_position s p nextp (GET s (NEXT_LINKNODE_RP nextp)))"

definition insert_free_block :: "addr \<Rightarrow> mm \<Rightarrow> mm option" where
  "insert_free_block p s =
     (let root = get_freeCategory_root s (GET_SIZE s (HDRP p)) in
      do {
        (prevp, nextp) \<leftarrow> insert_position s p root (GET s root);
        Some (if prevp = root then
                let s = PUT root p s;
                    s = PUT (NEXT_LINKNODE_RP p) nextp s;
                    s = PUT (PREV_LINKNODE_RP p) NULL s
                in if nextp \<noteq> NULL then PUT (PREV_LINKNODE_RP nextp) p s else s
              else
                let s = PUT (NEXT_LINKNODE_RP prevp) p s;
                    s = PUT (PREV_LINKNODE_RP p) prevp s;
                    s = PUT (NEXT_LINKNODE_RP p) nextp s
                in if nextp \<noteq> NULL then PUT (PREV_LINKNODE_RP nextp) p s else s)
      })"

definition remove_free_block :: "addr \<Rightarrow> mm \<Rightarrow> mm" where
  "remove_free_block p s =
     (let root = get_freeCategory_root s (GET_SIZE s (HDRP p));
          prevp = GET s (PREV_LINKNODE_RP p);
          nextp = GET s (NEXT_LINKNODE_RP p);
          s = (if prevp = NULL then
                 let s = (if nextp \<noteq> NULL then PUT (PREV_LINKNODE_RP nextp) 0 s else s)
                 in PUT root nextp s
               else
                 let s = (if nextp \<noteq> NULL then PUT (PREV_LINKNODE_RP nextp) prevp s else s)
                 in PUT (NEXT_LINKNODE_RP prevp) nextp s);
          s = PUT (NEXT_LINKNODE_RP p) NULL s
      in PUT (PREV_LINKNODE_RP p) NULL s)"

text \<open>\<open>find_in_list\<close> is the inner loop of \<^verbatim>\<open>find_fit\<close>, \<open>find_from\<close> its outer one.\<close>

partial_function (option) find_in_list :: "mm \<Rightarrow> int \<Rightarrow> addr \<Rightarrow> addr option" where
  "find_in_list s sz tmpP =
     (if tmpP = NULL then Some NULL
      else if GET_SIZE s (HDRP tmpP) \<ge> sz then Some tmpP
      else find_in_list s sz (GET s (NEXT_LINKNODE_RP tmpP)))"

partial_function (option) find_from :: "mm \<Rightarrow> int \<Rightarrow> addr \<Rightarrow> addr option" where
  "find_from s sz root =
     (if root = heap_listp s - 2 * WSIZE then Some NULL
      else do {
        bp \<leftarrow> find_in_list s sz (GET s root);
        if bp \<noteq> NULL then Some bp else find_from s sz (root + WSIZE)
      })"

definition find_fit :: "int \<Rightarrow> mm \<Rightarrow> addr option" where
  "find_fit sz s = find_from s sz (get_freeCategory_root s sz)"

subsection \<open>Coalescing, extending, placing\<close>

definition coalesce :: "addr \<Rightarrow> mm \<Rightarrow> (addr \<times> mm) option" where
  "coalesce bp s =
     (let prev_alloc = GET_ALLOC s (FTRP s (PREV_BLKP s bp));
          next_alloc = GET_ALLOC s (HDRP (NEXT_BLKP s bp));
          sz = GET_SIZE s (HDRP bp);
          (bp, s) =
            (if prev_alloc \<noteq> 0 \<and> next_alloc \<noteq> 0 then (bp, s)
             else if prev_alloc \<noteq> 0 \<and> next_alloc = 0 then
               let sz = u32 (sz + GET_SIZE s (HDRP (NEXT_BLKP s bp)));
                   s = remove_free_block (NEXT_BLKP s bp) s;
                   s = PUT (HDRP bp) (PACK sz 0) s;
                   s = PUT (FTRP s bp) (PACK sz 0) s
               in (bp, s)
             else if prev_alloc = 0 \<and> next_alloc \<noteq> 0 then
               let sz = u32 (sz + GET_SIZE s (HDRP (PREV_BLKP s bp)));
                   s = remove_free_block (PREV_BLKP s bp) s;
                   s = PUT (FTRP s bp) (PACK sz 0) s;
                   s = PUT (HDRP (PREV_BLKP s bp)) (PACK sz 0) s
               in (PREV_BLKP s bp, s)
             else
               let sz = u32 (sz + (GET_SIZE s (FTRP s (NEXT_BLKP s bp)) + GET_SIZE s (HDRP (PREV_BLKP s bp))));
                   s = remove_free_block (PREV_BLKP s bp) s;
                   s = remove_free_block (NEXT_BLKP s bp) s;
                   s = PUT (FTRP s (NEXT_BLKP s bp)) (PACK sz 0) s;
                   s = PUT (HDRP (PREV_BLKP s bp)) (PACK sz 0) s
               in (PREV_BLKP s bp, s))
      in do {
        s \<leftarrow> insert_free_block bp s;
        Some (bp, s)
      })"

text \<open>The result is NULL when the heap cannot grow; a \<^verbatim>\<open>size_t\<close> argument of \<^verbatim>\<open>mem_sbrk\<close>
  is converted to its \<^verbatim>\<open>int\<close> parameter.\<close>

definition extend_heap :: "int \<Rightarrow> mm \<Rightarrow> (addr \<times> mm) option" where
  "extend_heap dwords s =
     (let sz = (if dwords mod 2 \<noteq> 0 then u32 (u32 (dwords + 1) * DSIZE) else u32 (dwords * DSIZE)) in
      case mem_sbrk (s32 sz) s of
        None \<Rightarrow> Some (NULL, s)
      | Some (bp, s) \<Rightarrow>
          let s = PUT (HDRP bp) (PACK sz 0) s;
              s = PUT (FTRP s bp) (PACK sz 0) s;
              s = PUT (NEXT_LINKNODE_RP bp) NULL s;
              s = PUT (PREV_LINKNODE_RP bp) NULL s;
              s = PUT (HDRP (NEXT_BLKP s bp)) (PACK 0 1) s
          in coalesce bp s)"

definition place :: "addr \<Rightarrow> int \<Rightarrow> mm \<Rightarrow> mm option" where
  "place bp asize s =
     (let csize = GET_SIZE s (HDRP bp);
          s = remove_free_block bp s
      in if u32 (csize - asize) \<ge> MINFB_SIZE * DSIZE then
           let s = PUT (HDRP bp) (PACK asize 1) s;
               s = PUT (FTRP s bp) (PACK asize 1) s;
               bp = NEXT_BLKP s bp;
               s = PUT (HDRP bp) (PACK (u32 (csize - asize)) 0) s;
               s = PUT (FTRP s bp) (PACK (u32 (csize - asize)) 0) s;
               s = PUT (NEXT_LINKNODE_RP bp) 0 s;
               s = PUT (PREV_LINKNODE_RP bp) 0 s
           in do { (_, s) \<leftarrow> coalesce bp s; Some s }
         else
           let s = PUT (HDRP bp) (PACK csize 1) s
           in Some (PUT (FTRP s bp) (PACK csize 1) s))"

subsection \<open>The interface of mm.h\<close>

definition init_words :: "addr \<Rightarrow> mm \<Rightarrow> mm" where
  "init_words h s =
     (let s = PUT h 0 s;
          s = PUT (h + 1 * WSIZE) 0 s;
          s = PUT (h + 2 * WSIZE) 0 s;
          s = PUT (h + 3 * WSIZE) 0 s;
          s = PUT (h + 4 * WSIZE) 0 s;
          s = PUT (h + 5 * WSIZE) 0 s;
          s = PUT (h + 6 * WSIZE) 0 s;
          s = PUT (h + 7 * WSIZE) 0 s;
          s = PUT (h + 8 * WSIZE) 0 s;
          s = PUT (h + 9 * WSIZE) 0 s;
          s = PUT (h + 10 * WSIZE) 0 s;
          s = PUT (h + 11 * WSIZE) (PACK DSIZE 1) s;
          s = PUT (h + 12 * WSIZE) (PACK DSIZE 1) s
      in PUT (h + 13 * WSIZE) (PACK 0 1) s)"

text \<open>The result of \<^verbatim>\<open>mm_init\<close> is -1 or 0. On a failure of the first \<^verbatim>\<open>mem_sbrk\<close> the
  code leaves \<^verbatim>\<open>(void *)-1\<close> in \<open>heap_listp\<close>.\<close>

definition mm_init :: "bool \<Rightarrow> mm \<Rightarrow> (int \<times> mm) option" where
  "mm_init ranges_given s =
     (case mem_sbrk (14 * WSIZE) s of
        None \<Rightarrow> Some (-1, s\<lparr>heap_listp := u32 (-1)\<rparr>)
      | Some (h, s) \<Rightarrow>
          let s = s\<lparr>heap_listp := h\<rparr>;
              s = init_words h s;
              s = s\<lparr>block_list_start := heap_listp s\<rparr>;
              s = s\<lparr>heap_listp := heap_listp s + 12 * WSIZE\<rparr>
          in do {
            (bp, s) \<leftarrow> extend_heap (CHUNKSIZE div DSIZE) s;
            Some (if bp = NULL then (-1, s) else (0, s\<lparr>gl_ranges := ranges_given\<rparr>))
          })"

definition adjusted_size :: "int \<Rightarrow> int" where
  "adjusted_size sz =
     (if sz \<le> DSIZE then 2 * DSIZE
      else u32 (DSIZE * (u32 (sz + DSIZE + (DSIZE - 1)) div DSIZE)))"

definition mm_malloc :: "int \<Rightarrow> mm \<Rightarrow> (addr \<times> mm) option" where
  "mm_malloc sz s =
     (if sz = 0 then Some (NULL, s)
      else
        let asize = adjusted_size sz in
        do {
          bp \<leftarrow> find_fit asize s;
          if bp \<noteq> NULL then do { s \<leftarrow> place bp asize s; Some (bp, s) }
          else
            let extendsize = MAX_macro asize CHUNKSIZE in
            do {
              (bp, s) \<leftarrow> extend_heap (extendsize div DSIZE) s;
              if bp = NULL then Some (NULL, s)
              else do { s \<leftarrow> place bp asize s; Some (bp, s) }
            }
        })"

definition mm_free :: "addr \<Rightarrow> mm \<Rightarrow> mm option" where
  "mm_free bp s =
     (if bp = 0 then Some s
      else
        let sz = GET_SIZE s (HDRP bp);
            s = PUT (HDRP bp) (PACK sz 0) s;
            s = PUT (FTRP s bp) (PACK sz 0) s;
            s = PUT (NEXT_LINKNODE_RP bp) NULL s;
            s = PUT (PREV_LINKNODE_RP bp) NULL s
        in do {
          (_, s) \<leftarrow> coalesce bp s;
          Some (if gl_ranges s then s\<lparr>ranges := remove_range bp (ranges s)\<rparr> else s)
        })"

definition mm_realloc :: "addr \<Rightarrow> int \<Rightarrow> mm \<Rightarrow> addr \<times> mm" where
  "mm_realloc ptr t s = (NULL, s)"

text \<open>The walk of \<^verbatim>\<open>mm_exit\<close> over the blocks, up to the last heap byte \<open>p2\<close>.\<close>

partial_function (option) exit_loop :: "addr \<Rightarrow> addr \<Rightarrow> mm \<Rightarrow> mm option" where
  "exit_loop p2 p s =
     (if p = NULL then Some s
      else do {
        s \<leftarrow> (if GET_ALLOC s (HDRP p) \<noteq> 0 then mm_free p s else Some s);
        exit_loop p2 (if NEXT_BLKP s p > p2 then NULL else NEXT_BLKP s p) s
      })"

definition mm_exit :: "mm \<Rightarrow> mm option" where
  "mm_exit s = exit_loop (mem_heap_hi s) (heap_listp s + 8) s"

declare insert_position.simps [code]
declare find_in_list.simps [code]
declare find_from.simps [code]
declare exit_loop.simps [code]

end
