(* ===== verification/FreeList.thy ===== *)
theory FreeList
  imports Mm
begin

text \<open>
  The doubly linked, segregated free lists as the allocator keeps them in memory. \<open>dseg\<close> reads a
  list segment off the word map (\<^verbatim>\<open>prev\<close> link in the first payload word, \<^verbatim>\<open>next\<close> link in the
  second); \<open>free_lists w s0 F\<close> says that the ten lists rooted at \<open>s0\<close> hold exactly the free
  blocks \<open>F\<close> (address and size), each in its size class and sorted by size. The lemmas show
  that \<open>remove_free_block\<close> and \<open>insert_free_block\<close> change \<open>F\<close> by one block and write no word
  but list roots and links, and that \<open>find_fit\<close> returns a best fit.
\<close>

subsection \<open>Reading the macros off the word map\<close>

definition tag_size :: "int \<Rightarrow> int" where
  "tag_size t = t - t mod 8"

lemma GET_words: "4 dvd q \<Longrightarrow> GET s q = words s q"
  by (simp add: view_def)

lemma GET_SIZE_words: "4 dvd q \<Longrightarrow> GET_SIZE s q = tag_size (words s q)"
  unfolding GET_SIZE_def and_not_7 by (simp add: GET_words tag_size_def)

lemma GET_ALLOC_words: "4 dvd q \<Longrightarrow> GET_ALLOC s q = words s q mod 2"
  by (simp add: GET_ALLOC_def and_1 GET_words)

lemma tag_size_range: "0 \<le> t \<Longrightarrow> 0 \<le> tag_size t"
  by (simp add: tag_size_def zmod_le_nonneg_dividend)

lemma words_PUT [word_view]: "4 dvd p \<Longrightarrow> words (PUT p v s) = (words s)(p := u32 v)"
  by (rule heap.view_wr)

lemma words_range: "0 \<le> words s q" "words s q < 4294967296"
  by (rule heap.view_range)+

lemma u32_words [simp]: "u32 (words s q) = words s q"
  by (rule heap.view_mod)

lemma PUT_mm_fields [word_view]:
  "heap_listp (PUT p v s) = heap_listp s"
  "block_list_start (PUT p v s) = block_list_start s"
  "gl_ranges (PUT p v s) = gl_ranges s"
  "ranges (PUT p v s) = ranges s"
  by (simp_all add: PUT_def)

lemmas macro_defs = HDRP_def FTRP_def NEXT_BLKP_def PREV_BLKP_def PREV_LINKNODE_RP_def
  NEXT_LINKNODE_RP_def WSIZE_def DSIZE_def

text \<open>What a computation must not touch: everything but the memory's bytes.\<close>

definition same_fields :: "mm \<Rightarrow> mm \<Rightarrow> bool" where
  "same_fields s s' \<longleftrightarrow> mem_start_brk s' = mem_start_brk s \<and> mem_brk s' = mem_brk s \<and>
     mem_max_addr s' = mem_max_addr s \<and> heap_listp s' = heap_listp s \<and>
     block_list_start s' = block_list_start s \<and> gl_ranges s' = gl_ranges s \<and> ranges s' = ranges s"

lemma same_fields_refl [simp]: "same_fields s s"
  by (simp add: same_fields_def)

lemma same_fields_PUT [simp]: "same_fields s (PUT p v s') = same_fields s s'"
  by (simp add: same_fields_def word_view)

lemma same_fields_trans [trans]: "same_fields s t \<Longrightarrow> same_fields t u \<Longrightarrow> same_fields s u"
  by (simp add: same_fields_def)

subsection \<open>List segments\<close>

fun dseg :: "(int \<Rightarrow> int) \<Rightarrow> addr \<Rightarrow> addr \<Rightarrow> addr list \<Rightarrow> addr \<Rightarrow> addr \<Rightarrow> bool" where
  "dseg w prev p [] l n \<longleftrightarrow> l = prev \<and> n = p"
| "dseg w prev p (x # xs) l n \<longleftrightarrow> p = x \<and> x \<noteq> 0 \<and> w x = prev \<and> dseg w x (w (x + 4)) xs l n"

lemma dseg_append:
  "dseg w a p (xs @ ys) l n \<longleftrightarrow> (\<exists>m q. dseg w a p xs m q \<and> dseg w m q ys l n)"
  by (induction xs arbitrary: a p) auto

lemma dseg_frame:
  assumes "\<And>x. x \<in> set xs \<Longrightarrow> w' x = w x \<and> w' (x + 4) = w (x + 4)"
  shows "dseg w' a p xs l n = dseg w a p xs l n"
  using assms by (induction xs arbitrary: a p) auto

lemma dseg_last: "dseg w a p xs l n \<Longrightarrow> l = (if xs = [] then a else last xs)"
  by (induction xs arbitrary: a p) auto

lemma dseg_head: "dseg w a p xs l 0 \<Longrightarrow> p = (if xs = [] then 0 else hd xs)"
  by (cases xs) auto

lemma dseg_last_mem: "dseg w 0 h xs m n \<Longrightarrow> m \<noteq> 0 \<Longrightarrow> m \<in> set xs"
  using dseg_last [of w 0 h xs m n] by (auto split: if_splits)

lemma dseg_head_mem: "dseg w a n ys l 0 \<Longrightarrow> n \<noteq> 0 \<Longrightarrow> n \<in> set ys"
  by (cases ys) auto

lemma dseg_join: "dseg w a p xs m q \<Longrightarrow> \<exists>l. dseg w m q ys l n \<Longrightarrow> \<exists>l. dseg w a p (xs @ ys) l n"
  by (auto simp: dseg_append)

lemma dseg_split:
  "dseg w a h (xs @ p # ys) l n \<Longrightarrow> dseg w a h xs (w p) p \<and> dseg w p (w (p + 4)) ys l n \<and> p \<noteq> 0"
  by (auto simp: dseg_append)

lemma dseg_nonzero: "dseg w a p xs l n \<Longrightarrow> x \<in> set xs \<Longrightarrow> x \<noteq> 0"
  by (induction xs arbitrary: a p) auto

text \<open>Nodes are payload addresses: multiples of eight, so links of distinct nodes never
  coincide.\<close>

lemma dvd8_offset: "8 dvd x \<Longrightarrow> 8 dvd y \<Longrightarrow> x \<noteq> y + (4 :: int)"
  by presburger

lemma dseg_relink_next:
  assumes "dseg w a h xs m q" "xs \<noteq> []" "w' (m + 4) = n" "w' m = w m"
    and "\<And>x. x \<in> set xs \<Longrightarrow> x \<noteq> m \<Longrightarrow> w' x = w x \<and> w' (x + 4) = w (x + 4)" "distinct xs"
  shows "dseg w' a h xs m n"
proof -
  from assms(1,2) obtain ys where ys: "xs = ys @ [m]"
    by (metis append_butlast_last_id dseg_last)
  with assms(1) obtain b where b: "dseg w a h ys b m" "w m = b" "m \<noteq> 0"
    by (auto simp: dseg_append)
  have "dseg w' a h ys b m = dseg w a h ys b m"
    using assms(5,6) ys by (intro dseg_frame) auto
  with b assms(3,4) ys show ?thesis by (auto simp: dseg_append)
qed

lemma dseg_relink_prev:
  assumes "dseg w a y ys l 0" "y \<noteq> 0 \<Longrightarrow> w' y = b" "y \<noteq> 0 \<Longrightarrow> w' (y + 4) = w (y + 4)"
    and "\<And>x. x \<in> set ys \<Longrightarrow> x \<noteq> y \<Longrightarrow> w' x = w x \<and> w' (x + 4) = w (x + 4)" "distinct ys"
  shows "\<exists>l. dseg w' b y ys l 0"
proof (cases ys)
  case (Cons x xs)
  then have x: "x = y" "y \<noteq> 0" "dseg w y (w (y + 4)) xs l 0" using assms(1) by auto
  have "dseg w' y (w (y + 4)) xs l 0 = dseg w y (w (y + 4)) xs l 0"
    using assms(4,5) Cons x(1) by (intro dseg_frame) auto
  with assms(2,3) Cons x show ?thesis by auto
qed (use assms(1) in auto)

text \<open>Unlinking and linking one node, stated by what the new memory reads at each address.\<close>

lemma dseg_delete:
  assumes seg: "dseg w 0 h (xs @ p # ys) l 0" and d: "distinct (xs @ p # ys)"
    and al: "\<And>x. x \<in> set (xs @ p # ys) \<Longrightarrow> 8 dvd x"
    and n: "w (p + 4) \<noteq> 0 \<Longrightarrow> w' (w (p + 4)) = w p"
    and m: "w p \<noteq> 0 \<Longrightarrow> w' (w p + 4) = w (p + 4)"
    and same: "\<And>q. q \<in> set (xs @ ys) \<or> q - 4 \<in> set (xs @ ys) \<Longrightarrow> q \<noteq> w (p + 4) \<Longrightarrow> q \<noteq> w p + 4 \<Longrightarrow> w' q = w q"
  shows "\<exists>l. dseg w' 0 (if w p = 0 then w (p + 4) else h) (xs @ ys) l 0"
proof -
  from seg have pre: "dseg w 0 h xs (w p) p" and suf: "dseg w p (w (p + 4)) ys l 0"
    by (auto simp: dseg_append)
  have mx: "w p = (if xs = [] then 0 else last xs)" using dseg_last [OF pre] by simp
  note mem = dseg_last_mem [OF pre] dseg_head_mem [OF suf]
  have apart: "w (p + 4) \<noteq> 0 \<Longrightarrow> w (p + 4) \<noteq> w p" using mem d by auto
  have al': "8 dvd w p" "8 dvd w (p + 4)"
    using mem al by (cases "w p = 0"; cases "w (p + 4) = 0"; simp)+
  have "\<exists>l. dseg w' (w p) (w (p + 4)) ys l 0"
  proof (rule dseg_relink_prev [of w p _ _ l w'])
    show "dseg w p (w (p + 4)) ys l 0" by fact
    show "w (p + 4) \<noteq> 0 \<Longrightarrow> w' (w (p + 4)) = w p" by fact
    show "w (p + 4) \<noteq> 0 \<Longrightarrow> w' (w (p + 4) + 4) = w (w (p + 4) + 4)"
      using apart mem by (intro same) auto
    show "distinct ys" using d by simp
    fix x assume x: "x \<in> set ys" "x \<noteq> w (p + 4)"
    then have "x \<noteq> w p" using mem d dseg_nonzero [OF suf] by (cases "w p = 0") auto
    moreover have "x \<noteq> w p + 4" "x + 4 \<noteq> w (p + 4)" using x dvd8_offset [OF al al'(1), of x] dvd8_offset [OF al'(2) al, of x] by auto
    ultimately show "w' x = w x \<and> w' (x + 4) = w (x + 4)" using x by (auto intro!: same)
  qed
  moreover have "dseg w' 0 (if w p = 0 then w (p + 4) else h) xs (w p) (w (p + 4))"
  proof (cases "xs = []")
    case True
    with mx show ?thesis by simp
  next
    case False
    then have "w p \<noteq> 0" using mx dseg_nonzero [OF seg] by simp
    moreover have "dseg w' 0 h xs (w p) (w (p + 4))"
    proof (rule dseg_relink_next [of w _ _ _ _ p w'])
      show "dseg w 0 h xs (w p) p" "xs \<noteq> []" by fact+
      show "w' (w p + 4) = w (p + 4)" by (rule m) fact
      show "w' (w p) = w (w p)" using \<open>w p \<noteq> 0\<close> mem(1) apart by (intro same) auto
      show "distinct xs" using d by simp
      fix x assume x: "x \<in> set xs" "x \<noteq> w p"
      then have "x \<noteq> w (p + 4)" using mem d dseg_nonzero [OF pre] by (cases "w (p + 4) = 0") auto
      moreover have "x \<noteq> w p + 4" "x + 4 \<noteq> w (p + 4)" using x dvd8_offset [OF al al'(1), of x] dvd8_offset [OF al'(2) al, of x] by auto
      ultimately show "w' x = w x \<and> w' (x + 4) = w (x + 4)" using x by (auto intro!: same)
    qed
    ultimately show ?thesis by simp
  qed
  ultimately show ?thesis by (intro dseg_join)
qed

lemma dseg_insert:
  assumes pre: "dseg w 0 h xs m n" and suf: "dseg w m n ys l 0"
    and d: "distinct (xs @ p # ys)" and al: "\<And>x. x \<in> set (xs @ p # ys) \<Longrightarrow> 8 dvd x" and p: "p \<noteq> 0"
    and w': "w' p = m" "w' (p + 4) = n" "n \<noteq> 0 \<Longrightarrow> w' n = p" "m \<noteq> 0 \<Longrightarrow> w' (m + 4) = p"
    and same: "\<And>q. q \<in> set (xs @ ys) \<or> q - 4 \<in> set (xs @ ys) \<Longrightarrow> q \<noteq> n \<Longrightarrow> q \<noteq> m + 4 \<Longrightarrow> w' q = w q"
  shows "\<exists>l. dseg w' 0 (if m = 0 then p else h) (xs @ p # ys) l 0"
proof -
  have mx: "m = (if xs = [] then 0 else last xs)" using dseg_last [OF pre] by simp
  note mem = dseg_last_mem [OF pre] dseg_head_mem [OF suf]
  have apart: "n \<noteq> 0 \<Longrightarrow> n \<noteq> m" using mem d by auto
  have al': "8 dvd m" "8 dvd n"
    using mem al by (cases "m = 0"; cases "n = 0"; simp)+
  have "\<exists>l. dseg w' p n ys l 0"
  proof (rule dseg_relink_prev [of w m _ _ l w'])
    show "dseg w m n ys l 0" "n \<noteq> 0 \<Longrightarrow> w' n = p" by fact+
    show "n \<noteq> 0 \<Longrightarrow> w' (n + 4) = w (n + 4)" using apart mem by (intro same) auto
    show "distinct ys" using d by simp
    fix x assume x: "x \<in> set ys" "x \<noteq> n"
    then have "x \<noteq> m" using mem d dseg_nonzero [OF suf] by (cases "m = 0") auto
    moreover have "x \<noteq> m + 4" "x + 4 \<noteq> n"
      using x dvd8_offset [OF al al'(1), of x] dvd8_offset [OF al'(2) al, of x] by auto
    ultimately show "w' x = w x \<and> w' (x + 4) = w (x + 4)" using x by (auto intro!: same)
  qed
  moreover have "dseg w' 0 (if m = 0 then p else h) xs m p"
  proof (cases "xs = []")
    case True
    with mx show ?thesis by simp
  next
    case False
    then have "m \<noteq> 0" using mx dseg_nonzero [OF pre] by simp
    moreover have "dseg w' 0 h xs m p"
    proof (rule dseg_relink_next [of w _ _ _ _ n w'])
      show "dseg w 0 h xs m n" "xs \<noteq> []" by fact+
      show "w' (m + 4) = p" by (rule w'(4)) fact
      show "w' m = w m" using \<open>m \<noteq> 0\<close> mem(1) apart by (intro same) auto
      show "distinct xs" using d by simp
      fix x assume x: "x \<in> set xs" "x \<noteq> m"
      then have "x \<noteq> n" using mem d dseg_nonzero [OF pre] by (cases "n = 0") auto
      moreover have "x \<noteq> m + 4" "x + 4 \<noteq> n"
        using x dvd8_offset [OF al al'(1), of x] dvd8_offset [OF al'(2) al, of x] by auto
      ultimately show "w' x = w x \<and> w' (x + 4) = w (x + 4)" using x by (auto intro!: same)
    qed
    ultimately show ?thesis by simp
  qed
  ultimately show ?thesis using p w'(1,2) by (auto simp: dseg_append)
qed

subsection \<open>Size classes\<close>

lemma category_range: "category z \<in> {0..<10}"
  by (simp add: category_def)

lemma category_mono: "x \<le> y \<Longrightarrow> category x \<le> category y"
  by (simp add: category_def)

definition class_list :: "(int \<Rightarrow> int) \<Rightarrow> addr \<Rightarrow> int \<Rightarrow> (addr \<times> int) list \<Rightarrow> bool" where
  "class_list w s0 i ps \<longleftrightarrow> (\<exists>l. dseg w 0 (w (s0 + 4 * i)) (map fst ps) l 0) \<and>
     distinct (map fst ps) \<and> sorted (map snd ps)"

definition in_class :: "(addr \<times> int) set \<Rightarrow> int \<Rightarrow> (addr \<times> int) set" where
  "in_class F i = {b \<in> F. category (snd b) = i}"

definition free_lists :: "(int \<Rightarrow> int) \<Rightarrow> addr \<Rightarrow> (addr \<times> int) set \<Rightarrow> bool" where
  "free_lists w s0 F \<longleftrightarrow> (\<forall>i \<in> {0..<10}. \<exists>ps. class_list w s0 i ps \<and> set ps = in_class F i)"

text \<open>The free blocks lie behind the list roots, aligned, and their headers give their sizes.\<close>

definition free_ok :: "(int \<Rightarrow> int) \<Rightarrow> addr \<Rightarrow> (addr \<times> int) set \<Rightarrow> bool" where
  "free_ok w s0 F \<longleftrightarrow> 8 dvd s0 \<and> 0 < s0 \<and>
     (\<forall>(p, z) \<in> F. 8 dvd p \<and> s0 + 56 \<le> p \<and> p < 4294967296 \<and> tag_size (w (p - 4)) = z)"

definition link_words :: "addr \<Rightarrow> (addr \<times> int) set \<Rightarrow> int set" where
  "link_words s0 F = {s0..<s0 + 40} \<union> fst ` F \<union> (\<lambda>b. fst b + 4) ` F"

lemma link_wordsI: "(p, z) \<in> F \<Longrightarrow> p \<in> link_words s0 F" "(p, z) \<in> F \<Longrightarrow> p + 4 \<in> link_words s0 F"
  by (force simp: link_words_def)+

lemma free_okD:
  assumes "free_ok w s0 F" "(p, z) \<in> F"
  shows "8 dvd p" "s0 + 56 \<le> p" "p < 4294967296" "tag_size (w (p - 4)) = z" "0 < p"
  using assms by (auto simp: free_ok_def)

lemma free_ok_s0: "free_ok w s0 F \<Longrightarrow> 8 dvd s0 \<and> 0 < s0"
  by (simp add: free_ok_def)

lemma free_ok_subset: "free_ok w s0 F \<Longrightarrow> G \<subseteq> F \<Longrightarrow> free_ok w s0 G"
  by (auto simp: free_ok_def)

lemma free_ok_functional: "free_ok w s0 F \<Longrightarrow> (p, z) \<in> F \<Longrightarrow> (p, z') \<in> F \<Longrightarrow> z = z'"
  by (auto dest: free_okD(4))

subsection \<open>Frames and updates of the lists\<close>

lemma class_list_frame:
  assumes "class_list w s0 i ps" "w' (s0 + 4 * i) = w (s0 + 4 * i)"
    and "\<And>x. x \<in> fst ` set ps \<Longrightarrow> w' x = w x \<and> w' (x + 4) = w (x + 4)"
  shows "class_list w' s0 i ps"
proof -
  have "dseg w' 0 (w (s0 + 4 * i)) (map fst ps) l 0 = dseg w 0 (w (s0 + 4 * i)) (map fst ps) l 0" for l
    using assms(3) by (intro dseg_frame) auto
  with assms(1,2) show ?thesis by (simp add: class_list_def)
qed

lemma free_lists_frame:
  assumes "free_lists w s0 F" "\<And>q. q \<in> link_words s0 F \<Longrightarrow> w' q = w q"
  shows "free_lists w' s0 F"
  unfolding free_lists_def
proof
  fix i :: int assume i: "i \<in> {0..<10}"
  with assms(1) obtain ps where ps: "class_list w s0 i ps" "set ps = in_class F i"
    unfolding free_lists_def by blast
  have "class_list w' s0 i ps"
  proof (rule class_list_frame [OF ps(1)])
    show "w' (s0 + 4 * i) = w (s0 + 4 * i)" using i by (intro assms(2)) (auto simp: link_words_def)
    show "\<And>x. x \<in> fst ` set ps \<Longrightarrow> w' x = w x \<and> w' (x + 4) = w (x + 4)"
      using ps(2) by (auto simp: in_class_def intro!: assms(2) intro: link_wordsI)
  qed
  with ps(2) show "\<exists>ps. class_list w' s0 i ps \<and> set ps = in_class F i" by blast
qed

text \<open>One class changes: its new list is given, the words that changed are its root and links of
  nodes that are in no other class.\<close>

lemma free_lists_update:
  assumes lists: "free_lists w s0 F" and ok: "free_ok w s0 F" and k: "k \<in> {0..<10}"
    and new: "class_list w' s0 k ps" "set ps = in_class G k"
    and rest: "\<And>i. i \<noteq> k \<Longrightarrow> in_class G i = in_class F i"
    and N: "\<And>x. x \<in> N \<Longrightarrow> 8 dvd x \<and> s0 + 56 \<le> x \<and> (\<forall>z. (x, z) \<in> F \<longrightarrow> category z = k)"
    and same: "\<And>q. q \<noteq> s0 + 4 * k \<Longrightarrow> q \<notin> N \<Longrightarrow> q - 4 \<notin> N \<Longrightarrow> w' q = w q"
  shows "free_lists w' s0 G"
  unfolding free_lists_def
proof
  fix i :: int assume i: "i \<in> {0..<10}"
  show "\<exists>ps. class_list w' s0 i ps \<and> set ps = in_class G i"
  proof (cases "i = k")
    case True
    with new show ?thesis by blast
  next
    case False
    from lists i obtain qs where qs: "class_list w s0 i qs" "set qs = in_class F i"
      unfolding free_lists_def by blast
    have s0: "8 dvd s0" using ok by (simp add: free_ok_def)
    have "class_list w' s0 i qs"
    proof (rule class_list_frame [OF qs(1)])
      have "s0 + 4 * i \<notin> N" "s0 + 4 * i - 4 \<notin> N" using i N by fastforce+
      then show "w' (s0 + 4 * i) = w (s0 + 4 * i)" using False by (intro same) auto
      fix x assume "x \<in> fst ` set qs"
      then obtain z where xz: "(x, z) \<in> F" "category z = i" using qs(2) by (auto simp: in_class_def)
      then have x: "8 dvd x" "s0 + 56 \<le> x" using free_okD [OF ok] by auto
      have "x \<notin> N" using N [of x] xz False by auto
      moreover have "x - 4 \<notin> N" "x + 4 \<notin> N" using x N dvd8_offset [of x "x - 4"] dvd8_offset [of "x + 4" x] by auto
      moreover have "x \<noteq> s0 + 4 * k" "x + 4 \<noteq> s0 + 4 * k" using k x(2) by auto
      ultimately show "w' x = w x \<and> w' (x + 4) = w (x + 4)" by (auto intro!: same)
    qed
    with qs(2) rest [OF False] show ?thesis by auto
  qed
qed

subsection \<open>The search loops\<close>

definition sizes_read :: "mm \<Rightarrow> (addr \<times> int) list \<Rightarrow> bool" where
  "sizes_read s ps \<longleftrightarrow> (\<forall>(x, z) \<in> set ps. 8 dvd x \<and> tag_size (words s (x - 4)) = z)"

lemma sizes_readI: "free_ok (words s) s0 F \<Longrightarrow> set ps \<subseteq> F \<Longrightarrow> sizes_read s ps"
  by (auto simp: sizes_read_def dest: free_okD)

lemma size_of_node:
  "8 dvd x \<Longrightarrow> GET_SIZE s (HDRP x) = tag_size (words s (x - 4))"
  unfolding macro_defs by (rule GET_SIZE_words) presburger

lemma next_of_node: "8 dvd x \<Longrightarrow> GET s (NEXT_LINKNODE_RP x) = words s (x + 4)"
  unfolding macro_defs by (rule GET_words) presburger

lemma prev_of_node: "8 dvd x \<Longrightarrow> GET s (PREV_LINKNODE_RP x) = words s x"
  unfolding macro_defs by (rule GET_words) presburger

text \<open>\<open>smaller z ps\<close> is the part of a list the insertion loop walks over.\<close>

abbreviation smaller :: "int \<Rightarrow> (addr \<times> int) list \<Rightarrow> (addr \<times> int) list" where
  "smaller z \<equiv> takeWhile (\<lambda>b. snd b < z)"

abbreviation not_smaller :: "int \<Rightarrow> (addr \<times> int) list \<Rightarrow> (addr \<times> int) list" where
  "not_smaller z \<equiv> dropWhile (\<lambda>b. snd b < z)"

definition head_addr :: "(addr \<times> int) list \<Rightarrow> addr" where
  "head_addr ps = (case ps of [] \<Rightarrow> 0 | b # _ \<Rightarrow> fst b)"

definition last_addr :: "addr \<Rightarrow> (addr \<times> int) list \<Rightarrow> addr" where
  "last_addr a ps = (if ps = [] then a else fst (last ps))"

lemma head_addr_simps [simp]: "head_addr [] = 0" "head_addr (b # ps) = fst b"
  by (simp_all add: head_addr_def)

lemma last_addr_simps [simp]:
  "last_addr a [] = a" "last_addr a (b # ps) = last_addr (fst b) ps" "last_addr a (ps @ [b]) = fst b"
  by (auto simp: last_addr_def)

lemma insert_position_eq:
  assumes "dseg (words s) a q (map fst ps) l 0" "sizes_read s ps"
  shows "insert_position s p prevp q =
    Some (last_addr prevp (smaller (GET_SIZE s (HDRP p)) ps), head_addr (not_smaller (GET_SIZE s (HDRP p)) ps))"
  using assms
proof (induction ps arbitrary: a q prevp)
  case Nil
  then show ?case by (simp add: insert_position.simps)
next
  case (Cons b ps)
  obtain x z where b: "b = (x, z)" by fastforce
  with Cons.prems have x: "q = x" "x \<noteq> 0" "8 dvd x" "tag_size (words s (x - 4)) = z"
    "dseg (words s) x (words s (x + 4)) (map fst ps) l 0" "sizes_read s ps"
    by (auto simp: sizes_read_def)
  show ?case
    using x b Cons.IH [OF x(5,6), of x]
    by (simp add: insert_position.simps [of s p prevp x] size_of_node next_of_node)
qed

lemma find_in_list_eq:
  assumes "dseg (words s) a q (map fst ps) l 0" "sizes_read s ps"
  shows "find_in_list s z q = Some (head_addr (not_smaller z ps))"
  using assms
proof (induction ps arbitrary: a q)
  case Nil
  then show ?case by (simp add: find_in_list.simps)
next
  case (Cons b ps)
  obtain x y where b: "b = (x, y)" by fastforce
  with Cons.prems have x: "q = x" "x \<noteq> 0" "8 dvd x" "tag_size (words s (x - 4)) = y"
    "dseg (words s) x (words s (x + 4)) (map fst ps) l 0" "sizes_read s ps"
    by (auto simp: sizes_read_def)
  show ?case
    using x b Cons.IH [OF x(5,6)]
    by (simp add: find_in_list.simps [of s z x] size_of_node next_of_node)
qed

subsection \<open>Removing a free block\<close>

lemma dvd8_add4: "8 dvd x \<Longrightarrow> 4 dvd x + (4 :: int)"
  by presburger

lemma category_root:
  "8 dvd p \<Longrightarrow> get_freeCategory_root s (GET_SIZE s (HDRP p)) =
    block_list_start s + 4 * category (tag_size (words s (p - 4)))"
  by (simp add: get_freeCategory_root_def size_of_node WSIZE_def)

lemma root_dvd4: "8 dvd s0 \<Longrightarrow> 4 dvd s0 + 4 * (i :: int)"
  by presburger

lemma remove_free_block_words:
  fixes s :: mm
  defines "w \<equiv> words s"
  assumes "8 dvd block_list_start s" "8 dvd p" "8 dvd w p" "8 dvd w (p + 4)"
  shows "words (remove_free_block p s) =
    (let w1 = if w (p + 4) \<noteq> 0 then w(w (p + 4) := w p) else w;
         w2 = if w p = 0 then w1(block_list_start s + 4 * category (tag_size (w (p - 4))) := w (p + 4))
              else w1(w p + 4 := w (p + 4))
     in w2(p + 4 := 0, p := 0))"
    and "same_fields s (remove_free_block p s)"
proof -
  have al: "4 dvd p" "4 dvd p + 4" "4 dvd words s p" "4 dvd words s p + 4" "4 dvd words s (p + 4)"
    using assms dvd8_add4 dvd8_dvd4 by auto
  note root = root_dvd4 [OF assms(2)]
  show "words (remove_free_block p s) =
    (let w1 = if w (p + 4) \<noteq> 0 then w(w (p + 4) := w p) else w;
         w2 = if w p = 0 then w1(block_list_start s + 4 * category (tag_size (w (p - 4))) := w (p + 4))
              else w1(w p + 4 := w (p + 4))
     in w2(p + 4 := 0, p := 0))"
    unfolding remove_free_block_def Let_def w_def category_root [OF assms(3)] next_of_node [OF assms(3)]
      prev_of_node [OF assms(3)]
    by (simp add: macro_defs words_PUT al root)
  show "same_fields s (remove_free_block p s)"
    by (simp add: remove_free_block_def Let_def)
qed

lemma remove_free_block_lists:
  assumes lists: "free_lists (words s) (block_list_start s) F"
    and ok: "free_ok (words s) (block_list_start s) F" and p: "(p, z) \<in> F"
  defines "s' \<equiv> remove_free_block p s"
  shows "free_lists (words s') (block_list_start s) (F - {(p, z)})"
    and "\<And>q. q \<notin> link_words (block_list_start s) F \<Longrightarrow> words s' q = words s q"
    and "same_fields s s'"
proof -
  define w where "w = words s"
  define s0 where "s0 = block_list_start s"
  define k where "k = category z"
  have k: "k \<in> {0..<10}" unfolding k_def by (rule category_range)
  from lists k obtain ps where ps: "class_list w s0 k ps" "set ps = in_class F k"
    unfolding free_lists_def w_def s0_def by blast
  from p ps(2) have "(p, z) \<in> set ps" by (simp add: in_class_def k_def)
  then obtain xs ys where split: "ps = xs @ (p, z) # ys" by (meson split_list)
  let ?n = "w (p + 4)" and ?m = "w p"
  define us vs where "us = map fst xs" and "vs = map fst ys"
  from ps(1) split obtain l where seg: "dseg w 0 (w (s0 + 4 * k)) (us @ p # vs) l 0"
    and d: "distinct (us @ p # vs)" and srt: "sorted (map snd ps)"
    by (auto simp: class_list_def us_def vs_def)
  have inF: "\<exists>y. (x, y) \<in> F \<and> category y = k" if "x \<in> set (us @ p # vs)" for x
    using that ps(2) split by (force simp: in_class_def us_def vs_def)
  have al: "8 dvd x" "s0 + 56 \<le> x" if "x \<in> set (us @ p # vs)" for x
    using inF [OF that] free_okD [OF ok] unfolding s0_def by blast+
  have nodes: "?m \<noteq> 0 \<Longrightarrow> ?m \<in> set us" "?n \<noteq> 0 \<Longrightarrow> ?n \<in> set vs"
    using dseg_split [OF seg] dseg_last_mem dseg_head_mem by blast+
  have s0: "8 dvd s0" "0 < s0" using ok by (auto simp: free_ok_def s0_def)
  have mn: "8 dvd ?m" "8 dvd ?n"
    using nodes al(1) by (cases "?m = 0"; cases "?n = 0"; simp)+
  then have dvd: "8 dvd block_list_start s" "8 dvd p" "8 dvd words s p" "8 dvd words s (p + 4)"
    using s0 al [of p] by (auto simp: s0_def w_def [symmetric])
  have size_p: "tag_size (w (p - 4)) = z" using free_okD(4) [OF ok p] by (simp add: w_def)
  let ?w' = "words s'"
  have w': "?w' = (let w1 = if ?n \<noteq> 0 then w(?n := ?m) else w;
         w2 = if ?m = 0 then w1(s0 + 4 * k := ?n) else w1(?m + 4 := ?n)
     in w2(p + 4 := 0, p := 0))"
    using remove_free_block_words(1) [OF dvd] size_p
    unfolding s'_def w_def [symmetric] s0_def [symmetric] k_def by simp
  show "same_fields s s'" unfolding s'_def by (rule remove_free_block_words(2) [OF dvd])
  have apart: "x \<noteq> s0 + 4 * k" "x + 4 \<noteq> s0 + 4 * k" if "x \<in> set (us @ p # vs)" for x
    using al(2) [OF that] k by auto
  have other: "?w' q = w q" if "q \<noteq> s0 + 4 * k" "q \<notin> set (us @ p # vs)" "q - 4 \<notin> set (us @ p # vs)" for q
  proof -
    have "?m \<noteq> 0 \<Longrightarrow> q \<noteq> ?m + 4" "?n \<noteq> 0 \<Longrightarrow> q \<noteq> ?n" "q \<noteq> p" "q \<noteq> p + 4"
      using that nodes by auto
    with that(1) show ?thesis by (auto simp: w' Let_def)
  qed
  have off: "x + 4 \<noteq> y" if "x \<in> set (us @ p # vs)" "y \<in> set (us @ p # vs)" for x y
    using dvd8_offset [OF al(1) al(1), OF that(2) that(1)] by auto
  have pn: "p \<notin> set us" "p \<notin> set vs" "set us \<inter> set vs = {}" using d by auto
  have "\<exists>l. dseg ?w' 0 (if ?m = 0 then ?n else w (s0 + 4 * k)) (us @ vs) l 0"
  proof (rule dseg_delete [OF seg d al(1)])
    show "?n \<noteq> 0 \<Longrightarrow> ?w' ?n = ?m"
      using nodes pn off [of ?m ?n] off [of p ?n] apart [of ?n] by (auto simp: w' Let_def)
    show "?m \<noteq> 0 \<Longrightarrow> ?w' (?m + 4) = ?n"
      using nodes pn off [of ?m p] by (auto simp: w' Let_def)
    show "?w' q = w q" if "q \<in> set (us @ vs) \<or> q - 4 \<in> set (us @ vs)" "q \<noteq> ?n" "q \<noteq> ?m + 4" for q
      using that pn off [of p q] off [of "q - 4" p] apart [of q] apart [of "q - 4"] by (auto simp: w' Let_def)
  qed
  moreover have "?w' (s0 + 4 * k) = (if ?m = 0 then ?n else w (s0 + 4 * k))"
  proof -
    have "p \<noteq> s0 + 4 * k" "p + 4 \<noteq> s0 + 4 * k" "?n \<noteq> 0 \<Longrightarrow> ?n \<noteq> s0 + 4 * k" "?m \<noteq> 0 \<Longrightarrow> ?m + 4 \<noteq> s0 + 4 * k"
      using nodes by (auto intro!: apart)
    then show ?thesis by (auto simp: w' Let_def)
  qed
  ultimately have "class_list ?w' s0 k (xs @ ys)"
    using d srt split by (auto simp: class_list_def sorted_append us_def vs_def)
  moreover have "set (xs @ ys) = in_class (F - {(p, z)}) k"
  proof -
    have "in_class (F - {(p, z)}) k = set ps - {(p, z)}" unfolding ps(2) by (auto simp: in_class_def)
    moreover have "(p, z) \<notin> set xs" "(p, z) \<notin> set ys" using pn by (force simp: us_def vs_def)+
    ultimately show ?thesis by (simp add: split)
  qed
  moreover have "in_class (F - {(p, z)}) i = in_class F i" if "i \<noteq> k" for i
    using that by (auto simp: in_class_def k_def)
  moreover have "8 dvd x \<and> s0 + 56 \<le> x \<and> (\<forall>z. (x, z) \<in> F \<longrightarrow> category z = k)"
    if "x \<in> set (us @ p # vs)" for x
    using al [OF that] inF [OF that] free_ok_functional [OF ok] by blast
  ultimately show "free_lists ?w' (block_list_start s) (F - {(p, z)})"
    using free_lists_update [OF lists ok k, of ?w' "xs @ ys" "F - {(p, z)}" "set (us @ p # vs)"] other
    by (simp add: s0_def w_def)
  fix q assume "q \<notin> link_words (block_list_start s) F"
  moreover have "s0 + 4 * k \<in> link_words s0 F" using k by (simp add: link_words_def)
  moreover have "x \<in> link_words s0 F" "x + 4 \<in> link_words s0 F" if "x \<in> set (us @ p # vs)" for x
    using inF [OF that] link_wordsI by blast+
  ultimately show "words s' q = words s q"
    using other [of q] unfolding w_def s0_def by (metis diff_add_cancel)
qed

subsection \<open>Inserting a free block\<close>

text \<open>The links \<^verbatim>\<open>insert_free_block\<close> stores, given the position the loop found: \<open>m\<close> is the node
  before (0 for the root), \<open>n\<close> the node after (0 for none).\<close>

lemma insert_free_block_words:
  fixes s :: mm and p :: addr
  defines "w \<equiv> words s" and "r \<equiv> block_list_start s + 4 * category (tag_size (words s (p - 4)))"
  assumes pos: "insert_position s p r (w r) = Some (if m = 0 then r else m, n)"
    and al: "8 dvd block_list_start s" "8 dvd p" "8 dvd m" "8 dvd n"
    and range: "0 \<le> p" "p < 4294967296" "0 \<le> m" "m < 4294967296" "0 \<le> n" "n < 4294967296"
    and r: "m \<noteq> r"
  shows "\<exists>s'. insert_free_block p s = Some s' \<and> same_fields s s' \<and>
    words s' = (let w1 = if m = 0 then w(r := p, p + 4 := n, p := 0) else w(m + 4 := p, p := m, p + 4 := n)
                in if n \<noteq> 0 then w1(n := p) else w1)"
proof -
  have dvd4: "4 dvd p" "4 dvd n" "4 dvd m" "4 dvd r"
    using al dvd8_add4 dvd8_dvd4 root_dvd4 by (auto simp: r_def)
  have root: "get_freeCategory_root s (GET_SIZE s (HDRP p)) = r" "GET s r = w r"
    using category_root [OF al(2)] GET_words [OF dvd4(4)] by (simp_all add: r_def w_def)
  show ?thesis
    unfolding insert_free_block_def root Let_def pos
    using r by (auto simp: macro_defs words_PUT dvd4 range w_def)
qed

lemma sorted_insert_split:
  assumes "sorted (map snd ps)"
  shows "sorted (map snd (smaller z ps @ (p, z) # not_smaller z ps))"
proof -
  have "sorted (map snd (smaller z ps @ not_smaller z ps))" using assms by simp
  then have parts: "sorted (map snd (smaller z ps))" "sorted (map snd (not_smaller z ps))"
    by (simp_all only: map_append sorted_append)
  have small: "snd b < z" if "b \<in> set (smaller z ps)" for b
    using set_takeWhileD [OF that] by simp
  have large: "z \<le> snd b" if "b \<in> set (not_smaller z ps)" for b
  proof (cases "not_smaller z ps")
    case (Cons c cs)
    then have "z \<le> snd c" by (metis dropWhile_eq_Cons_conv linorder_not_less)
    with parts(2) Cons that show ?thesis by auto
  next
    case Nil
    with that have "b \<in> set []" by metis
    then show ?thesis by simp
  qed
  have "snd a \<le> snd b" if "a \<in> set (smaller z ps)" "b \<in> set (not_smaller z ps)" for a b
    using small [OF that(1)] large [OF that(2)] by simp
  moreover have "snd a \<le> z" if "a \<in> set (smaller z ps)" for a
    using small [OF that] by simp
  ultimately show ?thesis using parts large by (simp add: sorted_append)
qed

lemma insert_free_block_lists:
  assumes lists: "free_lists (words s) (block_list_start s) F"
    and ok: "free_ok (words s) (block_list_start s) (insert (p, z) F)" and p: "(p, z) \<notin> F"
  shows "\<exists>s'. insert_free_block p s = Some s' \<and> same_fields s s' \<and>
    free_lists (words s') (block_list_start s) (insert (p, z) F) \<and>
    (\<forall>q. q \<notin> link_words (block_list_start s) (insert (p, z) F) \<longrightarrow> words s' q = words s q)"
proof -
  define w where "w = words s"
  define s0 where "s0 = block_list_start s"
  define k where "k = category z"
  let ?G = "insert (p, z) F"
  have okF: "free_ok (words s) (block_list_start s) F" using ok by (rule free_ok_subset) auto
  have k: "k \<in> {0..<10}" unfolding k_def by (rule category_range)
  from lists k obtain ps where ps: "class_list w s0 k ps" "set ps = in_class F k"
    unfolding free_lists_def w_def s0_def by blast
  define xs where "xs = smaller z ps"
  define ys where "ys = not_smaller z ps"
  have split: "ps = xs @ ys" by (simp add: xs_def ys_def)
  define us vs where "us = map fst xs" and "vs = map fst ys"
  from ps(1) obtain l where seg: "dseg w 0 (w (s0 + 4 * k)) (map fst ps) l 0"
    and d: "distinct (map fst ps)" and srt: "sorted (map snd ps)"
    by (auto simp: class_list_def)
  from seg obtain m n where pre: "dseg w 0 (w (s0 + 4 * k)) us m n" and suf: "dseg w m n vs l 0"
    by (auto simp: split dseg_append us_def vs_def)
  note nodes = dseg_last_mem [OF pre] dseg_head_mem [OF suf]
  have m: "m = last_addr 0 xs" using dseg_last [OF pre] by (simp add: last_addr_def last_map us_def)
  have n: "n = head_addr ys" using dseg_head [OF suf] by (cases ys) (auto simp: vs_def)
  have inF: "\<exists>y. (x, y) \<in> ?G \<and> category y = k" if "x \<in> set (us @ p # vs)" for x
    using that ps(2) split by (force simp: in_class_def k_def us_def vs_def)
  have al: "8 dvd x" "s0 + 56 \<le> x" "x < 4294967296" if "x \<in> set (us @ p # vs)" for x
    using inF [OF that] free_okD [OF ok] unfolding s0_def by blast+
  have s0: "8 dvd s0" "0 < s0" using ok by (auto simp: free_ok_def s0_def)
  have pp: "(p, z) \<in> ?G" by simp
  have size_p: "tag_size (w (p - 4)) = z" using free_okD(4) [OF ok pp] by (simp add: w_def)
  have "(p, y) \<notin> F" for y using free_ok_functional [OF ok pp, of y] p by blast
  moreover have "set xs \<subseteq> F" "set ys \<subseteq> F" using ps(2) split by (auto simp: in_class_def)
  ultimately have new: "p \<notin> set us" "p \<notin> set vs" by (auto simp: us_def vs_def)
  have dd: "distinct (us @ p # vs)" using d split new by (auto simp: us_def vs_def)
  have apart: "x \<noteq> s0 + 4 * k" "x + 4 \<noteq> s0 + 4 * k" if "x \<in> set (us @ p # vs)" for x
    using al(2) [OF that] k by auto
  have pos: "insert_position s p (s0 + 4 * k) (w (s0 + 4 * k)) =
      Some (if m = 0 then s0 + 4 * k else m, n)"
  proof -
    have "sizes_read s ps" using okF ps(2) by (intro sizes_readI) (auto simp: in_class_def)
    moreover have "GET_SIZE s (HDRP p) = z"
      using size_of_node [of p s] al [of p] size_p by (simp add: w_def)
    ultimately have "insert_position s p (s0 + 4 * k) (w (s0 + 4 * k)) =
        Some (last_addr (s0 + 4 * k) xs, n)"
      using insert_position_eq [of s 0 _ ps l p "s0 + 4 * k"] seg by (simp add: w_def n xs_def ys_def)
    moreover have "last_addr (s0 + 4 * k) xs = (if m = 0 then s0 + 4 * k else m)"
      using m dseg_nonzero [OF pre] by (auto simp: last_addr_def us_def)
    ultimately show ?thesis by simp
  qed
  have range: "0 \<le> p" "p < 4294967296" "0 \<le> m" "m < 4294967296" "0 \<le> n" "n < 4294967296"
    and mn: "8 dvd m" "8 dvd n" and mr: "m \<noteq> s0 + 4 * k"
    using al [of p] al [of m] al [of n] nodes s0 apart [of m] k
    by (cases "m = 0"; cases "n = 0"; force)+
  have "8 dvd block_list_start s" "8 dvd p" using s0 al by (auto simp: s0_def)
  from insert_free_block_words [OF _ this mn range] pos mr size_p obtain s' where
    s': "insert_free_block p s = Some s'" "same_fields s s'" and
    w': "words s' = (let w1 = if m = 0 then w(s0 + 4 * k := p, p + 4 := n, p := 0)
            else w(m + 4 := p, p := m, p + 4 := n) in if n \<noteq> 0 then w1(n := p) else w1)"
    unfolding w_def [symmetric] s0_def [symmetric] k_def by auto
  let ?w' = "words s'"
  have off: "x + 4 \<noteq> y" if "x \<in> set (us @ p # vs)" "y \<in> set (us @ p # vs)" for x y
    using dvd8_offset [OF al(1) al(1), OF that(2) that(1)] by auto
  have other: "?w' q = w q" if "q \<noteq> s0 + 4 * k" "q \<notin> set (us @ p # vs)" "q - 4 \<notin> set (us @ p # vs)" for q
  proof -
    have "m \<noteq> 0 \<Longrightarrow> q \<noteq> m + 4" "n \<noteq> 0 \<Longrightarrow> q \<noteq> n" "q \<noteq> p" "q \<noteq> p + 4"
      using that nodes by auto
    with that(1) show ?thesis by (auto simp: w' Let_def)
  qed
  have "\<exists>l. dseg ?w' 0 (if m = 0 then p else w (s0 + 4 * k)) (us @ p # vs) l 0"
  proof (rule dseg_insert [OF pre suf dd al(1)])
    show "p \<noteq> 0" using al(2) [of p] s0 by simp
    show "?w' p = m" "?w' (p + 4) = n"
      using nodes new off [of m p] off [of p n] apart [of p] by (auto simp: w' Let_def)
    show "n \<noteq> 0 \<Longrightarrow> ?w' n = p" by (simp add: w' Let_def)
    show "m \<noteq> 0 \<Longrightarrow> ?w' (m + 4) = p"
      using nodes new off [of m p] off [of m n] by (auto simp: w' Let_def)
    show "?w' q = w q" if "q \<in> set (us @ vs) \<or> q - 4 \<in> set (us @ vs)" "q \<noteq> n" "q \<noteq> m + 4" for q
      using that new off [of p q] off [of "q - 4" p] apart [of q] apart [of "q - 4"] by (auto simp: w' Let_def)
  qed
  moreover have "?w' (s0 + 4 * k) = (if m = 0 then p else w (s0 + 4 * k))"
  proof -
    have "p \<noteq> s0 + 4 * k" "p + 4 \<noteq> s0 + 4 * k" "n \<noteq> 0 \<Longrightarrow> n \<noteq> s0 + 4 * k" "m \<noteq> 0 \<Longrightarrow> m + 4 \<noteq> s0 + 4 * k"
      using nodes by (auto intro!: apart)
    then show ?thesis by (auto simp: w' Let_def)
  qed
  moreover have "sorted (map snd (xs @ (p, z) # ys))"
    unfolding xs_def ys_def by (rule sorted_insert_split) fact
  ultimately have new_list: "class_list ?w' s0 k (xs @ (p, z) # ys)"
    using dd by (simp add: class_list_def us_def vs_def)
  have new_set: "set (xs @ (p, z) # ys) = in_class ?G k"
  proof -
    have "in_class ?G k = insert (p, z) (set ps)" unfolding ps(2) by (auto simp: in_class_def k_def)
    then show ?thesis by (simp add: split)
  qed
  have N: "8 dvd x \<and> s0 + 56 \<le> x \<and> (\<forall>z. (x, z) \<in> F \<longrightarrow> category z = k)"
    if "x \<in> set (us @ p # vs)" for x
    using al [OF that] inF [OF that] free_ok_functional [OF ok] by blast
  have "free_lists ?w' s0 ?G"
  proof (rule free_lists_update [OF lists [folded s0_def] okF [folded s0_def] k new_list new_set _ N])
    show "i \<noteq> k \<Longrightarrow> in_class ?G i = in_class F i" for i
      by (auto simp: in_class_def k_def)
    show "q \<noteq> s0 + 4 * k \<Longrightarrow> q \<notin> set (us @ p # vs) \<Longrightarrow> q - 4 \<notin> set (us @ p # vs) \<Longrightarrow>
        words s' q = words s q" for q
      unfolding w_def [symmetric] by (rule other)
  qed
  moreover have "words s' q = words s q" if q: "q \<notin> link_words (block_list_start s) ?G" for q
  proof -
    have link: "x \<in> link_words s0 ?G" "x + 4 \<in> link_words s0 ?G" if "x \<in> set (us @ p # vs)" for x
      using inF [OF that] by (auto intro: link_wordsI)
    have "q \<noteq> s0 + 4 * k" using k q by (auto simp: link_words_def s0_def)
    moreover have "q \<notin> set (us @ p # vs)" using link(1) q unfolding s0_def by metis
    moreover have "q - 4 \<notin> set (us @ p # vs)"
    proof
      assume "q - 4 \<in> set (us @ p # vs)"
      then have "q - 4 + 4 \<in> link_words s0 ?G" by (rule link(2))
      with q show False by (simp add: s0_def)
    qed
    ultimately show ?thesis unfolding w_def [symmetric] by (rule other)
  qed
  ultimately show ?thesis using s' unfolding s0_def by blast
qed

subsection \<open>Finding a best fit\<close>

text \<open>\<open>best_fit z F p\<close>: \<open>p\<close> is a smallest block of \<open>F\<close> that can hold \<open>z\<close> bytes, or 0 when none can.\<close>

definition best_fit :: "int \<Rightarrow> (addr \<times> int) set \<Rightarrow> addr \<Rightarrow> bool" where
  "best_fit z F p \<longleftrightarrow>
     (if p = 0 then \<forall>b \<in> F. snd b < z
      else \<exists>b \<in> F. fst b = p \<and> z \<le> snd b \<and> (\<forall>c \<in> F. z \<le> snd c \<longrightarrow> snd b \<le> snd c))"

lemma best_fit_class:
  assumes "class_list w s0 i ps" "set ps = G" "\<forall>b \<in> G. fst b \<noteq> 0"
  shows "best_fit z G (head_addr (not_smaller z ps))"
proof (cases "not_smaller z ps")
  case Nil
  then have "\<forall>b \<in> set ps. snd b < z" by (simp add: dropWhile_eq_Nil_conv)
  moreover have "head_addr (not_smaller z ps) = 0" by (simp only: Nil head_addr_simps)
  ultimately show ?thesis using assms(2) by (simp only: best_fit_def simp_thms if_True)
next
  case (Cons b bs)
  have split: "ps = smaller z ps @ b # bs" using takeWhile_dropWhile_id [of "\<lambda>b. snd b < z" ps] Cons by simp
  have b: "z \<le> snd b" "b \<in> G" using Cons assms(2) split
    by (metis dropWhile_eq_Cons_conv linorder_not_less, metis in_set_conv_decomp)
  have "sorted (map snd (smaller z ps @ b # bs))" using assms(1) split by (simp add: class_list_def)
  then have "\<forall>c \<in> set bs. snd b \<le> snd c" by (simp add: sorted_append)
  moreover have "\<forall>c \<in> set (smaller z ps). snd c < z" by (auto dest: set_takeWhileD)
  ultimately have "\<forall>c \<in> set ps. z \<le> snd c \<longrightarrow> snd b \<le> snd c"
    by (subst split) auto
  with b Cons assms(2,3) show ?thesis by (auto simp: best_fit_def)
qed

lemma best_fit_union:
  assumes "best_fit z G p" "p \<noteq> 0" "\<forall>c \<in> H. \<forall>b \<in> G. snd b \<le> snd c"
  shows "best_fit z (G \<union> H) p"
  using assms by (auto simp: best_fit_def)

lemma best_fit_extend:
  assumes "best_fit z H p" "\<forall>c \<in> G. snd c < z"
  shows "best_fit z (G \<union> H) p"
proof (cases "p = 0")
  case False
  with assms(1) obtain b where b: "b \<in> H" "fst b = p" "z \<le> snd b" "\<forall>c \<in> H. z \<le> snd c \<longrightarrow> snd b \<le> snd c"
    by (auto simp: best_fit_def)
  with assms(2) have "\<forall>c \<in> G \<union> H. z \<le> snd c \<longrightarrow> snd b \<le> snd c" by force
  with b False show ?thesis by (auto simp: best_fit_def)
qed (use assms in \<open>auto simp: best_fit_def\<close>)

lemma best_fit_skip: "best_fit z G 0 \<Longrightarrow> best_fit z H p \<Longrightarrow> best_fit z (G \<union> H) p"
  by (rule best_fit_extend) (simp_all add: best_fit_def)

lemma find_from_best:
  assumes lists: "free_lists (words s) s0 F" and ok: "free_ok (words s) s0 F"
    and hl: "heap_listp s = s0 + 48" and i: "0 \<le> i" "i \<le> 10"
  shows "\<exists>p. find_from s z (s0 + 4 * i) = Some p \<and> best_fit z {b \<in> F. i \<le> category (snd b)} p"
  using i
proof (induction "nat (10 - i)" arbitrary: i)
  case 0
  then have "i = 10" by simp
  moreover have "\<not> 10 \<le> category y" for y using category_range [of y] by simp
  ultimately show ?case by (simp add: find_from.simps [of s z "s0 + 40"] hl WSIZE_def best_fit_def)
next
  case (Suc n)
  then have i: "i \<in> {0..<10}" by simp
  with lists obtain ps where ps: "class_list (words s) s0 i ps" "set ps = in_class F i"
    unfolding free_lists_def by blast
  then obtain l where seg: "dseg (words s) 0 (words s (s0 + 4 * i)) (map fst ps) l 0"
    by (auto simp: class_list_def)
  have "sizes_read s ps" using ok ps(2) by (intro sizes_readI) (auto simp: in_class_def)
  with seg have inner: "find_in_list s z (GET s (s0 + 4 * i)) = Some (head_addr (not_smaller z ps))"
    using find_in_list_eq GET_words root_dvd4 free_ok_s0 [OF ok] by metis
  let ?p = "head_addr (not_smaller z ps)"
  have "\<forall>b \<in> in_class F i. fst b \<noteq> 0" using free_okD(5) [OF ok] by (force simp: in_class_def)
  from best_fit_class [OF ps this] have best: "best_fit z (in_class F i) ?p" .
  have union: "{b \<in> F. i \<le> category (snd b)} = in_class F i \<union> {b \<in> F. i + 1 \<le> category (snd b)}"
    by (auto simp: in_class_def)
  have unfold: "find_from s z (s0 + 4 * i) =
      (if ?p \<noteq> 0 then Some ?p else find_from s z (s0 + 4 * (i + 1)))"
    using i inner by (simp add: find_from.simps [of s z "s0 + 4 * i"] hl WSIZE_def distrib_left add.assoc)
  show ?case
  proof (cases "?p = 0")
    case True
    have "n = nat (10 - (i + 1))" "0 \<le> i + 1" "i + 1 \<le> 10" using Suc.hyps(2) i by simp_all
    from Suc.hyps(1) [OF this] obtain p where
      "find_from s z (s0 + 4 * (i + 1)) = Some p" "best_fit z {b \<in> F. i + 1 \<le> category (snd b)} p"
      by auto
    moreover have "best_fit z {b \<in> F. i \<le> category (snd b)} p"
      unfolding union using best True calculation(2) by (intro best_fit_skip) simp_all
    ultimately show ?thesis using True unfold by simp
  next
    case False
    have "x \<le> y" if "i + 1 \<le> category y" "category x = i" for x y
      using category_mono [of y x] that by (cases "x \<le> y") auto
    then have "best_fit z {b \<in> F. i \<le> category (snd b)} ?p"
      unfolding union using best False by (intro best_fit_union) (auto simp: in_class_def)
    with False unfold show ?thesis by simp
  qed
qed

lemma find_fit_best:
  assumes "free_lists (words s) (block_list_start s) F" "free_ok (words s) (block_list_start s) F"
    and "heap_listp s = block_list_start s + 48"
  shows "\<exists>p. find_fit z s = Some p \<and> best_fit z F p"
proof -
  have c: "0 \<le> category z" "category z \<le> 10" using category_range [of z] by simp_all
  from find_from_best [OF assms c, of z] obtain p where
    p: "find_fit z s = Some p" "best_fit z {b \<in> F. category z \<le> category (snd b)} p"
    by (auto simp: find_fit_def get_freeCategory_root_def WSIZE_def mult.commute)
  have union: "F = {b \<in> F. category (snd b) < category z} \<union> {b \<in> F. category z \<le> category (snd b)}"
    by auto
  have "y < z" if "category y < category z" for y
    using category_mono [of z y] that by (cases "z \<le> y") auto
  then have "best_fit z F p"
    by (subst union) (rule best_fit_extend [OF p(2)], auto)
  with p(1) show ?thesis by blast
qed

end
