(* ===== verification/Blocks.thy ===== *)
theory Blocks
  imports FreeList
begin

text \<open>
  The layout of the heap: a sequence of boundary-tagged blocks between the prologue and the
  epilogue. \<open>bs\<close> lists the blocks (size, allocated) in address order; \<open>blocks a bs\<close> gives them
  their payload addresses from \<open>a\<close> on. \<open>heap_shape s bs F\<close> says that memory holds the layout
  \<open>bs\<close> and that the free lists hold \<open>F\<close>; \<open>heap_inv s bs\<close>, the allocator's invariant, adds that
  \<open>F\<close> is exactly the set of free blocks and that no two free blocks are neighbours.
\<close>

type_synonym blk = "int \<times> bool"

subsection \<open>Blocks and their addresses\<close>

fun blocks :: "addr \<Rightarrow> blk list \<Rightarrow> (addr \<times> blk) list" where
  "blocks a [] = []"
| "blocks a ((z, al) # bs) = (a, z, al) # blocks (a + z) bs"

definition extent :: "blk list \<Rightarrow> int" where
  "extent bs = sum_list (map fst bs)"

definition frees :: "addr \<Rightarrow> blk list \<Rightarrow> (addr \<times> int) set" where
  "frees a bs = {(p, z). (p, z, False) \<in> set (blocks a bs)}"

definition allocs :: "addr \<Rightarrow> blk list \<Rightarrow> (addr \<times> int) set" where
  "allocs a bs = {(p, z). (p, z, True) \<in> set (blocks a bs)}"

definition sizes_ok :: "blk list \<Rightarrow> bool" where
  "sizes_ok bs \<longleftrightarrow> (\<forall>b \<in> set bs. 8 dvd fst b \<and> 16 \<le> fst b)"

definition no_adjacent :: "blk list \<Rightarrow> bool" where
  "no_adjacent bs \<longleftrightarrow> successively (\<lambda>b c. snd b \<or> snd c) bs"

lemma extent_simps [simp]:
  "extent [] = 0" "extent (b # bs) = fst b + extent bs" "extent (bs @ cs) = extent bs + extent cs"
  by (simp_all add: extent_def)

lemma sizes_ok_simps [simp]:
  "sizes_ok []" "sizes_ok (b # bs) \<longleftrightarrow> 8 dvd fst b \<and> 16 \<le> fst b \<and> sizes_ok bs"
  "sizes_ok (bs @ cs) \<longleftrightarrow> sizes_ok bs \<and> sizes_ok cs"
  by (auto simp: sizes_ok_def)

lemma extent_nonneg: "sizes_ok bs \<Longrightarrow> 0 \<le> extent bs"
  by (induction bs) auto

lemma extent_dvd: "sizes_ok bs \<Longrightarrow> 8 dvd extent bs"
  by (induction bs) auto

lemma blocks_append: "blocks a (bs @ cs) = blocks a bs @ blocks (a + extent bs) cs"
  by (induction bs arbitrary: a) (auto simp: add.assoc)

lemma frees_simps [simp]:
  "frees a [] = {}" "frees a ((z, True) # bs) = frees (a + z) bs"
  "frees a ((z, False) # bs) = insert (a, z) (frees (a + z) bs)"
  "frees a (bs @ cs) = frees a bs \<union> frees (a + extent bs) cs"
  by (auto simp: frees_def blocks_append)

lemma allocs_simps [simp]:
  "allocs a [] = {}" "allocs a ((z, False) # bs) = allocs (a + z) bs"
  "allocs a ((z, True) # bs) = insert (a, z) (allocs (a + z) bs)"
  "allocs a (bs @ cs) = allocs a bs \<union> allocs (a + extent bs) cs"
  by (auto simp: allocs_def blocks_append)

lemma blocks_bounds:
  assumes "sizes_ok bs" "(p, z, al) \<in> set (blocks a bs)"
  shows "a \<le> p" "p + z \<le> a + extent bs" "16 \<le> z" "8 dvd z" "8 dvd a \<Longrightarrow> 8 dvd p"
  using assms by (induction a bs rule: blocks.induct) (auto dest: extent_nonneg)

lemma frees_bounds:
  assumes "sizes_ok bs" "(p, z) \<in> frees a bs"
  shows "a \<le> p" "p + z \<le> a + extent bs" "16 \<le> z" "8 dvd z" "8 dvd a \<Longrightarrow> 8 dvd p"
  using assms blocks_bounds by (auto simp: frees_def)

lemma allocs_bounds:
  assumes "sizes_ok bs" "(p, z) \<in> allocs a bs"
  shows "a \<le> p" "p + z \<le> a + extent bs" "16 \<le> z" "8 dvd z" "8 dvd a \<Longrightarrow> 8 dvd p"
  using assms blocks_bounds by (auto simp: allocs_def)

lemma blocks_disjoint:
  assumes "sizes_ok bs" "(p, z, al) \<in> set (blocks a bs)" "(q, y, be) \<in> set (blocks a bs)"
  shows "(p, z, al) = (q, y, be) \<or> p + z \<le> q \<or> q + y \<le> p"
  using assms
proof (induction a bs rule: blocks.induct)
  case (2 a x c bs)
  then show ?case using blocks_bounds(1) [of bs _ _ _ "a + x"] by fastforce
qed simp

text \<open>A block of the layout splits it in three.\<close>

lemma blocks_split:
  assumes "(p, z, al) \<in> set (blocks a bs)"
  obtains L R where "bs = L @ (z, al) # R" "p = a + extent L"
  using assms
proof (induction a bs arbitrary: thesis rule: blocks.induct)
  case (2 a x c bs)
  show ?case
  proof (cases "(p, z, al) = (a, x, c)")
    case True
    then show ?thesis using 2(2) [of "[]" bs] by simp
  next
    case False
    with 2(3) have "(p, z, al) \<in> set (blocks (a + x) bs)" by auto
    from 2(1) [OF _ this] obtain L R where "bs = L @ (z, al) # R" "p = a + x + extent L" by metis
    then show ?thesis using 2(2) [of "(x, c) # L" R] by simp
  qed
qed simp

lemma no_adjacent_simps [simp]:
  "no_adjacent []" "no_adjacent [b]"
  "no_adjacent (b # c # bs) \<longleftrightarrow> (snd b \<or> snd c) \<and> no_adjacent (c # bs)"
  by (simp_all add: no_adjacent_def)

lemma no_adjacent_append:
  "no_adjacent (bs @ cs) \<longleftrightarrow> no_adjacent bs \<and> no_adjacent cs \<and>
    (bs = [] \<or> cs = [] \<or> snd (last bs) \<or> snd (hd cs))"
  by (simp add: no_adjacent_def successively_append_iff)

lemma no_adjacent_Cons:
  "no_adjacent (b # cs) \<longleftrightarrow> no_adjacent cs \<and> (cs = [] \<or> snd b \<or> snd (hd cs))"
  by (cases cs) auto

subsection \<open>Tags\<close>

definition tag_of :: "int \<Rightarrow> bool \<Rightarrow> int" where
  "tag_of z al = z + of_bool al"

definition tagged :: "(int \<Rightarrow> int) \<Rightarrow> addr \<Rightarrow> blk list \<Rightarrow> bool" where
  "tagged w a bs \<longleftrightarrow> (\<forall>(p, z, al) \<in> set (blocks a bs). w (p - 4) = tag_of z al \<and> w (p + z - 8) = tag_of z al)"

lemma tagged_simps [simp]:
  "tagged w a []"
  "tagged w a ((z, al) # bs) \<longleftrightarrow>
     w (a - 4) = tag_of z al \<and> w (a + z - 8) = tag_of z al \<and> tagged w (a + z) bs"
  "tagged w a (bs @ cs) \<longleftrightarrow> tagged w a bs \<and> tagged w (a + extent bs) cs"
  by (simp_all add: tagged_def blocks_append ball_Un conj_ac)

lemma tag_of_size [simp]: "8 dvd z \<Longrightarrow> tag_size (tag_of z al) = z"
  by (cases al) (auto simp: tag_of_def tag_size_def elim!: dvdE)

lemma tag_of_alloc [simp]: "8 dvd z \<Longrightarrow> tag_of z al mod 2 = of_bool al"
  using dvd8_even [of z] by (cases al) (auto simp: tag_of_def mod2_eq_if)

lemma PACK_tag: "8 dvd z \<Longrightarrow> PACK z 0 = tag_of z False" "8 dvd z \<Longrightarrow> PACK z 1 = tag_of z True"
  using or_1_even [OF dvd8_even] by (simp_all add: PACK_def tag_of_def)

text \<open>The words that hold tags. Tags are in the words at 4 modulo 8, free-block links and the roots
  are not tags.\<close>

definition tag_words :: "addr \<Rightarrow> blk list \<Rightarrow> int set" where
  "tag_words a bs = (\<lambda>(p, z, al). p - 4) ` set (blocks a bs) \<union> (\<lambda>(p, z, al). p + z - 8) ` set (blocks a bs)"

lemma tagged_frame:
  assumes "tagged w a bs" "\<And>q. q \<in> tag_words a bs \<Longrightarrow> w' q = w q"
  shows "tagged w' a bs"
  unfolding tagged_def
proof clarify
  fix p z al assume b: "(p, z, al) \<in> set (blocks a bs)"
  then have "p - 4 \<in> tag_words a bs" "p + z - 8 \<in> tag_words a bs"
    by (force simp: tag_words_def)+
  with assms(2) have "w' (p - 4) = w (p - 4)" "w' (p + z - 8) = w (p + z - 8)" by auto
  with assms(1) b show "w' (p - 4) = tag_of z al \<and> w' (p + z - 8) = tag_of z al"
    by (auto simp: tagged_def)
qed

lemma tag_words_cases:
  assumes "q \<in> tag_words a bs"
  obtains p z al where "(p, z, al) \<in> set (blocks a bs)" "q = p - 4 \<or> q = p + z - 8"
  using assms by (auto simp: tag_words_def)

lemma tag_words_range:
  assumes "sizes_ok bs" "q \<in> tag_words a bs"
  shows "a - 4 \<le> q \<and> q \<le> a + extent bs - 8"
proof -
  obtain p z al where "(p, z, al) \<in> set (blocks a bs)" "q = p - 4 \<or> q = p + z - 8"
    using assms(2) by (rule tag_words_cases)
  with blocks_bounds(1-3) [OF assms(1) this(1)] show ?thesis by auto
qed

lemma tag_words_not_links:
  assumes ok: "sizes_ok bs" and q: "q \<in> tag_words a bs" and F: "F \<subseteq> frees a bs" and s0: "s0 + 56 = a"
  shows "q \<notin> link_words s0 F"
proof
  assume "q \<in> link_words s0 F"
  then consider "q < a - 16" | p z where "(p, z, False) \<in> set (blocks a bs)" "q = p \<or> q = p + 4"
    using F s0 by (force simp: link_words_def frees_def)
  then show False
  proof cases
    case 1
    with tag_words_range [OF ok q] show False by simp
  next
    case (2 p z)
    from q obtain p' z' al' where t: "(p', z', al') \<in> set (blocks a bs)" "q = p' - 4 \<or> q = p' + z' - 8"
      by (rule tag_words_cases)
    from blocks_disjoint [OF ok 2(1) t(1)] 2 t blocks_bounds [OF ok 2(1)] blocks_bounds [OF ok t(1)]
    show False by auto
  qed
qed

end
