(* ===== verification/HeapInv.thy ===== *)
theory HeapInv
  imports Blocks
begin

text \<open>
  The allocator's invariant and its building blocks: what removing from and inserting into a free
  list, and rewriting the tags of a stretch of blocks, do to a heap with the layout \<open>bs\<close>. Then
  the three internal steps of the allocator on the layout: \<open>coalesce\<close> merges a new free block
  with its free neighbours, \<open>extend_heap\<close> appends one, \<open>place\<close> allocates the front of one.
\<close>

abbreviation first_block :: "mm \<Rightarrow> addr" where
  "first_block s \<equiv> block_list_start s + 56"

definition heap_shape :: "mm \<Rightarrow> blk list \<Rightarrow> (addr \<times> int) set \<Rightarrow> bool" where
  "heap_shape s bs F \<longleftrightarrow>
     8 dvd block_list_start s \<and> 0 < block_list_start s \<and> mem_start_brk s = block_list_start s \<and>
     heap_listp s = block_list_start s + 48 \<and>
     words s (block_list_start s + 44) = 9 \<and> words s (block_list_start s + 48) = 9 \<and>
     sizes_ok bs \<and> tagged (words s) (first_block s) bs \<and>
     mem_brk s = first_block s + extent bs \<and> words s (mem_brk s - 4) = 1 \<and>
     mem_brk s \<le> mem_max_addr s \<and> mem_max_addr s < 4294967296 \<and>
     free_lists (words s) (block_list_start s) F \<and> F \<subseteq> frees (first_block s) bs"

definition heap_inv :: "mm \<Rightarrow> blk list \<Rightarrow> bool" where
  "heap_inv s bs \<longleftrightarrow> heap_shape s bs (frees (first_block s) bs) \<and> no_adjacent bs"

text \<open>The payload words of the blocks \<open>A\<close> are the same in both states.\<close>

definition keeps :: "(addr \<times> int) set \<Rightarrow> mm \<Rightarrow> mm \<Rightarrow> bool" where
  "keeps A s s' \<longleftrightarrow> (\<forall>(p, z) \<in> A. \<forall>q. p \<le> q \<and> q < p + z - 8 \<longrightarrow> words s' q = words s q)"

lemma keeps_refl [simp]: "keeps A s s"
  by (simp add: keeps_def)

lemma keeps_trans: "keeps A s t \<Longrightarrow> keeps A t u \<Longrightarrow> keeps A s u"
  by (fastforce simp: keeps_def)

lemma keeps_mono: "keeps A s t \<Longrightarrow> B \<subseteq> A \<Longrightarrow> keeps B s t"
  by (auto simp: keeps_def)

lemma same_fieldsD:
  assumes "same_fields s s'"
  shows "mem_start_brk s' = mem_start_brk s" "mem_brk s' = mem_brk s" "mem_max_addr s' = mem_max_addr s"
    "heap_listp s' = heap_listp s" "block_list_start s' = block_list_start s"
    "gl_ranges s' = gl_ranges s" "ranges s' = ranges s"
  using assms by (simp_all add: same_fields_def)

lemma heap_shapeD:
  assumes "heap_shape s bs F"
  shows "8 dvd block_list_start s" "0 < block_list_start s" "mem_start_brk s = block_list_start s"
    "heap_listp s = block_list_start s + 48" "words s (block_list_start s + 44) = 9"
    "words s (block_list_start s + 48) = 9" "sizes_ok bs" "tagged (words s) (first_block s) bs"
    "mem_brk s = first_block s + extent bs" "words s (mem_brk s - 4) = 1"
    "mem_brk s \<le> mem_max_addr s" "mem_max_addr s < 4294967296"
    "free_lists (words s) (block_list_start s) F" "F \<subseteq> frees (first_block s) bs"
  using assms unfolding heap_shape_def by blast+

lemma frees_tagged:
  assumes "tagged w a bs" "sizes_ok bs" "(p, z) \<in> frees a bs"
  shows "w (p - 4) = z" "w (p + z - 8) = z"
  using assms by (force simp: tagged_def frees_def tag_of_def)+

lemma shape_free_ok:
  assumes "heap_shape s bs F" "G \<subseteq> frees (first_block s) bs"
  shows "free_ok (words s) (block_list_start s) G"
proof -
  note D = heap_shapeD [OF assms(1)]
  have "8 dvd p \<and> block_list_start s + 56 \<le> p \<and> p < 4294967296 \<and> tag_size (words s (p - 4)) = z"
    if "(p, z) \<in> G" for p z
  proof -
    from that assms(2) have f: "(p, z) \<in> frees (first_block s) bs" by auto
    from frees_tagged [OF D(8,7) f] frees_bounds [OF D(7) f] D(1,9,11,12)
    show ?thesis by (auto simp: tag_size_def)
  qed
  with D(1,2) show ?thesis by (auto simp: free_ok_def)
qed

subsection \<open>Changing the lists, changing the tags\<close>

text \<open>A change of links only keeps the layout.\<close>

lemma shape_relink:
  assumes sh: "heap_shape s bs F" and sf: "same_fields s s'" and G: "G \<subseteq> frees (first_block s) bs"
    and frame: "\<And>q. q \<notin> link_words (block_list_start s) G \<Longrightarrow> words s' q = words s q"
    and new: "free_lists (words s') (block_list_start s) F'" "F' \<subseteq> frees (first_block s) bs"
  shows "heap_shape s' bs F'" "keeps (allocs (first_block s) bs) s s'"
proof -
  note D = heap_shapeD [OF sh] and S = same_fieldsD [OF sf]
  note ok = shape_free_ok [OF sh G]
  have high: "q \<notin> link_words (block_list_start s) G"
    if "block_list_start s + 40 \<le> q" "q < first_block s" for q
    using that free_okD(2) [OF ok] by (fastforce simp: link_words_def)
  have epi: "mem_brk s - 4 \<notin> link_words (block_list_start s) G"
  proof -
    have "p + 4 < mem_brk s - 4 \<and> p < mem_brk s - 4" if "(p, z) \<in> G" for p z
    proof -
      from that G have "(p, z) \<in> frees (first_block s) bs" by auto
      from frees_bounds [OF D(7) this] D(9) show ?thesis by simp
    qed
    then show ?thesis using D(9) extent_nonneg [OF D(7)] by (force simp: link_words_def)
  qed
  have "tagged (words s') (first_block s) bs"
    by (rule tagged_frame [OF D(8)]) (intro frame tag_words_not_links [OF D(7) _ G], auto)
  moreover have "words s' (mem_brk s - 4) = 1" "words s' (block_list_start s + 44) = 9"
    "words s' (block_list_start s + 48) = 9"
    using D(5,6,10) frame [OF epi] frame [OF high] by simp_all
  ultimately show "heap_shape s' bs F'"
    using D(1-7,9,11,12) S new unfolding heap_shape_def by simp
  show "keeps (allocs (first_block s) bs) s s'"
    unfolding keeps_def
  proof clarify
    fix p z q assume pz: "(p, z) \<in> allocs (first_block s) bs" and q: "p \<le> q" "q < p + z - 8"
    note b = allocs_bounds [OF D(7) pz]
    have "q \<notin> link_words (block_list_start s) G"
    proof
      assume "q \<in> link_words (block_list_start s) G"
      with b q obtain p' z' where f: "(p', z') \<in> G" "q = p' \<or> q = p' + 4"
        by (auto simp: link_words_def)
      with G have f': "(p', z', False) \<in> set (blocks (first_block s) bs)" by (auto simp: frees_def)
      from pz have "(p, z, True) \<in> set (blocks (first_block s) bs)" by (auto simp: allocs_def)
      from blocks_disjoint [OF D(7) this f'] blocks_bounds [OF D(7) f'] f(2) q show False by auto
    qed
    then show "words s' q = words s q" by (rule frame)
  qed
qed

lemma shape_remove:
  assumes "heap_shape s bs F" "(p, z) \<in> F"
  shows "heap_shape (remove_free_block p s) bs (F - {(p, z)})"
    "keeps (allocs (first_block s) bs) s (remove_free_block p s)" "same_fields s (remove_free_block p s)"
proof -
  note D = heap_shapeD [OF assms(1)]
  note R = remove_free_block_lists [OF D(13) shape_free_ok [OF assms(1) D(14)] assms(2)]
  show "same_fields s (remove_free_block p s)" by (rule R(3))
  have "F - {(p, z)} \<subseteq> frees (first_block s) bs" using D(14) by auto
  from shape_relink [OF assms(1) R(3) D(14) R(2) R(1) this]
  show "heap_shape (remove_free_block p s) bs (F - {(p, z)})"
    "keeps (allocs (first_block s) bs) s (remove_free_block p s)" by simp_all
qed

lemma shape_insert:
  assumes sh: "heap_shape s bs F" and p: "(p, z) \<in> frees (first_block s) bs" "(p, z) \<notin> F"
  shows "\<exists>s'. insert_free_block p s = Some s' \<and> heap_shape s' bs (insert (p, z) F) \<and>
    keeps (allocs (first_block s) bs) s s' \<and> same_fields s s' \<and>
    (\<forall>q. q \<notin> link_words (block_list_start s) (insert (p, z) F) \<longrightarrow> words s' q = words s q)"
proof -
  note D = heap_shapeD [OF sh]
  have sub: "insert (p, z) F \<subseteq> frees (first_block s) bs" using D(14) p by auto
  from insert_free_block_lists [OF D(13) shape_free_ok [OF sh sub] p(2)] obtain s' where
    s': "insert_free_block p s = Some s'" "same_fields s s'"
      "free_lists (words s') (block_list_start s) (insert (p, z) F)" and
    frame: "\<And>q. q \<notin> link_words (block_list_start s) (insert (p, z) F) \<Longrightarrow> words s' q = words s q"
    by blast
  from shape_relink [OF sh s'(2) sub frame s'(3) sub] s' frame show ?thesis by blast
qed

text \<open>A stretch \<open>M\<close> of the layout is re-cut into the blocks \<open>M'\<close>.\<close>

lemma shape_recut:
  assumes sh: "heap_shape s (L @ M @ R) F" and sf: "same_fields s s'"
    and F: "F \<subseteq> frees (first_block s) L \<union> frees (first_block s + extent L + extent M) R"
    and M': "sizes_ok M'" "extent M' = extent M" "tagged (words s') (first_block s + extent L) M'"
    and frame: "\<And>q. q < first_block s + extent L - 4 \<or> first_block s + extent L + extent M - 4 \<le> q \<Longrightarrow>
        words s' q = words s q"
  shows "heap_shape s' (L @ M' @ R) F"
    "keeps (allocs (first_block s) L \<union> allocs (first_block s + extent L + extent M) R) s s'"
proof -
  note D = heap_shapeD [OF sh] and S = same_fieldsD [OF sf]
  let ?a = "first_block s"
  let ?p = "?a + extent L"
  let ?q = "?p + extent M"
  have ok: "sizes_ok L" "sizes_ok M" "sizes_ok R" using D(7) by simp_all
  note nn = extent_nonneg [OF ok(1)] extent_nonneg [OF ok(2)] extent_nonneg [OF ok(3)]
  have tL: "tagged (words s') ?a L"
  proof (rule tagged_frame)
    show "tagged (words s) ?a L" using D(8) by simp
    show "q \<in> tag_words ?a L \<Longrightarrow> words s' q = words s q" for q
      using tag_words_range [OF ok(1)] by (intro frame) fastforce
  qed
  have tR: "tagged (words s') ?q R"
  proof (rule tagged_frame)
    show "tagged (words s) ?q R" using D(8) by (simp add: add.assoc)
    show "q \<in> tag_words ?q R \<Longrightarrow> words s' q = words s q" for q
      using tag_words_range [OF ok(3)] by (intro frame) fastforce
  qed
  have lists: "free_lists (words s') (block_list_start s) F"
  proof (rule free_lists_frame [OF D(13)])
    fix q assume "q \<in> link_words (block_list_start s) F"
    then consider "q < block_list_start s + 40"
      | p z where "(p, z) \<in> frees ?a L \<or> (p, z) \<in> frees ?q R" "q = p \<or> q = p + 4"
      using F by (fastforce simp: link_words_def)
    then show "words s' q = words s q"
    proof cases
      case 1
      then show ?thesis using nn by (intro frame) auto
    next
      case (2 p z)
      then show ?thesis using frees_bounds [OF ok(1), of p z] frees_bounds [OF ok(3), of p z]
        by (intro frame) fastforce
    qed
  qed
  have "F \<subseteq> frees ?a (L @ M' @ R)" using F M'(2) by (auto simp: add.assoc)
  moreover have "words s' (block_list_start s + 44) = 9" "words s' (block_list_start s + 48) = 9"
    "words s' (mem_brk s - 4) = 1"
    using D(5,6,9,10) nn by (simp_all add: frame)
  ultimately show "heap_shape s' (L @ M' @ R) F"
    using D S ok M' tL tR lists by (simp add: heap_shape_def add.assoc)
  show "keeps (allocs ?a L \<union> allocs ?q R) s s'"
    unfolding keeps_def
  proof clarify
    fix p z q assume "(p, z) \<in> allocs ?a L \<union> allocs ?q R" "p \<le> q" "q < p + z - 8"
    then show "words s' q = words s q"
      using allocs_bounds [OF ok(1), of p z] allocs_bounds [OF ok(3), of p z]
      by (intro frame) fastforce
  qed
qed

subsection \<open>Coalescing\<close>

text \<open>The abstract step: a free block of size \<open>z\<close> between the layouts \<open>L\<close> and \<open>R\<close> takes over a
  free last block of \<open>L\<close> and a free first block of \<open>R\<close>.\<close>

definition merge_left :: "blk list \<Rightarrow> int \<Rightarrow> blk list \<times> int" where
  "merge_left L z = (if L = [] \<or> snd (last L) then (L, z) else (butlast L, fst (last L) + z))"

fun merge_right :: "int \<Rightarrow> blk list \<Rightarrow> int \<times> blk list" where
  "merge_right z ((y, False) # R) = (z + y, R)"
| "merge_right z R = (z, R)"

definition abs_coalesce :: "blk list \<Rightarrow> int \<Rightarrow> blk list \<Rightarrow> blk list" where
  "abs_coalesce L z R =
     (let (L', z1) = merge_left L z; (z2, R') = merge_right z1 R in L' @ (z2, False) # R')"

lemma coalesce_finish:
  assumes sh: "heap_shape s (L @ M @ R) (frees (first_block s) L \<union> frees (first_block s + extent L + extent M) R)"
    and M: "M \<noteq> []" and adj: "no_adjacent L" "no_adjacent R" "L = [] \<or> snd (last L)" "R = [] \<or> snd (hd R)"
    and p: "p = first_block s + extent L"
    and w: "words s1 = (words s)(p - 4 := extent M, p + extent M - 8 := extent M)" and sf: "same_fields s s1"
  shows "\<exists>s2. insert_free_block p s1 = Some s2 \<and> heap_inv s2 (L @ (extent M, False) # R) \<and> same_fields s s2 \<and>
    keeps (allocs (first_block s) L \<union> allocs (p + extent M) R) s s2 \<and>
    (\<forall>q. p + 8 \<le> q \<and> q < p + extent M - 8 \<longrightarrow> words s2 q = words s q)"
proof -
  let ?Z = "extent M" and ?a = "first_block s"
  let ?F = "frees ?a L \<union> frees (?a + extent L + extent M) R"
  note D = heap_shapeD [OF sh] and S = same_fieldsD [OF sf]
  have ok: "sizes_ok L" "sizes_ok M" "sizes_ok R" using D(7) by simp_all
  have Z: "8 dvd ?Z" "16 \<le> ?Z"
    using M ok(2) extent_dvd extent_nonneg by (cases M; force)+
  have tg: "tag_of ?Z False = ?Z" by (simp add: tag_of_def)
  have F: "?F \<subseteq> ?F" ..
  have M': "sizes_ok [(?Z, False)]" "extent [(?Z, False)] = ?Z" using Z by simp_all
  have t: "tagged (words s1) (?a + extent L) [(?Z, False)]" using Z by (simp add: w p tg)
  have frame: "words s1 q = words s q" if "q < ?a + extent L - 4 \<or> ?a + extent L + extent M - 4 \<le> q" for q
    using that Z by (auto simp: w p)
  note s1 = shape_recut [OF sh sf F M' t frame]
  have "(p, ?Z) \<in> frees (first_block s1) (L @ [(?Z, False)] @ R)" using S by (simp add: p)
  moreover have "(p, ?Z) \<notin> ?F" using frees_bounds [OF ok(1), of p ?Z ?a] frees_bounds(1) [OF ok(3), of p ?Z "?a + extent L + extent M"] Z by (auto simp: p)
  ultimately obtain s2 where s2: "insert_free_block p s1 = Some s2"
    "heap_shape s2 (L @ [(?Z, False)] @ R) (insert (p, ?Z) ?F)"
    "keeps (allocs (first_block s1) (L @ [(?Z, False)] @ R)) s1 s2" "same_fields s1 s2" and
    frame2: "\<And>q. q \<notin> link_words (block_list_start s1) (insert (p, ?Z) ?F) \<Longrightarrow> words s2 q = words s1 q"
    using shape_insert [OF s1(1)] by blast
  have a: "first_block s1 = ?a" "first_block s2 = ?a" using S same_fieldsD [OF s2(4)] by simp_all
  have "insert (p, ?Z) ?F = frees (first_block s2) (L @ (?Z, False) # R)"
    unfolding a by (auto simp: p add.assoc)
  moreover have "no_adjacent (L @ (?Z, False) # R)"
    using adj by (auto simp: no_adjacent_append no_adjacent_Cons)
  ultimately have "heap_inv s2 (L @ (?Z, False) # R)" using s2(2) by (simp add: heap_inv_def)
  moreover have "keeps (allocs ?a L \<union> allocs (p + extent M) R) s s2"
    by (rule keeps_trans [OF s1(2) [folded p] keeps_mono [OF s2(3)]]) (auto simp: a p add.assoc)
  moreover have "words s2 q = words s q" if q: "p + 8 \<le> q" "q < p + extent M - 8" for q
  proof -
    have "q \<noteq> y \<and> q \<noteq> y + 4" if "(y, v) \<in> ?F" for y v
      using that q Z frees_bounds [OF ok(1), of y v] frees_bounds(1) [OF ok(3), of y v] by (fastforce simp: p)
    moreover have "\<not> q < block_list_start s1 + 40" using q S extent_nonneg [OF ok(1)] by (simp add: p)
    ultimately have "q \<notin> link_words (block_list_start s1) (insert (p, ?Z) ?F)"
      using q by (force simp: link_words_def)
    with q show ?thesis by (simp add: frame2 w)
  qed
  ultimately show ?thesis using s2(1) same_fields_trans [OF sf s2(4)] by blast
qed

text \<open>What the tag reads of \<open>coalesce\<close> see: its block at \<open>p\<close>, the block in front of it (the
  prologue when \<open>L\<close> is empty), the one behind it (the epilogue when \<open>R\<close> is empty).\<close>

definition last_tag :: "blk list \<Rightarrow> int" where
  "last_tag L = (if L = [] then 9 else tag_of (fst (last L)) (snd (last L)))"

definition head_tag :: "blk list \<Rightarrow> int" where
  "head_tag R = (case R of [] \<Rightarrow> 1 | (z, al) # _ \<Rightarrow> tag_of z al)"

lemma seam_reads:
  assumes sh: "heap_shape s (L @ (z, al) # R) F" and p: "p = first_block s + extent L"
  shows "words s (p - 8) = last_tag L" "words s (p - tag_size (last_tag L) - 4) = last_tag L"
    "words s (p - 4) = tag_of z al" "words s (p + z - 8) = tag_of z al" "words s (p + z - 4) = head_tag R"
    "R \<noteq> [] \<Longrightarrow> words s (p + z + tag_size (head_tag R) - 8) = head_tag R"
proof -
  note D = heap_shapeD [OF sh]
  show "words s (p - 4) = tag_of z al" "words s (p + z - 8) = tag_of z al"
    using D(8) by (simp_all add: p)
  have "words s (p - 8) = last_tag L \<and> words s (p - tag_size (last_tag L) - 4) = last_tag L"
  proof (cases L rule: rev_cases)
    case Nil
    then show ?thesis
      using D(5,6) by (simp_all add: p last_tag_def tag_size_def add.commute)
  next
    case (snoc L' b)
    with D(7,8) show ?thesis
      by (cases b) (simp add: p last_tag_def add.assoc)
  qed
  then show "words s (p - 8) = last_tag L" "words s (p - tag_size (last_tag L) - 4) = last_tag L"
    by simp_all
  show "words s (p + z - 4) = head_tag R"
    using D(8,9,10) by (cases R) (auto simp: p head_tag_def add.assoc)
  show "R \<noteq> [] \<Longrightarrow> words s (p + z + tag_size (head_tag R) - 8) = head_tag R"
    using D(7,8) by (cases R) (auto simp: p head_tag_def add.assoc)
qed

lemma last_tag_alloc: "sizes_ok L \<Longrightarrow> last_tag L mod 2 = of_bool (L = [] \<or> snd (last L))"
  by (auto simp: last_tag_def sizes_ok_def)

lemma head_tag_alloc: "sizes_ok R \<Longrightarrow> head_tag R mod 2 = of_bool (R = [] \<or> snd (hd R))"
  by (cases R) (auto simp: head_tag_def)

definition pending :: "mm \<Rightarrow> blk list \<Rightarrow> int \<Rightarrow> blk list \<Rightarrow> bool" where
  "pending s L z R \<longleftrightarrow>
     heap_shape s (L @ (z, False) # R) (frees (first_block s) L \<union> frees (first_block s + extent L + z) R) \<and>
     no_adjacent L \<and> no_adjacent R"

lemma of_bool_eq_zero: "(of_bool b = (0 :: int)) = (\<not> b)"
  by simp

text \<open>The words a lookup around \<open>p\<close> goes through are aligned.\<close>

lemma around_dvd4:
  assumes "8 dvd p" "8 dvd z"
  shows "4 dvd p - 4" "4 dvd p - (8 :: int)" "4 dvd p + z - 8" "4 dvd p + z - 4" "4 dvd p - z - 4"
    "4 dvd p + z"
  using assms by presburger+

lemma frees_outside:
  assumes "sizes_ok bs" "p < a \<or> a + extent bs \<le> p"
  shows "(p, z) \<notin> frees a bs"
  using frees_bounds(1-3) [OF assms(1), of p z a] assms(2) by auto

lemma coalesce_reads:
  assumes sh: "heap_shape s (L @ (z, False) # R) F" and p: "p = first_block s + extent L"
  shows "GET_ALLOC s (FTRP s (PREV_BLKP s p)) = of_bool (L = [] \<or> snd (last L))"
    "GET_ALLOC s (HDRP (NEXT_BLKP s p)) = of_bool (R = [] \<or> snd (hd R))"
    "GET_SIZE s (HDRP p) = z" "NEXT_BLKP s p = p + z" "PREV_BLKP s p = p - tag_size (last_tag L)"
proof -
  note D = heap_shapeD [OF sh] and S = seam_reads [OF sh p]
  have ok: "sizes_ok L" "8 dvd z" "sizes_ok R" using D(7) by auto
  have al: "8 dvd p" "8 dvd tag_size (last_tag L)"
    using D(1) extent_dvd [OF ok(1)] by (simp_all add: p tag_size_def)
  note four = around_dvd4 [OF al(1) ok(2)] around_dvd4 [OF al]
  show size: "GET_SIZE s (HDRP p) = z"
    using S(3) ok(2) four by (simp add: HDRP_def WSIZE_def GET_SIZE_words)
  then show nxt: "NEXT_BLKP s p = p + z" by (simp add: NEXT_BLKP_def HDRP_def)
  show "GET_ALLOC s (HDRP (NEXT_BLKP s p)) = of_bool (R = [] \<or> snd (hd R))"
    using S(5) four head_tag_alloc [OF ok(3)] by (simp add: nxt HDRP_def WSIZE_def GET_ALLOC_words)
  show prev: "PREV_BLKP s p = p - tag_size (last_tag L)"
    using S(1) four by (simp add: PREV_BLKP_def DSIZE_def GET_SIZE_words)
  have "FTRP s (PREV_BLKP s p) = p - 8"
    using S(2) four by (simp add: prev FTRP_def HDRP_def WSIZE_def DSIZE_def GET_SIZE_words)
  then show "GET_ALLOC s (FTRP s (PREV_BLKP s p)) = of_bool (L = [] \<or> snd (last L))"
    using S(1) four last_tag_alloc [OF ok(1)] by (simp add: GET_ALLOC_words)
qed

lemma PACK_0 [simp]: "PACK z 0 = z"
  by (simp add: PACK_def)

lemma tag_of_False [simp]: "tag_of z False = z"
  by (simp add: tag_of_def)

lemma tag_size_id [simp]: "8 dvd z \<Longrightarrow> tag_size z = z"
  by (simp add: tag_size_def)

lemma words_u32: "0 \<le> v \<Longrightarrow> v < 4294967296 \<Longrightarrow> 4 dvd p \<Longrightarrow> words (PUT p v s) = (words s)(p := v)"
  by (simp add: words_PUT)

text \<open>The four cases of the code.\<close>

lemma coalesce_alone:
  assumes P: "pending s L z R" and p: "p = first_block s + extent L"
    and A: "L = [] \<or> snd (last L)" "R = [] \<or> snd (hd R)"
  shows "\<exists>s'. coalesce p s = Some (p, s') \<and> heap_inv s' (L @ (z, False) # R) \<and> same_fields s s' \<and>
    keeps (allocs (first_block s) L \<union> allocs (p + z) R) s s'"
proof -
  have sh: "heap_shape s (L @ [(z, False)] @ R)
      (frees (first_block s) L \<union> frees (first_block s + extent L + extent [(z, False)]) R)"
    and adj: "no_adjacent L" "no_adjacent R" using P by (simp_all add: pending_def)
  have sh': "heap_shape s (L @ (z, False) # R) (frees (first_block s) L \<union> frees (first_block s + extent L + z) R)"
    using P by (simp add: pending_def)
  note R = coalesce_reads [OF sh' p]
  have "words s = (words s)(p - 4 := extent [(z, False)], p + extent [(z, False)] - 8 := extent [(z, False)])"
    using seam_reads(3,4) [OF sh' p] by (auto simp: fun_eq_iff)
  from coalesce_finish [OF sh _ adj A p this] obtain s' where
    "insert_free_block p s = Some s'" "heap_inv s' (L @ (z, False) # R)" "same_fields s s'"
    "keeps (allocs (first_block s) L \<union> allocs (p + z) R) s s'"
    by auto
  moreover from this(1) have "coalesce p s = Some (p, s')"
    using A unfolding coalesce_def Let_def R(1-3) by simp
  ultimately show ?thesis by blast
qed

lemma coalesce_next:
  assumes P: "pending s L z ((y, False) # R)" and p: "p = first_block s + extent L"
    and A: "L = [] \<or> snd (last L)"
  shows "\<exists>s'. coalesce p s = Some (p, s') \<and> heap_inv s' (L @ (z + y, False) # R) \<and> same_fields s s' \<and>
    keeps (allocs (first_block s) L \<union> allocs (p + z) ((y, False) # R)) s s'"
proof -
  let ?a = "first_block s" and ?M = "[(z, False), (y, False)]"
  let ?F = "frees ?a L \<union> frees (?a + extent L + z) ((y, False) # R)"
  have sh: "heap_shape s (L @ (z, False) # (y, False) # R) ?F" using P by (simp add: pending_def)
  have adj: "no_adjacent L" "no_adjacent R" "R = [] \<or> snd (hd R)"
    using P by (auto simp: pending_def no_adjacent_Cons)
  note D = heap_shapeD [OF sh] and R = coalesce_reads [OF sh p] and S = seam_reads [OF sh p]
  have ok: "sizes_ok L" "8 dvd z" "16 \<le> z" "8 dvd y" "16 \<le> y" "sizes_ok R" using D(7) by auto
  have pp: "8 dvd p" "0 < p" "p + z + y < 4294967296" using D(1,2,9,11,12) extent_nonneg [OF ok(1)] extent_nonneg [OF ok(6)]
      extent_dvd [OF ok(1)] by (simp_all add: p)
  define s1 where "s1 = remove_free_block (p + z) s"
  have "(p + z, y) \<in> ?F" by (simp add: p)
  note s1 = shape_remove [OF sh this, folded s1_def]
  note e1 = same_fieldsD [OF s1(3)]
  have F1: "?F - {(p + z, y)} = frees ?a L \<union> frees (?a + extent L + extent ?M) R"
    using frees_outside [OF ok(1), of "p + z" ?a y] frees_outside [OF ok(6), of "p + z" "p + z + y" y] ok
    by (auto simp: p add.assoc)
  have sh1: "heap_shape s1 (L @ (z, False) # (y, False) # R) (?F - {(p + z, y)})" by (rule s1(1))
  note R1 = coalesce_reads [OF sh1, of p]
  define s2 where "s2 = PUT (HDRP p) (z + y) s1"
  define s3 where "s3 = PUT (FTRP s2 p) (z + y) s2"
  have four: "4 dvd p - 4" "4 dvd p + (z + y) - 8"
    using around_dvd4 [OF pp(1), of "z + y"] ok by simp_all
  have w2: "words s2 = (words s1)(p - 4 := z + y)"
    unfolding s2_def HDRP_def WSIZE_def using four pp ok by (intro words_u32) auto
  have ftr: "FTRP s2 p = p + (z + y) - 8"
    using ok four by (simp add: FTRP_def HDRP_def WSIZE_def DSIZE_def GET_SIZE_words w2 tag_size_def)
  have "words s3 = (words s2)(p + (z + y) - 8 := z + y)"
    unfolding s3_def ftr using four pp ok by (intro words_u32) auto
  then have w3: "words s3 = (words s1)(p - 4 := extent ?M, p + extent ?M - 8 := extent ?M)" by (simp add: w2)
  have sf3: "same_fields s1 s3" by (simp add: s3_def s2_def)
  have "heap_shape s1 (L @ ?M @ R) (frees (first_block s1) L \<union> frees (first_block s1 + extent L + extent ?M) R)"
    using sh1 F1 e1 by simp
  moreover have "p = first_block s1 + extent L" using e1 p by simp
  ultimately obtain s' where s': "insert_free_block p s3 = Some s'"
    "heap_inv s' (L @ (z + y, False) # R)" "same_fields s1 s'"
    "keeps (allocs (first_block s1) L \<union> allocs (p + (z + y)) R) s1 s'"
    using coalesce_finish [of s1 L ?M R p s3, OF _ _ adj(1,2) A adj(3) _ w3 sf3] by auto
  have n: "GET_SIZE s (HDRP (NEXT_BLKP s p)) = y"
    using S(5) ok around_dvd4 [OF pp(1) ok(2)] by (simp add: R HDRP_def WSIZE_def GET_SIZE_words head_tag_def)
  have u: "u32 (z + y) = z + y" using pp ok by simp
  have "coalesce p s = Some (p, s')"
    using A s'(1) unfolding coalesce_def Let_def R(1-3) n unfolding R(4)
    by (simp add: u s1_def [symmetric] s2_def [symmetric] s3_def [symmetric])
  moreover have "keeps (allocs ?a L \<union> allocs (p + z) ((y, False) # R)) s s'"
    by (rule keeps_trans [OF keeps_mono [OF s1(2)] keeps_mono [OF s'(4)]]) (auto simp: e1 p add.assoc)
  ultimately show ?thesis using s' same_fields_trans [OF s1(3) s'(3)] by blast
qed

lemma coalesce_prev:
  assumes P: "pending s (L @ [(x, False)]) z R" and p: "p = first_block s + extent L + x"
    and A: "R = [] \<or> snd (hd R)"
  shows "\<exists>s'. coalesce p s = Some (p - x, s') \<and> heap_inv s' (L @ (x + z, False) # R) \<and> same_fields s s' \<and>
    keeps (allocs (first_block s) L \<union> allocs (p + z) R) s s' \<and> words s' (p - 4) = z"
proof -
  let ?a = "first_block s" and ?M = "[(x, False), (z, False)]" and ?L = "L @ [(x, False)]"
  let ?F = "frees ?a ?L \<union> frees (?a + extent ?L + z) R"
  have sh: "heap_shape s (?L @ (z, False) # R) ?F" using P by (simp add: pending_def)
  have pL: "p = ?a + extent ?L" by (simp add: p)
  have adj: "no_adjacent L" "no_adjacent R" "L = [] \<or> snd (last L)"
    using P by (auto simp: pending_def no_adjacent_append)
  note D = heap_shapeD [OF sh] and R = coalesce_reads [OF sh pL] and S = seam_reads [OF sh pL]
  have ok: "sizes_ok L" "8 dvd z" "16 \<le> z" "8 dvd x" "16 \<le> x" "sizes_ok R" using D(7) by auto
  have pp: "8 dvd p" "0 < p" "p + z < 4294967296" "0 < p - x"
    using D(1,2,9,11,12) extent_nonneg [OF ok(1)] extent_nonneg [OF ok(6)] extent_dvd [OF ok(1)] ok
    by (simp_all add: p)
  have lt: "last_tag ?L = x" by (simp add: last_tag_def)
  define s1 where "s1 = remove_free_block (p - x) s"
  have "(p - x, x) \<in> ?F" by (simp add: p)
  note s1 = shape_remove [OF sh this, folded s1_def]
  note e1 = same_fieldsD [OF s1(3)]
  have F1: "?F - {(p - x, x)} = frees ?a L \<union> frees (?a + extent L + extent ?M) R"
    using frees_outside [OF ok(1), of "p - x" ?a x] frees_outside [OF ok(6), of "p - x" "p + z" x] ok
    by (auto simp: p add.assoc)
  have pL1: "p = first_block s1 + extent ?L" using e1 pL by simp
  note R1 = coalesce_reads [OF s1(1) pL1] and S1 = seam_reads [OF s1(1) pL1]
  have four: "4 dvd p - x - 4" "4 dvd p + z - 8" "4 dvd p - 8"
    using around_dvd4 [OF pp(1) ok(2)] around_dvd4 [OF pp(1) ok(4)] by simp_all
  define s2 where "s2 = PUT (FTRP s1 p) (x + z) s1"
  define s3 where "s3 = PUT (HDRP (PREV_BLKP s2 p)) (x + z) s2"
  have ftr: "FTRP s1 p = p + z - 8" by (simp add: FTRP_def DSIZE_def R1)
  have w2: "words s2 = (words s1)(p + z - 8 := x + z)"
    unfolding s2_def ftr using four pp ok by (intro words_u32) auto
  have prev2: "PREV_BLKP s2 p = p - x"
    using S1(1) ok four by (simp add: PREV_BLKP_def DSIZE_def GET_SIZE_words w2 lt)
  have w3': "words s3 = (words s2)(p - x - 4 := x + z)"
    unfolding s3_def prev2 HDRP_def WSIZE_def using four pp ok by (intro words_u32) auto
  have w3: "words s3 = (words s1)(p - x - 4 := extent ?M, p - x + extent ?M - 8 := extent ?M)"
    unfolding w3' w2 using ok by (simp add: fun_upd_twist)
  have prev3: "PREV_BLKP s3 p = p - x"
    using S1(1) ok four by (simp add: PREV_BLKP_def DSIZE_def GET_SIZE_words w3' w2 lt)
  have sf3: "same_fields s1 s3" by (simp add: s3_def s2_def)
  have "heap_shape s1 (L @ ?M @ R) (frees (first_block s1) L \<union> frees (first_block s1 + extent L + extent ?M) R)"
    using s1(1) F1 e1 by simp
  moreover have "p - x = first_block s1 + extent L" using e1 p by simp
  ultimately obtain s' where s': "insert_free_block (p - x) s3 = Some s'"
    "heap_inv s' (L @ (x + z, False) # R)" "same_fields s1 s'"
    "keeps (allocs (first_block s1) L \<union> allocs (p - x + (x + z)) R) s1 s'" and
    inner: "\<And>q. p - x + 8 \<le> q \<Longrightarrow> q < p + z - 8 \<Longrightarrow> words s' q = words s1 q"
    using coalesce_finish [of s1 L ?M R "p - x" s3, OF _ _ adj(1,2,3) A _ w3 sf3] by auto
  have n: "GET_SIZE s (HDRP (PREV_BLKP s p)) = x"
    using S(2) ok four by (simp add: R HDRP_def WSIZE_def GET_SIZE_words lt)
  have u: "u32 (z + x) = x + z" using pp ok by simp
  have prev: "PREV_BLKP s p = p - x" using R(5) ok by (simp add: lt)
  have "words s' (p - 4) = z" using inner [of "p - 4"] S1(3) ok by simp
  moreover have "coalesce p s = Some (p - x, s')"
    using A s'(1) unfolding coalesce_def Let_def R(1-3) n u unfolding prev
    by (simp add: s1_def [symmetric] s2_def [symmetric] s3_def [symmetric] prev3)
  moreover have "keeps (allocs ?a L \<union> allocs (p + z) R) s s'"
    by (rule keeps_trans [OF keeps_mono [OF s1(2)] keeps_mono [OF s'(4)]]) (auto simp: e1 p add.assoc)
  ultimately show ?thesis using s' same_fields_trans [OF s1(3) s'(3)] by blast
qed

lemma coalesce_both:
  assumes P: "pending s (L @ [(x, False)]) z ((y, False) # R)" and p: "p = first_block s + extent L + x"
  shows "\<exists>s'. coalesce p s = Some (p - x, s') \<and> heap_inv s' (L @ (x + z + y, False) # R) \<and> same_fields s s' \<and>
    keeps (allocs (first_block s) L \<union> allocs (p + z) ((y, False) # R)) s s' \<and>
    words s' (p - 4) = z \<and> words s' (p + z - 4) = y"
proof -
  let ?a = "first_block s" and ?M = "[(x, False), (z, False), (y, False)]" and ?L = "L @ [(x, False)]"
  let ?R = "(y, False) # R"
  let ?F = "frees ?a ?L \<union> frees (?a + extent ?L + z) ?R"
  have sh: "heap_shape s (?L @ (z, False) # ?R) ?F" using P by (simp add: pending_def)
  have pL: "p = ?a + extent ?L" by (simp add: p)
  have adj: "no_adjacent L" "no_adjacent R" "L = [] \<or> snd (last L)" "R = [] \<or> snd (hd R)"
    using P by (auto simp: pending_def no_adjacent_append no_adjacent_Cons)
  note D = heap_shapeD [OF sh] and R = coalesce_reads [OF sh pL] and S = seam_reads [OF sh pL]
  have ok: "sizes_ok L" "8 dvd z" "16 \<le> z" "8 dvd x" "16 \<le> x" "8 dvd y" "16 \<le> y" "sizes_ok R" using D(7) by auto
  have pp: "8 dvd p" "0 < p" "p + z + y < 4294967296" "0 < p - x"
    using D(1,2,9,11,12) extent_nonneg [OF ok(1)] extent_nonneg [OF ok(8)] extent_dvd [OF ok(1)] ok
    by (simp_all add: p)
  have lt: "last_tag ?L = x" "head_tag ?R = y" by (simp_all add: last_tag_def head_tag_def)
  define s1 where "s1 = remove_free_block (p - x) s"
  have "(p - x, x) \<in> ?F" by (simp add: p)
  note s1 = shape_remove [OF sh this, folded s1_def]
  note e1 = same_fieldsD [OF s1(3)]
  have pL1: "p = first_block s1 + extent ?L" using e1 pL by simp
  define s2 where "s2 = remove_free_block (p + z) s1"
  have "(p + z, y) \<in> ?F - {(p - x, x)}" using ok by (auto simp: p)
  note s2 = shape_remove [OF s1(1) this, folded s2_def]
  note e2 = same_fieldsD [OF s2(3)]
  have pL2: "p = first_block s2 + extent ?L" using e2 pL1 by simp
  note R1 = coalesce_reads [OF s1(1) pL1]
  note R2 = coalesce_reads [OF s2(1) pL2] and S2 = seam_reads [OF s2(1) pL2]
  have F2: "?F - {(p - x, x)} - {(p + z, y)} = frees ?a L \<union> frees (?a + extent L + extent ?M) R"
    using frees_outside [OF ok(1), of "p - x" ?a x] frees_outside [OF ok(8), of "p - x" "p + z + y" x]
      frees_outside [OF ok(1), of "p + z" ?a y] frees_outside [OF ok(8), of "p + z" "p + z + y" y] ok
    by (auto simp: p add.assoc)
  have four: "4 dvd p - x - 4" "4 dvd p + (z + y) - 8" "4 dvd p - 8" "4 dvd p + z - 4" "4 dvd p + z + y - 8"
    using around_dvd4 [OF pp(1) ok(2)] around_dvd4 [OF pp(1) ok(4)] around_dvd4 [OF pp(1), of "z + y"] ok
    by (simp_all add: add.assoc)
  define s3 where "s3 = PUT (FTRP s2 (NEXT_BLKP s2 p)) (x + z + y) s2"
  define s4 where "s4 = PUT (HDRP (PREV_BLKP s3 p)) (x + z + y) s3"
  have ftr: "FTRP s2 (NEXT_BLKP s2 p) = p + z + y - 8"
    using S2(5) ok four by (simp add: R2 FTRP_def HDRP_def WSIZE_def DSIZE_def GET_SIZE_words lt)
  have w3: "words s3 = (words s2)(p + z + y - 8 := x + z + y)"
    unfolding s3_def ftr using four pp ok by (intro words_u32) auto
  have prev3: "PREV_BLKP s3 p = p - x"
    using S2(1) ok four by (simp add: PREV_BLKP_def DSIZE_def GET_SIZE_words w3 lt)
  have w4': "words s4 = (words s3)(p - x - 4 := x + z + y)"
    unfolding s4_def prev3 HDRP_def WSIZE_def using four pp ok by (intro words_u32) auto
  have w4: "words s4 = (words s2)(p - x - 4 := extent ?M, p - x + extent ?M - 8 := extent ?M)"
    unfolding w4' w3 using ok by (simp add: fun_upd_twist add.assoc)
  have prev4: "PREV_BLKP s4 p = p - x"
    using S2(1) ok four by (simp add: PREV_BLKP_def DSIZE_def GET_SIZE_words w4' w3 lt)
  have sf4: "same_fields s2 s4" by (simp add: s4_def s3_def)
  have "heap_shape s2 (L @ ?M @ R) (frees (first_block s2) L \<union> frees (first_block s2 + extent L + extent ?M) R)"
    using s2(1) F2 e1 e2 by simp
  moreover have "p - x = first_block s2 + extent L" using e1 e2 p by simp
  ultimately obtain s' where s': "insert_free_block (p - x) s4 = Some s'"
    "heap_inv s' (L @ (x + z + y, False) # R)" "same_fields s2 s'"
    "keeps (allocs (first_block s2) L \<union> allocs (p - x + (x + z + y)) R) s2 s'" and
    inner: "\<And>q. p - x + 8 \<le> q \<Longrightarrow> q < p + z + y - 8 \<Longrightarrow> words s' q = words s2 q"
    using coalesce_finish [of s2 L ?M R "p - x" s4, OF _ _ adj(1-4) _ w4 sf4] by (auto simp: add.assoc)
  have n: "GET_SIZE s (FTRP s (NEXT_BLKP s p)) = y" "GET_SIZE s (HDRP (PREV_BLKP s p)) = x"
    using S ok four by (simp_all add: R FTRP_def HDRP_def WSIZE_def DSIZE_def GET_SIZE_words lt)
  have u: "u32 (z + (y + x)) = x + z + y" using pp ok by simp
  have prev: "PREV_BLKP s p = p - x" using R(5) ok by (simp add: lt)
  have "words s' (p - 4) = z" "words s' (p + z - 4) = y"
    using inner [of "p - 4"] inner [of "p + z - 4"] S2(3,5) ok by (simp_all add: lt)
  moreover have "coalesce p s = Some (p - x, s')"
    using s'(1) unfolding coalesce_def Let_def R(1-3) n u
    by (simp add: prev R1(4) s1_def [symmetric] s2_def [symmetric] s3_def [symmetric] s4_def [symmetric] prev4)
  moreover have "keeps (allocs ?a L \<union> allocs (p + z) ?R) s s'"
  proof (rule keeps_trans)
    show "keeps (allocs ?a L \<union> allocs (p + z) ?R) s s1"
      by (rule keeps_mono [OF s1(2)]) (auto simp: p add.assoc)
    show "keeps (allocs ?a L \<union> allocs (p + z) ?R) s1 s'"
      by (rule keeps_trans [OF keeps_mono [OF s2(2)] keeps_mono [OF s'(4)]]) (auto simp: e1 e2 p add.assoc)
  qed
  ultimately show ?thesis using s' same_fields_trans [OF same_fields_trans [OF s1(3) s2(3)] s'(3)] by blast
qed

text \<open>All four cases: \<open>coalesce\<close> computes the abstract merge. A merged block keeps the headers it
  swallows when it grows to the left: \<open>mm_exit\<close> walks over them.\<close>

lemma coalesce_pending:
  assumes P: "pending s L z R" and p: "p = first_block s + extent L"
  shows "\<exists>s'. coalesce p s = Some (first_block s + extent (fst (merge_left L z)), s') \<and>
    heap_inv s' (abs_coalesce L z R) \<and> same_fields s s' \<and>
    keeps (allocs (first_block s) L \<union> allocs (p + z) R) s s' \<and>
    (L \<noteq> [] \<and> \<not> snd (last L) \<longrightarrow> words s' (p - 4) = z \<and>
       (R \<noteq> [] \<and> \<not> snd (hd R) \<longrightarrow> words s' (p + z - 4) = fst (hd R)))"
proof -
  have left: "\<exists>L' x. L = L' @ [(x, False)]" if "\<not> (L = [] \<or> snd (last L))"
    using that by (metis (full_types) append_butlast_last_id prod.collapse)
  have right: "\<exists>R' y. R = (y, False) # R'" if "\<not> (R = [] \<or> snd (hd R))"
    using that by (metis (full_types) list.collapse prod.collapse)
  have mr: "merge_right n R = (n, R)" if "R = [] \<or> snd (hd R)" for n
    using that by (cases R) (auto elim: merge_right.elims)
  show ?thesis
  proof (cases "L = [] \<or> snd (last L)")
    case A: True
    show ?thesis
    proof (cases "R = [] \<or> snd (hd R)")
      case True
      from coalesce_alone [OF P p A True] A mr [OF True] show ?thesis
        by (auto simp: abs_coalesce_def merge_left_def p)
    next
      case False
      with right obtain R' y where R: "R = (y, False) # R'" by blast
      from coalesce_next [OF P [unfolded R] p A] A R show ?thesis
        by (auto simp: abs_coalesce_def merge_left_def p)
    qed
  next
    case False
    with left obtain L' x where L: "L = L' @ [(x, False)]" by blast
    then have pL: "p = first_block s + extent L' + x" using p by simp
    show ?thesis
    proof (cases "R = [] \<or> snd (hd R)")
      case True
      from coalesce_prev [OF P [unfolded L] pL True] True L mr [OF True] show ?thesis
        by (auto simp: abs_coalesce_def merge_left_def p)
    next
      case False
      with right obtain R' y where R: "R = (y, False) # R'" by blast
      from coalesce_both [OF P [unfolded L R] pL] L R show ?thesis
        by (auto simp: abs_coalesce_def merge_left_def p)
    qed
  qed
qed

end
