(* ===== verification/HeapSteps.thy ===== *)
theory HeapSteps
  imports HeapInv
begin

text \<open>
  Growing the heap and allocating in a free block, on the layout: \<open>extend_heap\<close> appends a free
  block and merges it with a free last one, \<open>place\<close> cuts the allocated part off the front of a
  free block when the rest is at least a minimum block.
\<close>

subsection \<open>Growing the heap\<close>

definition grown :: "int \<Rightarrow> mm \<Rightarrow> mm \<Rightarrow> bool" where
  "grown n s s' \<longleftrightarrow> same_fields (s\<lparr>mem_brk := mem_brk s + n\<rparr>) s'"

lemma grownD:
  assumes "grown n s s'"
  shows "mem_start_brk s' = mem_start_brk s" "mem_brk s' = mem_brk s + n" "mem_max_addr s' = mem_max_addr s"
    "heap_listp s' = heap_listp s" "block_list_start s' = block_list_start s"
    "gl_ranges s' = gl_ranges s" "ranges s' = ranges s"
  using assms by (simp_all add: grown_def same_fields_def)

lemma grown_same: "grown n s t \<Longrightarrow> same_fields t u \<Longrightarrow> grown n s u"
  by (simp add: grown_def same_fields_def)

lemma shape_extend:
  assumes sh: "heap_shape s bs F" and g: "grown z s s'" and z: "8 dvd z" "16 \<le> z"
    and top: "mem_brk s + z \<le> mem_max_addr s"
    and w: "words s' (mem_brk s - 4) = z" "words s' (mem_brk s + z - 8) = z" "words s' (mem_brk s + z - 4) = 1"
    and frame: "\<And>q. q < mem_brk s - 4 \<Longrightarrow> words s' q = words s q"
  shows "heap_shape s' (bs @ [(z, False)]) F" "keeps (allocs (first_block s) bs) s s'"
proof -
  note D = heap_shapeD [OF sh] and G = grownD [OF g]
  note nn = extent_nonneg [OF D(7)]
  have t: "tagged (words s') (first_block s) bs"
  proof (rule tagged_frame [OF D(8)])
    show "q \<in> tag_words (first_block s) bs \<Longrightarrow> words s' q = words s q" for q
      using tag_words_range [OF D(7)] D(9) by (intro frame) fastforce
  qed
  have lists: "free_lists (words s') (block_list_start s) F"
  proof (rule free_lists_frame [OF D(13)])
    fix q assume "q \<in> link_words (block_list_start s) F"
    then consider "q < block_list_start s + 40"
      | p y where "(p, y) \<in> frees (first_block s) bs" "q = p \<or> q = p + 4"
      using D(14) by (fastforce simp: link_words_def)
    then show "words s' q = words s q"
    proof cases
      case 1
      then show ?thesis using nn D(9) by (intro frame) auto
    next
      case (2 p y)
      then show ?thesis using frees_bounds [OF D(7) 2(1)] D(9) by (intro frame) auto
    qed
  qed
  have "words s' (block_list_start s + 44) = 9" "words s' (block_list_start s + 48) = 9"
    using D(5,6,9) nn by (simp_all add: frame)
  moreover have "F \<subseteq> frees (first_block s) (bs @ [(z, False)])" using D(14) by auto
  ultimately show "heap_shape s' (bs @ [(z, False)]) F"
    using D(1-4,7,9,12) G z top t w lists unfolding heap_shape_def by (simp add: add.assoc)
  show "keeps (allocs (first_block s) bs) s s'"
    unfolding keeps_def
  proof clarify
    fix p y q assume a: "(p, y) \<in> allocs (first_block s) bs" and q: "p \<le> q" "q < p + y - 8"
    from allocs_bounds [OF D(7) a] q D(9) show "words s' q = words s q" by (intro frame) auto
  qed
qed

definition extend_size :: "int \<Rightarrow> int" where
  "extend_size d = 8 * (d + d mod 2)"

lemma extend_size_word:
  assumes "0 \<le> d" "d < 536870911"
  shows "(if d mod 2 \<noteq> 0 then u32 (u32 (d + 1) * DSIZE) else u32 (d * DSIZE)) = extend_size d"
proof (cases "d mod 2 = 0")
  case True
  with assms show ?thesis by (simp add: extend_size_def DSIZE_def mult.commute)
next
  case False
  then have "d mod 2 = 1" by simp
  with assms show ?thesis by (simp add: extend_size_def DSIZE_def mult.commute)
qed

text \<open>What \<^verbatim>\<open>extend_heap\<close> writes into the memory that it got: a block that is free and in no list, and the
  epilogue behind it.\<close>

definition fresh_block :: "addr \<Rightarrow> int \<Rightarrow> mm \<Rightarrow> mm" where
  "fresh_block b z s =
     (let s = PUT (HDRP b) (PACK z 0) s;
          s = PUT (FTRP s b) (PACK z 0) s;
          s = PUT (NEXT_LINKNODE_RP b) NULL s;
          s = PUT (PREV_LINKNODE_RP b) NULL s
      in PUT (HDRP (NEXT_BLKP s b)) (PACK 0 1) s)"

lemma fresh_pending:
  assumes inv: "heap_inv s bs" and z: "16 \<le> z" "8 dvd z" "mem_brk s + z \<le> mem_max_addr s"
    and s6: "s6 = fresh_block (mem_brk s) z (s\<lparr>mem_brk := mem_brk s + z\<rparr>)"
  shows "pending s6 bs z []" "mem_brk s = first_block s6 + extent bs" "grown z s s6"
    "keeps (allocs (first_block s) bs) s s6"
proof -
  let ?b = "mem_brk s"
  have sh: "heap_shape s bs (frees (first_block s) bs)" and adj: "no_adjacent bs"
    using inv by (simp_all add: heap_inv_def)
  note D = heap_shapeD [OF sh]
  have zz: "16 \<le> z" "8 dvd z" "z < 4294967296" using z D(2,9,12) extent_nonneg [OF D(7)] by simp_all
  have b: "8 dvd ?b" "0 < ?b" using D(1,2,9) extent_dvd [OF D(7)] extent_nonneg [OF D(7)] by simp_all
  have four: "4 dvd ?b - 4" "4 dvd ?b + z - 8" "4 dvd ?b + z - 4" "4 dvd ?b" "4 dvd ?b + 4"
    using around_dvd4 [OF b(1) zz(2)] dvd8_dvd4 [OF b(1)] dvd8_add4 [OF b(1)] by simp_all
  define s1 where "s1 = s\<lparr>mem_brk := ?b + z\<rparr>"
  define s2 where "s2 = PUT (HDRP ?b) (PACK z 0) s1"
  define s3 where "s3 = PUT (FTRP s2 ?b) (PACK z 0) s2"
  define s4 where "s4 = PUT (NEXT_LINKNODE_RP ?b) NULL s3"
  define s5 where "s5 = PUT (PREV_LINKNODE_RP ?b) NULL s4"
  have s6': "s6 = PUT (HDRP (NEXT_BLKP s5 ?b)) (PACK 0 1) s5"
    unfolding s6 fresh_block_def Let_def by (simp only: s1_def s2_def s3_def s4_def s5_def)
  have w1: "words s1 = words s" by (simp add: s1_def words_brk)
  have w2: "words s2 = (words s)(?b - 4 := z)"
    unfolding s2_def HDRP_def WSIZE_def PACK_0 w1 [symmetric] using zz four by (intro words_u32) auto
  have ftr: "FTRP s2 ?b = ?b + z - 8"
    using zz four by (simp add: FTRP_def HDRP_def WSIZE_def DSIZE_def GET_SIZE_words w2)
  have w5: "words s5 = (words s)(?b - 4 := z, ?b + z - 8 := z, ?b + 4 := 0, ?b := 0)"
    using zz four by (simp add: s5_def s4_def s3_def ftr PREV_LINKNODE_RP_def NEXT_LINKNODE_RP_def WSIZE_def words_PUT w2)
  have "NEXT_BLKP s5 ?b = ?b + z"
    using zz four by (simp add: NEXT_BLKP_def WSIZE_def GET_SIZE_words w5)
  then have w6: "words s6 = (words s)(?b - 4 := z, ?b + z - 8 := z, ?b + 4 := 0, ?b := 0, ?b + z - 4 := 1)"
    using zz four by (simp add: s6' macro_defs words_PUT w5 PACK_def)
  show g: "grown z s s6"
    by (simp add: s6' s5_def s4_def s3_def s2_def grown_def s1_def)
  have tags: "words s6 (?b - 4) = z" "words s6 (?b + z - 8) = z" "words s6 (?b + z - 4) = 1"
    using zz by (auto simp: w6)
  have frame: "words s6 q = words s q" if "q < ?b - 4" for q using that zz by (simp add: w6)
  note e = shape_extend [OF sh g zz(2,1) z(3) tags frame]
  show "pending s6 bs z []" using e(1) adj grownD [OF g] by (simp add: pending_def)
  show "?b = first_block s6 + extent bs" using D(9) grownD [OF g] by simp
  show "keeps (allocs (first_block s) bs) s s6" by (rule e(2))
qed

lemma extend_heap_fresh:
  assumes inv: "heap_inv s bs" and d: "2 \<le> d" "d < 536870911" and z: "z = extend_size d"
    and fits: "z < 2147483648" "mem_brk s + z \<le> mem_max_addr s"
  shows "extend_heap d s = coalesce (mem_brk s) (fresh_block (mem_brk s) z (s\<lparr>mem_brk := mem_brk s + z\<rparr>))"
proof -
  have sh: "heap_shape s bs (frees (first_block s) bs)" using inv by (simp add: heap_inv_def)
  note D = heap_shapeD [OF sh]
  have "0 \<le> mem_brk s" "0 \<le> z" using D(2,9) extent_nonneg [OF D(7)] d by (simp_all add: z extend_size_def)
  then have sbrk: "mem_sbrk (s32 z) s = Some (mem_brk s, s\<lparr>mem_brk := mem_brk s + z\<rparr>)"
    using fits D(12) by (simp add: mem_sbrk_exact)
  have sz: "(if d mod 2 \<noteq> 0 then u32 (u32 (d + 1) * DSIZE) else u32 (d * DSIZE)) = z"
    using extend_size_word [of d] d z by simp
  show ?thesis unfolding extend_heap_def fresh_block_def sz by (simp add: Let_def sbrk del: PACK_0)
qed

lemma extend_heap_inv:
  assumes inv: "heap_inv s bs" and d: "2 \<le> d" "d < 536870911" and z: "z = extend_size d"
  shows "z < 2147483648 \<Longrightarrow> mem_brk s + z \<le> mem_max_addr s \<Longrightarrow>
      \<exists>s'. extend_heap d s = Some (first_block s + extent (fst (merge_left bs z)), s') \<and>
        heap_inv s' (abs_coalesce bs z []) \<and> grown z s s' \<and> keeps (allocs (first_block s) bs) s s'"
    and "2147483648 \<le> z \<or> mem_max_addr s < mem_brk s + z \<and> mem_brk s + z < 4294967296 \<Longrightarrow>
      extend_heap d s = Some (NULL, s)"
proof -
  have zz: "16 \<le> z" "8 dvd z" "z < 4294967296" using d by (auto simp: z extend_size_def)
  have sz: "(if d mod 2 \<noteq> 0 then u32 (u32 (d + 1) * DSIZE) else u32 (d * DSIZE)) = z"
    using extend_size_word [of d] d z by simp
  have sh: "heap_shape s bs (frees (first_block s) bs)" using inv by (simp add: heap_inv_def)
  note D = heap_shapeD [OF sh]
  have brk0: "0 \<le> mem_brk s" using D(2,9) extent_nonneg [OF D(7)] by simp
  show "extend_heap d s = Some (NULL, s)" if "2147483648 \<le> z \<or> mem_max_addr s < mem_brk s + z \<and> mem_brk s + z < 4294967296"
  proof -
    have "mem_sbrk (s32 z) s = None"
    proof (cases "z < 2147483648")
      case True
      with that zz brk0 show ?thesis by (simp add: mem_sbrk_exact)
    next
      case False
      with zz s32_negative [of z] show ?thesis by (simp add: mem_sbrk_negative)
    qed
    then show ?thesis unfolding extend_heap_def Let_def sz by simp
  qed
  assume fits: "z < 2147483648" "mem_brk s + z \<le> mem_max_addr s"
  define s6 where "s6 = fresh_block (mem_brk s) z (s\<lparr>mem_brk := mem_brk s + z\<rparr>)"
  note f = fresh_pending [OF inv zz(1,2) fits(2) s6_def]
  from coalesce_pending [OF f(1,2)] obtain s' where
    s': "coalesce (mem_brk s) s6 = Some (first_block s6 + extent (fst (merge_left bs z)), s')"
      "heap_inv s' (abs_coalesce bs z [])" "same_fields s6 s'"
      "keeps (allocs (first_block s6) bs \<union> allocs (mem_brk s + z) []) s6 s'"
    by blast
  have "extend_heap d s = coalesce (mem_brk s) s6"
    unfolding s6_def by (rule extend_heap_fresh [OF inv d z fits])
  with s' grown_same [OF f(3) s'(3)] keeps_trans [OF f(4), of s'] grownD [OF f(3)]
  show "\<exists>s'. extend_heap d s = Some (first_block s + extent (fst (merge_left bs z)), s') \<and>
        heap_inv s' (abs_coalesce bs z []) \<and> grown z s s' \<and> keeps (allocs (first_block s) bs) s s'"
    by auto
qed

subsection \<open>Allocating in a free block\<close>

definition abs_place :: "blk list \<Rightarrow> int \<Rightarrow> int \<Rightarrow> blk list \<Rightarrow> blk list" where
  "abs_place L z a R =
     (if 16 \<le> z - a then L @ (a, True) # (z - a, False) # R else L @ (z, True) # R)"

text \<open>What \<^verbatim>\<open>place\<close> writes when it splits the block \<open>p\<close> of size \<open>z\<close>, which it has taken out of its list: the
  allocated block, and the rest, which is free and in no list yet.\<close>

definition cut_block :: "addr \<Rightarrow> int \<Rightarrow> int \<Rightarrow> mm \<Rightarrow> addr \<times> mm" where
  "cut_block p a z s =
     (let s = PUT (HDRP p) (PACK a 1) s;
          s = PUT (FTRP s p) (PACK a 1) s;
          q = NEXT_BLKP s p;
          s = PUT (HDRP q) (PACK (u32 (z - a)) 0) s;
          s = PUT (FTRP s q) (PACK (u32 (z - a)) 0) s;
          s = PUT (NEXT_LINKNODE_RP q) 0 s
      in (q, PUT (PREV_LINKNODE_RP q) 0 s))"

lemma cut_pending:
  assumes inv: "heap_inv s (L @ (z, False) # R)" and p: "p = first_block s + extent L"
    and a: "8 dvd a" "16 \<le> a" "16 \<le> z - a"
  shows "\<exists>t. cut_block p a z (remove_free_block p s) = (p + a, t) \<and> pending t (L @ [(a, True)]) (z - a) R \<and>
    p + a = first_block t + extent (L @ [(a, True)]) \<and> same_fields s t \<and>
    keeps (allocs (first_block s) L \<union> allocs (p + z) R) s t"
proof -
  let ?f = "first_block s" and ?bs = "L @ (z, False) # R" and ?M = "[(a, True), (z - a, False)]"
  let ?F = "frees ?f L \<union> frees (p + z) R"
  have sh: "heap_shape s ?bs (frees ?f ?bs)" and adj: "no_adjacent ?bs"
    using inv by (simp_all add: heap_inv_def)
  have adj': "no_adjacent L" "no_adjacent R" "R = [] \<or> snd (hd R)" "L = [] \<or> snd (last L)"
    using adj by (auto simp: no_adjacent_append no_adjacent_Cons)
  note D = heap_shapeD [OF sh]
  have ok: "sizes_ok L" "8 dvd z" "16 \<le> z" "sizes_ok R" using D(7) by auto
  have pp: "8 dvd p" "0 < p" "p + z < 4294967296" using D(1,2,9,11,12) extent_nonneg [OF ok(1)] extent_nonneg [OF ok(4)]
      extent_dvd [OF ok(1)] by (simp_all add: p)
  define s1 where "s1 = remove_free_block p s"
  have "(p, z) \<in> frees ?f ?bs" by (simp add: p)
  note s1 = shape_remove [OF sh this, folded s1_def]
  note e1 = same_fieldsD [OF s1(3)]
  have F1: "frees ?f ?bs - {(p, z)} = ?F"
    using frees_outside [OF ok(1), of p ?f z] frees_outside [OF ok(4), of p "p + z" z] ok
    by (auto simp: p add.assoc)
  have sh1: "heap_shape s1 (L @ [(z, False)] @ R) ?F" using s1(1) F1 by simp
  have A: "allocs ?f L \<union> allocs (p + z) R \<subseteq> allocs ?f ?bs" by (auto simp: p add.assoc)
  have F: "?F \<subseteq> frees (first_block s1) L \<union> frees (first_block s1 + extent L + extent [(z, False)]) R"
    by (simp add: e1 p add.assoc)
  have u: "u32 (z - a) = z - a" using a pp by simp
  have four: "4 dvd p - 4" "4 dvd p + z - 8" "4 dvd p + a - 8" "4 dvd p + a - 4" "4 dvd p + a" "4 dvd p + a + 4"
    using around_dvd4 [OF pp(1) ok(2)] around_dvd4 [OF pp(1) a(1)] dvd8_add4 [of "p + a"] pp(1) a(1) by simp_all
  have za: "8 dvd z - a" using ok a by simp
  define s2 where "s2 = PUT (HDRP p) (PACK a 1) s1"
  define s3 where "s3 = PUT (FTRP s2 p) (PACK a 1) s2"
  define s4 where "s4 = PUT (HDRP (NEXT_BLKP s3 p)) (PACK (z - a) 0) s3"
  define s5 where "s5 = PUT (FTRP s4 (NEXT_BLKP s3 p)) (PACK (z - a) 0) s4"
  define s6 where "s6 = PUT (NEXT_LINKNODE_RP (NEXT_BLKP s3 p)) 0 s5"
  define s7 where "s7 = PUT (PREV_LINKNODE_RP (NEXT_BLKP s3 p)) 0 s6"
  note t = PACK_tag(2) [OF a(1)]
  have w2: "words s2 = (words s1)(p - 4 := tag_of a True)"
    unfolding s2_def HDRP_def WSIZE_def t using pp four a by (intro words_u32) (auto simp: tag_of_def)
  have ftr: "FTRP s2 p = p + a - 8"
    using a four by (simp add: FTRP_def HDRP_def WSIZE_def DSIZE_def GET_SIZE_words w2)
  have w3: "words s3 = (words s1)(p - 4 := tag_of a True, p + a - 8 := tag_of a True)"
    unfolding s3_def ftr t w2 [symmetric] using pp four a by (intro words_u32) (auto simp: tag_of_def)
  have nxt: "NEXT_BLKP s3 p = p + a"
    using a four by (simp add: NEXT_BLKP_def WSIZE_def GET_SIZE_words w3)
  have w4: "words s4 = (words s3)(p + a - 4 := z - a)"
    unfolding s4_def nxt HDRP_def WSIZE_def PACK_0 using four pp a by (intro words_u32) auto
  have ftr4: "FTRP s4 (p + a) = p + z - 8"
    using za four by (simp add: FTRP_def HDRP_def WSIZE_def DSIZE_def GET_SIZE_words w4)
  have w5: "words s5 = (words s4)(p + z - 8 := z - a)"
    unfolding s5_def nxt ftr4 PACK_0 using four pp a by (intro words_u32) auto
  have w7: "words s7 = (words s5)(p + a + 4 := 0, p + a := 0)"
    using four by (simp add: s7_def s6_def nxt PREV_LINKNODE_RP_def NEXT_LINKNODE_RP_def WSIZE_def words_PUT)
  have sf: "same_fields s1 s7" by (simp add: s7_def s6_def s5_def s4_def s3_def s2_def)
  have M': "sizes_ok ?M" "extent ?M = extent [(z, False)]" using za a by simp_all
  have tg: "tagged (words s7) (first_block s1 + extent L) ?M"
    using a by (simp add: w7 w5 w4 w3 e1 p)
  have frame: "words s7 q = words s1 q"
    if "q < first_block s1 + extent L - 4 \<or> first_block s1 + extent L + extent [(z, False)] - 4 \<le> q" for q
    using that a by (auto simp: w7 w5 w4 w3 p e1)
  note r = shape_recut [OF sh1 sf F M' tg frame]
  note e7 = same_fieldsD [OF sf]
  have pend: "pending s7 (L @ [(a, True)]) (z - a) R"
    using r(1) adj' by (auto simp: pending_def e1 e7 p add.assoc no_adjacent_append)
  have pa: "p + a = first_block s7 + extent (L @ [(a, True)])" by (simp add: p e1 e7)
  have "cut_block p a z s1 = (p + a, s7)"
    unfolding cut_block_def Let_def u by (simp del: PACK_0 add: s2_def [symmetric] s3_def [symmetric]
        s4_def [symmetric] s5_def [symmetric] s6_def [symmetric] s7_def [symmetric]) (simp add: nxt)
  moreover have "keeps (allocs ?f L \<union> allocs (p + z) R) s s7"
    by (rule keeps_trans [OF keeps_mono [OF s1(2) A] keeps_mono [OF r(2)]]) (auto simp: e1 p add.assoc)
  ultimately show ?thesis using pend pa same_fields_trans [OF s1(3) sf] unfolding s1_def by blast
qed

lemma place_cut:
  assumes "16 \<le> u32 (GET_SIZE s (HDRP p) - a)"
  shows "place p a s =
    (case cut_block p a (GET_SIZE s (HDRP p)) (remove_free_block p s) of (q, t) \<Rightarrow> do { (_, t) \<leftarrow> coalesce q t; Some t })"
  using assms by (simp add: place_def cut_block_def Let_def MINFB_SIZE_def DSIZE_def)

lemma place_inv:
  assumes inv: "heap_inv s (L @ (z, False) # R)" and p: "p = first_block s + extent L"
    and a: "8 dvd a" "16 \<le> a" "a \<le> z"
  shows "\<exists>s'. place p a s = Some s' \<and> heap_inv s' (abs_place L z a R) \<and> same_fields s s' \<and>
    keeps (allocs (first_block s) L \<union> allocs (p + z) R) s s'"
proof -
  let ?f = "first_block s" and ?bs = "L @ (z, False) # R"
  let ?F = "frees ?f L \<union> frees (p + z) R"
  have sh: "heap_shape s ?bs (frees ?f ?bs)" and adj: "no_adjacent ?bs"
    using inv by (simp_all add: heap_inv_def)
  have adj': "no_adjacent L" "no_adjacent R" "R = [] \<or> snd (hd R)" "L = [] \<or> snd (last L)"
    using adj by (auto simp: no_adjacent_append no_adjacent_Cons)
  note D = heap_shapeD [OF sh] and R = coalesce_reads [OF sh p]
  have ok: "sizes_ok L" "8 dvd z" "16 \<le> z" "sizes_ok R" using D(7) by auto
  have pp: "8 dvd p" "0 < p" "p + z < 4294967296" using D(1,2,9,11,12) extent_nonneg [OF ok(1)] extent_nonneg [OF ok(4)]
      extent_dvd [OF ok(1)] by (simp_all add: p)
  define s1 where "s1 = remove_free_block p s"
  have "(p, z) \<in> frees ?f ?bs" by (simp add: p)
  note s1 = shape_remove [OF sh this, folded s1_def]
  note e1 = same_fieldsD [OF s1(3)]
  have F1: "frees ?f ?bs - {(p, z)} = ?F"
    using frees_outside [OF ok(1), of p ?f z] frees_outside [OF ok(4), of p "p + z" z] ok
    by (auto simp: p add.assoc)
  have sh1: "heap_shape s1 (L @ [(z, False)] @ R) ?F" using s1(1) F1 by simp
  have A: "allocs ?f L \<union> allocs (p + z) R \<subseteq> allocs ?f ?bs" by (auto simp: p add.assoc)
  have F: "?F \<subseteq> frees (first_block s1) L \<union> frees (first_block s1 + extent L + extent [(z, False)]) R"
    by (simp add: e1 p add.assoc)
  have u: "u32 (z - a) = z - a" using a pp by simp
  have four: "4 dvd p - 4" "4 dvd p + z - 8" "4 dvd p + a - 8" "4 dvd p + a - 4" "4 dvd p + a" "4 dvd p + a + 4"
    using around_dvd4 [OF pp(1) ok(2)] around_dvd4 [OF pp(1) a(1)] dvd8_add4 [of "p + a"] pp(1) a(1) by simp_all
  show ?thesis
  proof (cases "16 \<le> z - a")
    case False
    define s2 where "s2 = PUT (HDRP p) (PACK z 1) s1"
    define s3 where "s3 = PUT (FTRP s2 p) (PACK z 1) s2"
    note t = PACK_tag(2) [OF ok(2)]
    have w2: "words s2 = (words s1)(p - 4 := tag_of z True)"
      unfolding s2_def HDRP_def WSIZE_def t using pp four ok by (intro words_u32) (auto simp: tag_of_def)
    have ftr: "FTRP s2 p = p + z - 8"
      using ok four by (simp add: FTRP_def HDRP_def WSIZE_def DSIZE_def GET_SIZE_words w2)
    have w3: "words s3 = (words s1)(p - 4 := tag_of z True, p + z - 8 := tag_of z True)"
      unfolding s3_def ftr t w2 [symmetric] using pp four ok by (intro words_u32) (auto simp: tag_of_def)
    have sf: "same_fields s1 s3" by (simp add: s3_def s2_def)
    have M': "sizes_ok [(z, True)]" "extent [(z, True)] = extent [(z, False)]" using ok by simp_all
    have tg: "tagged (words s3) (first_block s1 + extent L) [(z, True)]" using ok by (simp add: w3 e1 p)
    have frame: "words s3 q = words s1 q"
      if "q < first_block s1 + extent L - 4 \<or> first_block s1 + extent L + extent [(z, False)] - 4 \<le> q" for q
      using that ok by (auto simp: w3 p e1)
    note r = shape_recut [OF sh1 sf F M' tg frame]
    have "heap_inv s3 (L @ (z, True) # R)"
      using r(1) adj' e1 same_fieldsD [OF sf]
      by (auto simp: heap_inv_def p add.assoc no_adjacent_append no_adjacent_Cons)
    moreover have "place p a s = Some s3"
      using False unfolding place_def Let_def R(3) u
      by (simp add: MINFB_SIZE_def DSIZE_def del: PACK_0 add: s1_def [symmetric] s2_def [symmetric] s3_def [symmetric])
    moreover have "keeps (allocs ?f L \<union> allocs (p + z) R) s s3"
      by (rule keeps_trans [OF keeps_mono [OF s1(2) A] keeps_mono [OF r(2)]]) (auto simp: e1 p add.assoc)
    ultimately show ?thesis using False same_fields_trans [OF s1(3) sf] by (auto simp: abs_place_def)
  next
    case True
    from cut_pending [OF inv p a(1,2) True] obtain t where
      t: "cut_block p a z (remove_free_block p s) = (p + a, t)" "pending t (L @ [(a, True)]) (z - a) R"
        "p + a = first_block t + extent (L @ [(a, True)])" "same_fields s t" "keeps (allocs ?f L \<union> allocs (p + z) R) s t"
      by blast
    note e7 = same_fieldsD [OF t(4)]
    have mr: "merge_right n R = (n, R)" for n
      using adj'(3) by (cases R) (auto elim: merge_right.elims)
    from coalesce_pending [OF t(2,3)] obtain s' where
      s': "coalesce (p + a) t = Some (p + a, s')" "heap_inv s' (L @ (a, True) # (z - a, False) # R)"
        "same_fields t s'" "keeps (allocs (first_block t) (L @ [(a, True)]) \<union> allocs (p + a + (z - a)) R) t s'"
      unfolding t(3) by (auto simp: merge_left_def abs_coalesce_def mr)
    have "place p a s = Some s'" using True s'(1) place_cut [of s p a] by (simp add: R(3) u t(1))
    moreover have "keeps (allocs ?f L \<union> allocs (p + z) R) s s'"
      by (rule keeps_trans [OF t(5) keeps_mono [OF s'(4)]]) (auto simp: e7 p add.assoc)
    ultimately show ?thesis
      using True s'(2) same_fields_trans [OF t(4) s'(3)] by (auto simp: abs_place_def)
  qed
qed

end
