(* ===== verification/MmCorrect.thy ===== *)
theory MmCorrect
  imports HeapSteps
begin

text \<open>
  The interface of \<^verbatim>\<open>mm.h\<close> on the layout: \<open>mm_init\<close> establishes the invariant, \<open>mm_malloc\<close> and
  \<open>mm_free\<close> implement the steps of an abstract allocator on block lists and keep every other
  payload, \<open>mm_exit\<close> leaves a single free block.
\<close>

subsection \<open>Payload bytes\<close>

definition keeps_bytes :: "(addr \<times> int) set \<Rightarrow> mm \<Rightarrow> mm \<Rightarrow> bool" where
  "keeps_bytes A s s' \<longleftrightarrow>
     (\<forall>(p, z) \<in> A. \<forall>b. p \<le> b \<and> b < p + z - 8 \<longrightarrow> heap_mem s' b = heap_mem s b)"

lemma keeps_bytes_I:
  assumes k: "keeps A s s'" and al: "\<And>p z. (p, z) \<in> A \<Longrightarrow> 8 dvd p \<and> 8 dvd z"
  shows "keeps_bytes A s s'"
  unfolding keeps_bytes_def
proof clarify
  fix p z b assume pz: "(p, z) \<in> A" and b: "p \<le> b" "b < p + z - 8"
  define q where "q = b - b mod 4"
  have q: "4 dvd q" "q \<le> b" "b < q + 4" by (auto simp: q_def dvd_minus_mod)
  obtain p' z' where "p = 8 * p'" "z = 8 * z'" using al [OF pz] by (auto elim!: dvdE)
  with q b have "p \<le> q" "q < p + z - 8" by (auto elim!: dvdE)
  with k pz have "words s' q = words s q" by (auto simp: keeps_def)
  from words_bytes [OF this q] show "heap_mem s' b = heap_mem s b" .
qed

lemma inv_keeps_bytes:
  assumes "heap_inv s bs" "keeps A s s'" "A \<subseteq> allocs (first_block s) bs"
  shows "keeps_bytes A s s'"
proof (rule keeps_bytes_I [OF assms(2)])
  have D: "8 dvd block_list_start s" "sizes_ok bs"
    using assms(1) by (auto simp: heap_inv_def dest: heap_shapeD)
  fix p z assume "(p, z) \<in> A"
  with assms(3) have "(p, z) \<in> allocs (first_block s) bs" by auto
  with D show "8 dvd p \<and> 8 dvd z" using allocs_bounds(4,5) [of bs p z "first_block s"] by simp
qed

text \<open>The range list and its flag are no part of the layout.\<close>

lemma words_ranges [word_view]:
  "words (s\<lparr>gl_ranges := g\<rparr>) = words s" "words (s\<lparr>ranges := rs\<rparr>) = words s"
  by (simp_all add: view_def GET_def fun_eq_iff)

lemma heap_inv_ranges [simp]:
  "heap_inv (s\<lparr>gl_ranges := g\<rparr>) bs = heap_inv s bs" "heap_inv (s\<lparr>ranges := rs\<rparr>) bs = heap_inv s bs"
proof -
  have f: "block_list_start (s\<lparr>gl_ranges := g\<rparr>) = block_list_start s" "heap_listp (s\<lparr>gl_ranges := g\<rparr>) = heap_listp s"
    "mem_start_brk (s\<lparr>gl_ranges := g\<rparr>) = mem_start_brk s" "mem_brk (s\<lparr>gl_ranges := g\<rparr>) = mem_brk s"
    "mem_max_addr (s\<lparr>gl_ranges := g\<rparr>) = mem_max_addr s"
    "block_list_start (s\<lparr>ranges := rs\<rparr>) = block_list_start s" "heap_listp (s\<lparr>ranges := rs\<rparr>) = heap_listp s"
    "mem_start_brk (s\<lparr>ranges := rs\<rparr>) = mem_start_brk s" "mem_brk (s\<lparr>ranges := rs\<rparr>) = mem_brk s"
    "mem_max_addr (s\<lparr>ranges := rs\<rparr>) = mem_max_addr s"
    by simp_all
  show "heap_inv (s\<lparr>gl_ranges := g\<rparr>) bs = heap_inv s bs" "heap_inv (s\<lparr>ranges := rs\<rparr>) bs = heap_inv s bs"
    unfolding heap_inv_def heap_shape_def words_ranges f by (rule refl)+
qed

subsection \<open>Initialisation\<close>

lemma init_words_words:
  assumes "4 dvd h"
  shows "words (init_words h s) = (words s)(h := 0, h + 4 := 0, h + 8 := 0, h + 12 := 0, h + 16 := 0,
    h + 20 := 0, h + 24 := 0, h + 28 := 0, h + 32 := 0, h + 36 := 0, h + 40 := 0, h + 44 := 9,
    h + 48 := 9, h + 52 := 1)"
proof -
  have "4 dvd h + 8" "4 dvd h + 12" "4 dvd h + 16" "4 dvd h + 20" "4 dvd h + 24" "4 dvd h + 28"
    "4 dvd h + 32" "4 dvd h + 36" "4 dvd h + 40" "4 dvd h + 44" "4 dvd h + 48" "4 dvd h + 52"
    using assms by presburger+
  with assms show ?thesis
    by (simp add: init_words_def Let_def WSIZE_def DSIZE_def PACK_def words_PUT)
qed

lemma init_words_fields: "same_fields s (init_words h s)"
  by (simp add: init_words_def Let_def)

lemma empty_heap:
  assumes w: "words s = words (init_words h t)" and h: "8 dvd h" "0 < h"
    and f: "mem_start_brk s = h" "block_list_start s = h" "heap_listp s = h + 48" "mem_brk s = h + 56"
      "mem_brk s \<le> mem_max_addr s" "mem_max_addr s < 4294967296"
  shows "heap_inv s []"
proof -
  have w': "words s = words (init_words h t)" by (rule w)
  have four: "4 dvd h" using h(1) by (rule dvd8_dvd4)
  have roots: "words s (h + 4 * i) = 0" if "i \<in> {0..<10}" for i
  proof -
    have "i = 0 \<or> i = 1 \<or> i = 2 \<or> i = 3 \<or> i = 4 \<or> i = 5 \<or> i = 6 \<or> i = 7 \<or> i = 8 \<or> i = 9"
      using that unfolding atLeastLessThan_iff by presburger
    then show ?thesis by (auto simp: w init_words_words [OF four])
  qed
  have "class_list (words s) h i []" if "i \<in> {0..<10}" for i
    using roots [OF that] by (simp add: class_list_def)
  then have "free_lists (words s) h {}"
    unfolding free_lists_def in_class_def by (auto intro!: exI [of _ "[]"])
  with h f show ?thesis
    by (simp add: heap_inv_def heap_shape_def w init_words_words [OF four])
qed

definition mm_ok :: "mm \<Rightarrow> blk list \<Rightarrow> bool" where
  "mm_ok s bs \<longleftrightarrow> heap_inv s bs \<and> bs \<noteq> []"

lemma mm_init_spec:
  assumes h: "mem_brk s = mem_start_brk s" "8 dvd mem_start_brk s" "0 < mem_start_brk s"
    and top: "mem_max_addr s < 4294967296"
  shows "mem_start_brk s + 4152 \<le> mem_max_addr s \<Longrightarrow>
      \<exists>s'. mm_init g s = Some (0, s') \<and> mm_ok s' [(4096, False)] \<and>
        block_list_start s' = mem_start_brk s \<and> mem_max_addr s' = mem_max_addr s \<and>
        gl_ranges s' = g \<and> ranges s' = ranges s"
    and "mem_max_addr s < mem_start_brk s + 4152 \<Longrightarrow> mem_start_brk s + 4152 < 4294967296 \<Longrightarrow>
      \<exists>s'. mm_init g s = Some (-1, s')"
proof -
  let ?h = "mem_start_brk s"
  define s1 where "s1 = s\<lparr>mem_brk := ?h + 56, heap_listp := ?h\<rparr>"
  define s2 where "s2 = (init_words ?h s1)\<lparr>block_list_start := ?h, heap_listp := ?h + 48\<rparr>"
  have w2: "words s2 = words (init_words ?h s1)" by (simp add: s2_def view_def GET_def fun_eq_iff)
  note F = same_fieldsD [OF init_words_fields [of s1 ?h]]
  have f2: "mem_start_brk s2 = ?h" "block_list_start s2 = ?h" "heap_listp s2 = ?h + 48"
    "mem_brk s2 = ?h + 56" "mem_max_addr s2 = mem_max_addr s" "gl_ranges s2 = gl_ranges s" "ranges s2 = ranges s"
    using F by (simp_all add: s2_def s1_def)
  have sbrk: "mem_sbrk (14 * WSIZE) s = Some (?h, s\<lparr>mem_brk := ?h + 56\<rparr>)" if "?h + 56 \<le> mem_max_addr s"
    using that h(1,3) top by (simp add: mem_sbrk_exact WSIZE_def)
  have init: "mm_init g s = extend_heap 512 s2 \<bind>
      (\<lambda>(bp, s). Some (if bp = NULL then (-1, s) else (0, s\<lparr>gl_ranges := g\<rparr>)))" if "?h + 56 \<le> mem_max_addr s"
    using F(4) unfolding mm_init_def sbrk [OF that]
    by (simp add: Let_def CHUNKSIZE_def DSIZE_def s2_def s1_def WSIZE_def)
  have inv: "heap_inv s2 []" if "?h + 56 \<le> mem_max_addr s"
    by (rule empty_heap [OF w2 h(2,3)]) (use f2 that top in simp_all)
  have z: "4096 = extend_size 512" by (simp add: extend_size_def)
  show "\<exists>s'. mm_init g s = Some (0, s') \<and> mm_ok s' [(4096, False)] \<and>
        block_list_start s' = mem_start_brk s \<and> mem_max_addr s' = mem_max_addr s \<and>
        gl_ranges s' = g \<and> ranges s' = ranges s" if big: "?h + 4152 \<le> mem_max_addr s"
  proof -
    from extend_heap_inv(1) [OF inv _ _ z] big f2 obtain s3 where
      s3: "extend_heap 512 s2 = Some (?h + 56, s3)" "heap_inv s3 [(4096, False)]" "grown 4096 s2 s3"
      by (auto simp: merge_left_def abs_coalesce_def)
    note G = grownD [OF s3(3)]
    have "heap_inv (s3\<lparr>gl_ranges := g\<rparr>) [(4096, False)]" using s3(2) by simp
    moreover have "mm_init g s = Some (0, s3\<lparr>gl_ranges := g\<rparr>)" using init big s3(1) h(3) by simp
    ultimately show ?thesis using G f2 by (simp add: mm_ok_def)
  qed
  show "\<exists>s'. mm_init g s = Some (-1, s')" if small: "mem_max_addr s < ?h + 4152" "?h + 4152 < 4294967296"
  proof (cases "?h + 56 \<le> mem_max_addr s")
    case True
    from extend_heap_inv(2) [OF inv [OF True] _ _ z] small f2 have "extend_heap 512 s2 = Some (NULL, s2)" by simp
    with init [OF True] show ?thesis by simp
  next
    case False
    then have "mem_sbrk (14 * WSIZE) s = None" using h(1,3) small by (simp add: mem_sbrk_exact WSIZE_def)
    then show ?thesis by (simp add: mm_init_def)
  qed
qed

subsection \<open>Allocation\<close>

text \<open>The abstract allocator. A request for \<open>a\<close> bytes takes a smallest free block that can hold it;
  with none, the heap grows by at least a page and the request is placed in the last block.\<close>

definition fits_best :: "int \<Rightarrow> int \<Rightarrow> blk list \<Rightarrow> bool" where
  "fits_best a z bs \<longleftrightarrow> a \<le> z \<and> (\<forall>y. (y, False) \<in> set bs \<longrightarrow> a \<le> y \<longrightarrow> z \<le> y)"

definition no_fit :: "int \<Rightarrow> blk list \<Rightarrow> bool" where
  "no_fit a bs \<longleftrightarrow> (\<forall>y. (y, False) \<in> set bs \<longrightarrow> y < a)"

definition grow_size :: "int \<Rightarrow> int" where
  "grow_size a = extend_size (MAX_macro a CHUNKSIZE div DSIZE)"

inductive alloc_step :: "blk list \<Rightarrow> int \<Rightarrow> int \<Rightarrow> blk list \<Rightarrow> bool" where
  fit: "fits_best a z (L @ (z, False) # R) \<Longrightarrow>
    alloc_step (L @ (z, False) # R) a (extent L) (abs_place L z a R)"
| grow: "no_fit a bs \<Longrightarrow> merge_left bs (grow_size a) = (L, z) \<Longrightarrow>
    alloc_step bs a (extent L) (abs_place L z a [])"

inductive free_step :: "blk list \<Rightarrow> int \<Rightarrow> blk list \<Rightarrow> bool" where
  "free_step (L @ (z, True) # R) (extent L) (abs_coalesce L z R)"

inductive_cases alloc_stepE: "alloc_step bs a off bs'"
inductive_cases free_stepE: "free_step bs off bs'"

lemma adjusted_size_bounds:
  assumes "0 < n" "n < 4294967281"
  shows "8 dvd adjusted_size n" "16 \<le> adjusted_size n" "n + 8 \<le> adjusted_size n"
    "adjusted_size n \<le> n + 15" "adjusted_size n < 4294967296"
proof -
  define k where "k = (n + 15) div 8"
  have k: "8 * k \<le> n + 15" "n + 15 < 8 * k + 8" by (simp_all add: k_def)
  have "u32 (DSIZE * (u32 (n + DSIZE + (DSIZE - 1)) div DSIZE)) = 8 * k"
    using assms k by (simp add: DSIZE_def k_def)
  then have a: "adjusted_size n = (if n \<le> 8 then 16 else 8 * k)"
    by (simp add: adjusted_size_def DSIZE_def)
  show "8 dvd adjusted_size n" by (simp add: a)
  show "16 \<le> adjusted_size n" "n + 8 \<le> adjusted_size n"
    "adjusted_size n < 4294967296"
    using assms k by (auto simp: a)
  show "adjusted_size n \<le> n + 15" using assms k by (auto simp: a)
qed

lemma grow_size_bounds:
  assumes a: "8 dvd a" "16 \<le> a" "a < 4294967288"
  shows "a \<le> grow_size a" "4096 \<le> grow_size a" "8 dvd grow_size a"
    "2 \<le> MAX_macro a CHUNKSIZE div DSIZE" "MAX_macro a CHUNKSIZE div DSIZE < 536870911"
proof -
  define e where "e = MAX_macro a CHUNKSIZE"
  have e: "8 dvd e" "a \<le> e" "4096 \<le> e" "e < 4294967288" using a by (auto simp: e_def MAX_macro_def CHUNKSIZE_def)
  then obtain k where k: "e = 8 * k" by (auto elim: dvdE)
  have g: "grow_size a = 8 * (k + k mod 2)" by (simp add: grow_size_def extend_size_def DSIZE_def e_def [symmetric] k)
  have m: "0 \<le> k mod 2" by simp
  show "a \<le> grow_size a" "4096 \<le> grow_size a" using e k m unfolding g by (simp_all add: distrib_left)
  show "8 dvd grow_size a" by (simp add: g)
  show "2 \<le> MAX_macro a CHUNKSIZE div DSIZE" "MAX_macro a CHUNKSIZE div DSIZE < 536870911"
    using e by (simp_all add: e_def [symmetric] DSIZE_def k)
qed

text \<open>Both steps add exactly one allocated block.\<close>

lemma allocs_place:
  assumes "16 \<le> a" "a \<le> z"
  shows "\<exists>y. a \<le> y \<and> y \<le> z \<and> allocs f (abs_place L z a R) =
    insert (f + extent L, y) (allocs f (L @ (z, False) # R))"
proof (cases "16 \<le> z - a")
  case True
  with assms have "allocs f (abs_place L z a R) = insert (f + extent L, a) (allocs f (L @ (z, False) # R))"
    by (auto simp: abs_place_def add.assoc)
  with assms show ?thesis by auto
qed (use assms in \<open>auto simp: abs_place_def add.assoc intro!: exI [of _ z]\<close>)

lemma allocs_merge_left:
  "merge_left bs e = (L, z) \<Longrightarrow> allocs f (L @ [(z, False)]) = allocs f bs"
  by (cases bs rule: rev_cases) (auto simp: merge_left_def split: if_splits)

lemma merge_left_size: "sizes_ok bs \<Longrightarrow> merge_left bs e = (L, z) \<Longrightarrow> e \<le> z"
  by (cases bs rule: rev_cases) (auto simp: merge_left_def split: if_splits)

lemma alloc_step_allocs:
  assumes "alloc_step bs a off bs'" "sizes_ok bs" "8 dvd a" "16 \<le> a" "a < 4294967288"
  shows "\<exists>y. a \<le> y \<and> allocs f bs' = insert (f + off, y) (allocs f bs)"
  using assms
proof (cases rule: alloc_step.cases)
  case (fit z L R)
  with allocs_place [of a z f L R] assms(4) show ?thesis by (auto simp: fits_best_def)
next
  case (grow L z)
  have "a \<le> z" using grow_size_bounds(1) [OF assms(3-5)] merge_left_size [OF assms(2) grow(4)] by simp
  with allocs_place [of a z f L "[]"] allocs_merge_left [OF grow(4)] assms(4) grow show ?thesis by auto
qed

text \<open>The new block is none of the old ones.\<close>

lemma alloc_step_fresh:
  assumes "alloc_step bs a off bs'" "sizes_ok bs"
  shows "(f + off, y) \<notin> allocs f bs"
  using assms(1)
proof (cases rule: alloc_step.cases)
  case (fit z L R)
  then have "sizes_ok L" "sizes_ok R" "16 \<le> z" using assms(2) by auto
  then show ?thesis
    using allocs_bounds(2,3) [of L "f + extent L" y f] allocs_bounds(1) [of R "f + extent L" y "f + extent L + z"]
    by (auto simp: fit)
next
  case (grow L z)
  have "allocs f bs = allocs f L" "sizes_ok L"
    using allocs_merge_left [OF grow(4), of f] grow(4) assms(2)
    by (cases bs rule: rev_cases; auto simp: merge_left_def split: if_splits)+
  then show ?thesis using allocs_bounds(2,3) [of L "f + extent L" y f] by (auto simp: grow)
qed

text \<open>Whether a request ends in a block or in NULL is decided by the layout alone.\<close>

definition can_grow :: "mm \<Rightarrow> int \<Rightarrow> bool" where
  "can_grow s a \<longleftrightarrow> grow_size a < 2147483648 \<and> mem_brk s + grow_size a \<le> mem_max_addr s"

text \<open>The sum that \<^verbatim>\<open>mem_sbrk\<close> compares does not wrap; a growth that is no \<^verbatim>\<open>int\<close> is refused before it is added.\<close>

definition in_space :: "mm \<Rightarrow> int \<Rightarrow> bool" where
  "in_space s a \<longleftrightarrow> (grow_size a < 2147483648 \<longrightarrow> mem_brk s + grow_size a < 4294967296)"

definition only_heap_changed :: "mm \<Rightarrow> mm \<Rightarrow> bool" where
  "only_heap_changed s s' \<longleftrightarrow> same_fields (s\<lparr>mem_brk := mem_brk s'\<rparr>) s' \<and> mem_brk s \<le> mem_brk s'"

lemma same_fields_heap: "same_fields s s' \<Longrightarrow> only_heap_changed s s'"
  by (simp add: only_heap_changed_def same_fields_def)

lemma grown_heap: "grown n s s' \<Longrightarrow> 0 \<le> n \<Longrightarrow> only_heap_changed s s'"
  by (simp add: only_heap_changed_def grown_def same_fields_def)

lemma inv_mem_frees: "(y, False) \<in> set bs \<longleftrightarrow> (\<exists>p. (p, y) \<in> frees a bs)"
  by (induction a bs rule: blocks.induct) (auto simp: frees_def)

lemma mm_malloc_fit:
  assumes ok: "mm_ok s bs" and n: "0 < n" "n < 4294967273" and a: "a = adjusted_size n"
    and fit: "\<not> no_fit a bs"
  shows "\<exists>off bs' s'. mm_malloc n s = Some (first_block s + off, s') \<and> alloc_step bs a off bs' \<and>
    mm_ok s' bs' \<and> same_fields s s' \<and> keeps (allocs (first_block s) bs) s s'"
proof -
  let ?f = "first_block s"
  have inv: "heap_inv s bs" using ok by (simp add: mm_ok_def)
  then have sh: "heap_shape s bs (frees ?f bs)" by (simp add: heap_inv_def)
  note D = heap_shapeD [OF sh]
  note A = adjusted_size_bounds [OF n(1), folded a]
  from find_fit_best [OF D(13) shape_free_ok [OF sh D(14)] D(4), of a] obtain p where
    p: "find_fit a s = Some p" "best_fit a (frees ?f bs) p" by blast
  have "p \<noteq> 0"
  proof
    assume "p = 0"
    with p(2) have "snd b < a" if "b \<in> frees ?f bs" for b using that by (simp add: best_fit_def)
    then have "no_fit a bs" by (force simp: no_fit_def inv_mem_frees [where a = ?f])
    with fit show False ..
  qed
  with p(2) obtain z where z: "(p, z) \<in> frees ?f bs" "a \<le> z" "\<forall>c \<in> frees ?f bs. a \<le> snd c \<longrightarrow> z \<le> snd c"
    by (auto simp: best_fit_def)
  then obtain L R where LR: "bs = L @ (z, False) # R" "p = ?f + extent L"
    by (auto simp: frees_def elim: blocks_split)
  have best: "fits_best a z bs" using z(2,3) by (force simp: fits_best_def inv_mem_frees [where a = ?f])
  from place_inv [OF inv [unfolded LR(1)] LR(2), of a] A(1,2) n z(2) obtain s' where
    s': "place p a s = Some s'" "heap_inv s' (abs_place L z a R)" "same_fields s s'"
      "keeps (allocs ?f L \<union> allocs (p + z) R) s s'" by auto
  have "mm_malloc n s = Some (p, s')"
    using n p(1) \<open>p \<noteq> 0\<close> s'(1) by (simp add: mm_malloc_def a [symmetric])
  moreover have "alloc_step bs a (extent L) (abs_place L z a R)"
    unfolding LR(1) by (rule alloc_step.fit) (use best LR(1) in simp)
  moreover have "abs_place L z a R \<noteq> []" by (simp add: abs_place_def)
  moreover have "allocs ?f bs = allocs ?f L \<union> allocs (p + z) R" by (simp add: LR add.assoc)
  ultimately show ?thesis using s' LR(2) by (auto simp: mm_ok_def)
qed

lemma find_fit_null:
  assumes "mm_ok s bs" "no_fit a bs"
  shows "find_fit a s = Some NULL"
proof -
  have sh: "heap_shape s bs (frees (first_block s) bs)" using assms(1) by (simp add: mm_ok_def heap_inv_def)
  note D = heap_shapeD [OF sh]
  from find_fit_best [OF D(13) shape_free_ok [OF sh D(14)] D(4), of a] obtain p where
    p: "find_fit a s = Some p" "best_fit a (frees (first_block s) bs) p" by blast
  have "p = 0"
    using p(2) assms(2)
    by (force simp: best_fit_def no_fit_def inv_mem_frees [where a = "first_block s"] split: if_splits)
  with p(1) show ?thesis by simp
qed

lemma mm_malloc_grow:
  assumes ok: "mm_ok s bs" and n: "0 < n" "n < 4294967273" and a: "a = adjusted_size n"
    and fit: "no_fit a bs"
  shows "can_grow s a \<Longrightarrow> \<exists>off bs' s'. mm_malloc n s = Some (first_block s + off, s') \<and>
      alloc_step bs a off bs' \<and> mm_ok s' bs' \<and> only_heap_changed s s' \<and>
      keeps (allocs (first_block s) bs) s s' \<and> mem_brk s' = mem_brk s + grow_size a"
    and "\<not> can_grow s a \<Longrightarrow> in_space s a \<Longrightarrow> mm_malloc n s = Some (NULL, s)"
proof -
  let ?f = "first_block s" and ?d = "MAX_macro a CHUNKSIZE div DSIZE" and ?g = "grow_size a"
  have inv: "heap_inv s bs" using ok by (simp add: mm_ok_def)
  then have sh: "heap_shape s bs (frees ?f bs)" by (simp add: heap_inv_def)
  note D = heap_shapeD [OF sh]
  note A = adjusted_size_bounds [OF n(1), folded a]
  have A': "a < 4294967288" using A(4) n(2) by linarith
  note G = grow_size_bounds [OF A(1,2) A'] 
  have malloc: "mm_malloc n s = extend_heap ?d s \<bind> (\<lambda>(bp, s). if bp = NULL then Some (NULL, s)
      else place bp a s \<bind> (\<lambda>s. Some (bp, s)))"
    using n find_fit_null [OF ok fit] by (simp add: mm_malloc_def a [symmetric] Let_def)
  show "mm_malloc n s = Some (NULL, s)" if "\<not> can_grow s a" "in_space s a"
  proof -
    have "extend_heap ?d s = Some (NULL, s)"
      using extend_heap_inv(2) [OF inv G(4,5), of ?g] that n by (auto simp: grow_size_def can_grow_def in_space_def)
    then show ?thesis by (simp add: malloc)
  qed
  assume grow: "can_grow s a"
  obtain L z where m: "merge_left bs ?g = (L, z)" by fastforce
  from extend_heap_inv(1) [OF inv G(4,5), of ?g] grow n obtain s1 where
    s1: "extend_heap ?d s = Some (?f + extent L, s1)" "heap_inv s1 (L @ (z, False) # [])" "grown ?g s s1"
      "keeps (allocs ?f bs) s s1"
    by (auto simp: can_grow_def grow_size_def m [unfolded grow_size_def] abs_coalesce_def)
  have okL: "sizes_ok L" using s1(2) by (auto simp: heap_inv_def dest: heap_shapeD)
  have az: "a \<le> z" using merge_left_size [OF D(7) m] G(1) n by simp
  have f1: "?f + extent L = first_block s1 + extent L" using grownD [OF s1(3)] by simp
  from place_inv [OF s1(2) f1, of a] A(1,2) n az obtain s' where
    s': "place (?f + extent L) a s1 = Some s'" "heap_inv s' (abs_place L z a [])" "same_fields s1 s'"
      "keeps (allocs (first_block s1) L \<union> allocs (?f + extent L + z) []) s1 s'" by auto
  have "?f + extent L \<noteq> 0" using D(2) extent_nonneg [OF okL] by simp
  then have "mm_malloc n s = Some (?f + extent L, s')" using s1(1) s'(1) by (simp add: malloc)
  moreover have "alloc_step bs a (extent L) (abs_place L z a [])" by (rule alloc_step.grow) fact+
  moreover have "abs_place L z a [] \<noteq> []" by (simp add: abs_place_def)
  moreover have "keeps (allocs ?f bs) s s'"
    using allocs_merge_left [OF m, of ?f] grownD [OF s1(3)]
    by (intro keeps_trans [OF s1(4)] keeps_mono [OF s'(4)]) auto
  moreover have "only_heap_changed s s'"
    using grown_same [OF s1(3) s'(3)] G(2) n by (intro grown_heap) auto
  moreover have "mem_brk s' = mem_brk s + grow_size a"
    using grownD(2) [OF grown_same [OF s1(3) s'(3)]] .
  ultimately show "\<exists>off bs' s'. mm_malloc n s = Some (first_block s + off, s') \<and>
      alloc_step bs a off bs' \<and> mm_ok s' bs' \<and> only_heap_changed s s' \<and>
      keeps (allocs (first_block s) bs) s s' \<and> mem_brk s' = mem_brk s + grow_size a"
    using s'(2) by (auto simp: mm_ok_def)
qed

subsection \<open>Deallocation\<close>

definition ranges_after_free :: "addr \<Rightarrow> mm \<Rightarrow> range_t list" where
  "ranges_after_free p s = (if gl_ranges s then remove_range p (ranges s) else ranges s)"

lemma mm_free_inv:
  assumes inv: "heap_inv s (L @ (z, True) # R)" and p: "p = first_block s + extent L"
  shows "\<exists>s'. mm_free p s = Some s' \<and> heap_inv s' (abs_coalesce L z R) \<and>
    same_fields (s\<lparr>ranges := ranges_after_free p s\<rparr>) s' \<and>
    keeps (allocs (first_block s) L \<union> allocs (p + z) R) s s' \<and>
    (L \<noteq> [] \<and> \<not> snd (last L) \<longrightarrow> words s' (p - 4) = z \<and>
       (R \<noteq> [] \<and> \<not> snd (hd R) \<longrightarrow> words s' (p + z - 4) = fst (hd R)))"
proof -
  let ?f = "first_block s" and ?F = "frees (first_block s) L \<union> frees (p + z) R"
  have sh: "heap_shape s (L @ [(z, True)] @ R) ?F" and adj: "no_adjacent L" "no_adjacent R"
    using inv by (auto simp: heap_inv_def p add.assoc no_adjacent_append no_adjacent_Cons)
  note D = heap_shapeD [OF sh]
  have ok: "sizes_ok L" "8 dvd z" "16 \<le> z" "sizes_ok R" using D(7) by auto
  have pp: "8 dvd p" "0 < p" "p + z < 4294967296" using D(1,2,9,11,12) extent_nonneg [OF ok(1)] extent_nonneg [OF ok(4)]
      extent_dvd [OF ok(1)] by (simp_all add: p)
  note S = seam_reads [OF sh [unfolded append.simps] p]
  have four: "4 dvd p - 4" "4 dvd p + z - 8" "4 dvd p" "4 dvd p + 4"
    using around_dvd4 [OF pp(1) ok(2)] dvd8_add4 [OF pp(1)] dvd8_dvd4 [OF pp(1)] by simp_all
  have sz: "GET_SIZE s (HDRP p) = z" using S(3) ok four by (simp add: HDRP_def WSIZE_def GET_SIZE_words)
  define s1 where "s1 = PUT (HDRP p) (PACK z 0) s"
  define s2 where "s2 = PUT (FTRP s1 p) (PACK z 0) s1"
  define s3 where "s3 = PUT (NEXT_LINKNODE_RP p) NULL s2"
  define s4 where "s4 = PUT (PREV_LINKNODE_RP p) NULL s3"
  have w1: "words s1 = (words s)(p - 4 := z)"
    unfolding s1_def HDRP_def WSIZE_def PACK_0 using pp four ok by (intro words_u32) auto
  have ftr: "FTRP s1 p = p + z - 8"
    using ok four by (simp add: FTRP_def HDRP_def WSIZE_def DSIZE_def GET_SIZE_words w1)
  have w2: "words s2 = (words s1)(p + z - 8 := z)"
    unfolding s2_def ftr PACK_0 using pp four ok by (intro words_u32) auto
  have w4: "words s4 = (words s)(p - 4 := z, p + z - 8 := z, p + 4 := 0, p := 0)"
    using four by (simp add: s4_def s3_def PREV_LINKNODE_RP_def NEXT_LINKNODE_RP_def WSIZE_def words_PUT w2 w1)
  have sf: "same_fields s s4" by (simp add: s4_def s3_def s2_def s1_def)
  note e4 = same_fieldsD [OF sf]
  have F: "?F \<subseteq> frees ?f L \<union> frees (?f + extent L + extent [(z, True)]) R" by (simp add: p)
  have M': "sizes_ok [(z, False)]" "extent [(z, False)] = extent [(z, True)]" using ok by simp_all
  have tg: "tagged (words s4) (?f + extent L) [(z, False)]" using ok by (simp add: w4 p [symmetric])
  have frame: "words s4 q = words s q"
    if "q < ?f + extent L - 4 \<or> ?f + extent L + extent [(z, True)] - 4 \<le> q" for q
    using that ok by (auto simp: w4 p)
  note r = shape_recut [OF sh sf F M' tg frame]
  have pend: "pending s4 L z R" using r(1) adj by (simp add: pending_def e4 p)
  have p4: "p = first_block s4 + extent L" by (simp add: e4 p)
  from coalesce_pending [OF pend p4] obtain s5 where
    s5: "coalesce p s4 = Some (first_block s4 + extent (fst (merge_left L z)), s5)"
      "heap_inv s5 (abs_coalesce L z R)" "same_fields s4 s5"
      "keeps (allocs (first_block s4) L \<union> allocs (p + z) R) s4 s5"
      "L \<noteq> [] \<and> \<not> snd (last L) \<longrightarrow> words s5 (p - 4) = z \<and>
       (R \<noteq> [] \<and> \<not> snd (hd R) \<longrightarrow> words s5 (p + z - 4) = fst (hd R))"
    by blast
  note e5 = same_fieldsD [OF same_fields_trans [OF sf s5(3)]]
  let ?s' = "s5\<lparr>ranges := ranges_after_free p s\<rparr>"
  have "mm_free p s = Some (if gl_ranges s5 then s5\<lparr>ranges := remove_range p (ranges s5)\<rparr> else s5)"
    using pp(2) unfolding mm_free_def Let_def sz
    by (simp del: PACK_0 add: s1_def [symmetric] s2_def [symmetric] s3_def [symmetric] s4_def [symmetric] s5(1))
  then have "mm_free p s = Some ?s'" using e5 by (cases s5) (simp add: ranges_after_free_def)
  moreover have "same_fields (s\<lparr>ranges := ranges_after_free p s\<rparr>) ?s'"
    using e5 by (simp add: same_fields_def)
  moreover have "keeps (allocs ?f L \<union> allocs (p + z) R) s ?s'"
  proof -
    have "keeps (allocs ?f L \<union> allocs (p + z) R) s s5"
      by (rule keeps_trans [OF r(2) [folded p, simplified] keeps_mono [OF s5(4)]]) (simp add: e4)
    then show ?thesis by (simp add: keeps_def words_ranges)
  qed
  ultimately show ?thesis using s5(2,5) by (auto simp: words_ranges)
qed

lemma allocs_coalesce: "allocs f (abs_coalesce L z R) = allocs f L \<union> allocs (f + extent L + z) R"
proof -
  obtain L' z1 where l: "merge_left L z = (L', z1)" by fastforce
  obtain z2 R' where r: "merge_right z1 R = (z2, R')" by fastforce
  have "allocs f L' = allocs f L \<and> f + extent L' + z1 = f + extent L + z"
    using l by (cases L rule: rev_cases) (auto simp: merge_left_def split: if_splits)
  moreover have "allocs (f + extent L' + z2) R' = allocs (f + extent L' + z1) R"
    using r by (cases "(z1, R)" rule: merge_right.cases) (auto simp: add.assoc)
  ultimately show ?thesis by (simp add: abs_coalesce_def l r) (metis add.assoc)
qed

lemma abs_coalesce_nonempty: "abs_coalesce L z R \<noteq> []"
  by (simp add: abs_coalesce_def split: prod.split)

text \<open>The blocks of a layout have distinct addresses.\<close>

lemma block_unique:
  assumes "sizes_ok bs" "(p, z) \<in> allocs a bs" "(q, y) \<in> allocs a bs"
  shows "(p, z) = (q, y) \<or> p + z \<le> q \<or> q + y \<le> p"
  using blocks_disjoint [of bs p z True a q y True] assms by (auto simp: allocs_def)

lemma mm_free_step:
  assumes ok: "mm_ok s bs" and p: "(p, z) \<in> allocs (first_block s) bs"
  shows "\<exists>bs' s'. mm_free p s = Some s' \<and> free_step bs (p - first_block s) bs' \<and> mm_ok s' bs' \<and>
    same_fields (s\<lparr>ranges := ranges_after_free p s\<rparr>) s' \<and>
    allocs (first_block s) bs' = allocs (first_block s) bs - {(p, z)} \<and>
    keeps (allocs (first_block s) bs') s s'"
proof -
  let ?f = "first_block s"
  from p obtain L R where LR: "bs = L @ (z, True) # R" "p = ?f + extent L"
    by (auto simp: allocs_def elim: blocks_split)
  have inv: "heap_inv s bs" using ok by (simp add: mm_ok_def)
  have sz: "sizes_ok L" "sizes_ok R" "16 \<le> z" using inv LR(1) by (auto simp: heap_inv_def dest: heap_shapeD)
  from mm_free_inv [OF inv [unfolded LR(1)] LR(2)] obtain s' where
    s': "mm_free p s = Some s'" "heap_inv s' (abs_coalesce L z R)"
      "same_fields (s\<lparr>ranges := ranges_after_free p s\<rparr>) s'"
      "keeps (allocs ?f L \<union> allocs (p + z) R) s s'"
    by blast
  have "(p, z) \<notin> allocs ?f L" using allocs_bounds [OF sz(1), of p z ?f] LR(2) sz(3) by auto
  moreover have "(p, z) \<notin> allocs (p + z) R" using allocs_bounds(1) [OF sz(2), of p z "p + z"] sz(3) by auto
  ultimately have "allocs ?f (abs_coalesce L z R) = allocs ?f bs - {(p, z)}"
    by (auto simp: allocs_coalesce LR add.assoc)
  moreover have "allocs ?f (abs_coalesce L z R) = allocs ?f L \<union> allocs (p + z) R"
    by (simp add: allocs_coalesce LR)
  moreover have "free_step bs (p - ?f) (abs_coalesce L z R)"
    using free_step.intros [of L z R] LR by simp
  ultimately show ?thesis using s' abs_coalesce_nonempty by (auto simp: mm_ok_def)
qed

subsection \<open>The final sweep\<close>

text \<open>\<open>mm_exit\<close> frees the blocks in address order while it steps over their headers. A block it frees is
  merged into the free block on its left, so the headers it goes on reading are stale copies
  inside that block; \<open>mm_free_inv\<close> says that they still hold the old sizes.\<close>

fun alloc_addrs :: "addr \<Rightarrow> blk list \<Rightarrow> addr list" where
  "alloc_addrs a [] = []"
| "alloc_addrs a ((z, al) # bs) = (if al then a # alloc_addrs (a + z) bs else alloc_addrs (a + z) bs)"

definition exit_ranges :: "addr \<Rightarrow> blk list \<Rightarrow> mm \<Rightarrow> range_t list" where
  "exit_ranges a bs s = (if gl_ranges s then fold remove_range (alloc_addrs a bs) (ranges s) else ranges s)"

lemma alloc_addrs_set: "set (alloc_addrs a bs) = fst ` allocs a bs"
proof (induction a bs rule: alloc_addrs.induct)
  case (2 a z al bs)
  then show ?case by (cases al) simp_all
qed simp

text \<open>The header of a block: what the sweep reads at it.\<close>

lemma header_reads:
  assumes "words s (p - 4) = tag_of z al" "8 dvd p" "8 dvd z"
  shows "GET_ALLOC s (HDRP p) = of_bool al" "NEXT_BLKP s p = p + z"
  using assms around_dvd4 [of p 0]
  by (simp_all add: HDRP_def WSIZE_def GET_ALLOC_words GET_SIZE_words NEXT_BLKP_def)

lemma exit_loop_from:
  assumes "heap_inv s ((x, False) # R)" "p2 = mem_brk s - 1" "q = first_block s + x"
  shows "\<exists>s'. exit_loop p2 (if q > p2 then NULL else q) s = Some s' \<and>
    heap_inv s' [(x + extent R, False)] \<and> same_fields (s\<lparr>ranges := exit_ranges q R s\<rparr>) s'"
  using assms
proof (induction R arbitrary: s x q rule: length_induct)
  case (1 R)
  have sh: "heap_shape s ((x, False) # R) (frees (first_block s) ((x, False) # R))" and adj: "no_adjacent ((x, False) # R)"
    using 1(2) by (simp_all add: heap_inv_def)
  note D = heap_shapeD [OF sh]
  have ok: "8 dvd x" "16 \<le> x" "sizes_ok R" using D(7) by simp_all
  have q: "q = first_block s + extent [(x, False)]" "8 dvd q" "0 < q" using 1(4) D(1,2) ok by simp_all
  show ?case
  proof (cases R)
    case Nil
    then have "q > p2" using 1(3,4) D(9) by simp
    then show ?thesis using Nil 1(2) by (simp add: exit_loop.simps exit_ranges_def)
  next
    case (Cons b R1)
    then obtain z where b: "b = (z, True)" "8 dvd z" "16 \<le> z" "sizes_ok R1"
      using adj ok(3) by (cases b) auto
    have bs: "(x, False) # R = [(x, False)] @ (z, True) # R1" using Cons b by simp
    have "q \<le> p2" using 1(3,4) D(9) Cons b extent_nonneg [OF b(4)] by simp
    have "words s (q - 4) = tag_of z True" by (rule seam_reads(3) [OF sh [unfolded bs] q(1)])
    note hd = header_reads [OF this q(2) b(2)]
    from mm_free_inv [OF 1(2) [unfolded bs] q(1)] obtain s1 where
      s1: "mm_free q s = Some s1" "heap_inv s1 (abs_coalesce [(x, False)] z R1)"
        "same_fields (s\<lparr>ranges := ranges_after_free q s\<rparr>) s1" "words s1 (q - 4) = z" and
      stale: "R1 \<noteq> [] \<Longrightarrow> \<not> snd (hd R1) \<Longrightarrow> words s1 (q + z - 4) = fst (hd R1)"
      by auto
    note e1 = same_fieldsD [OF s1(3), simplified]
    have nxt: "NEXT_BLKP s1 q = q + z" using header_reads(2) [of s1 q z False] s1(4) q(2) b(2) by simp
    have step: "exit_loop p2 (if q > p2 then NULL else q) s = exit_loop p2 (if q + z > p2 then NULL else q + z) s1"
      using \<open>q \<le> p2\<close> q(3) hd(1) s1(1) nxt by (simp add: exit_loop.simps [of p2 q s])
    have rng: "ranges_after_free q s = exit_ranges q [(z, True)] s" by (simp add: ranges_after_free_def exit_ranges_def)
    have p2: "p2 = mem_brk s1 - 1" using 1(3) e1 by simp
    show ?thesis
    proof (cases "R1 = [] \<or> snd (hd R1)")
      case True
      then have "merge_right n R1 = (n, R1)" for n by (cases R1) (auto elim: merge_right.elims)
      then have "heap_inv s1 ((x + z, False) # R1)" using s1(2) by (simp add: abs_coalesce_def merge_left_def add.commute)
      moreover have "q + z = first_block s1 + (x + z)" using e1 1(4) by simp
      moreover have "length R1 < length R" using Cons by simp
      ultimately obtain s' where "exit_loop p2 (if q + z > p2 then NULL else q + z) s1 = Some s'"
        "heap_inv s' [(x + z + extent R1, False)]" "same_fields (s1\<lparr>ranges := exit_ranges (q + z) R1 s1\<rparr>) s'"
        using 1(1) p2 by blast
      with step e1 show ?thesis
        unfolding Cons b(1) by (auto simp: add.assoc same_fields_def exit_ranges_def ranges_after_free_def)
    next
      case False
      then obtain y R' where R1: "R1 = (y, False) # R'" by (metis (full_types) list.collapse prod.collapse)
      then have y: "8 dvd y" "16 \<le> y" "sizes_ok R'" using b(4) by simp_all
      have inv1: "heap_inv s1 ((x + z + y, False) # R')" using s1(2) R1 by (simp add: abs_coalesce_def merge_left_def add.commute)
      have "words s1 (q + z - 4) = tag_of y False" using stale R1 by simp
      note hd1 = header_reads [OF this _ y(1)]
      have "q + z \<le> p2" using 1(3,4) D(9) Cons b R1 y extent_nonneg [OF y(3)] by simp
      then have step1: "exit_loop p2 (if q + z > p2 then NULL else q + z) s1 =
          exit_loop p2 (if q + z + y > p2 then NULL else q + z + y) s1"
        using q(2,3) b hd1 by (simp add: exit_loop.simps [of p2 "q + z" s1])
      have "q + z + y = first_block s1 + (x + z + y)" using e1 1(4) by simp
      moreover have "length R' < length R" using Cons R1 by simp
      ultimately obtain s' where "exit_loop p2 (if q + z + y > p2 then NULL else q + z + y) s1 = Some s'"
        "heap_inv s' [(x + z + y + extent R', False)]" "same_fields (s1\<lparr>ranges := exit_ranges (q + z + y) R' s1\<rparr>) s'"
        using 1(1) p2 inv1 by blast
      with step step1 e1 show ?thesis
        unfolding Cons b(1) R1 by (auto simp: add.assoc same_fields_def exit_ranges_def ranges_after_free_def)
    qed
  qed
qed

lemma mm_exit_inv:
  assumes ok: "mm_ok s bs"
  shows "\<exists>s'. mm_exit s = Some s' \<and> mm_ok s' [(extent bs, False)] \<and>
    same_fields (s\<lparr>ranges := exit_ranges (first_block s) bs s\<rparr>) s'"
proof -
  let ?f = "first_block s" and ?p2 = "mem_brk s - 1"
  have inv: "heap_inv s bs" using ok by (simp add: mm_ok_def)
  then have sh: "heap_shape s bs (frees ?f bs)" and adj: "no_adjacent bs" by (simp_all add: heap_inv_def)
  note D = heap_shapeD [OF sh]
  obtain z al R where bs: "bs = (z, al) # R" using ok by (cases bs) (auto simp: mm_ok_def)
  have ok: "8 dvd z" "16 \<le> z" "sizes_ok R" using D(7) bs by simp_all
  have f: "8 dvd ?f" "0 < ?f" using D(1,2) by simp_all
  have "words s (?f - 4) = tag_of z al" using D(8) by (simp add: bs)
  note hd = header_reads [OF this f(1) ok(1)]
  have start: "mm_exit s = exit_loop ?p2 ?f s" by (simp add: mm_exit_def mem_heap_hi_def D(4) add.commute)
  show ?thesis
  proof (cases al)
    case False
    then have "heap_inv s ((z, False) # R)" using inv bs by simp
    from exit_loop_from [OF this refl refl] obtain s' where
      s': "exit_loop ?p2 (if ?f + z > ?p2 then NULL else ?f + z) s = Some s'"
        "heap_inv s' [(z + extent R, False)]" "same_fields (s\<lparr>ranges := exit_ranges (?f + z) R s\<rparr>) s'"
      by blast
    have "mm_exit s = Some s'" using s'(1) f(2) hd False by (simp add: start exit_loop.simps [of ?p2 ?f s] cong: if_cong split del: if_split)
    with s' False show ?thesis by (auto simp: bs mm_ok_def exit_ranges_def)
  next
    case True
    then have bs': "bs = [] @ (z, True) # R" by (simp add: bs)
    from mm_free_inv [OF inv [unfolded bs'], of ?f] obtain s1 where
      s1: "mm_free ?f s = Some s1" "heap_inv s1 (abs_coalesce [] z R)"
        "same_fields (s\<lparr>ranges := ranges_after_free ?f s\<rparr>) s1" by auto
    note e1 = same_fieldsD [OF s1(3), simplified]
    obtain y R' where m: "merge_right z R = (y, R')" by fastforce
    then have inv1: "heap_inv s1 ((y, False) # R')" using s1(2) by (simp add: abs_coalesce_def merge_left_def)
    have y: "8 dvd y" "y + extent R' = z + extent R" "alloc_addrs (?f + y) R' = alloc_addrs (?f + z) R"
      using m ok by (cases "(z, R)" rule: merge_right.cases; auto simp: add.assoc)+
    have sh1: "heap_shape s1 ((y, False) # R') (frees ?f ((y, False) # R'))"
      using inv1 e1 by (simp add: heap_inv_def)
    have "words s1 (?f - 4) = tag_of y False" using heap_shapeD(8) [OF sh1] e1 by simp
    note nxt = header_reads(2) [OF this f(1) y(1)]
    have "?p2 = mem_brk s1 - 1" "?f + y = first_block s1 + y" using e1 by simp_all
    from exit_loop_from [OF inv1 this] obtain s' where
      s': "exit_loop ?p2 (if ?f + y > ?p2 then NULL else ?f + y) s1 = Some s'"
        "heap_inv s' [(y + extent R', False)]" "same_fields (s1\<lparr>ranges := exit_ranges (?f + y) R' s1\<rparr>) s'"
      by blast
    have "mm_exit s = Some s'"
      using s'(1) f(2) hd True s1(1) nxt by (simp add: start exit_loop.simps [of ?p2 ?f s] cong: if_cong split del: if_split)
    with s' e1 y True show ?thesis
      by (auto simp: bs mm_ok_def exit_ranges_def same_fields_def ranges_after_free_def)
  qed
qed

end
