(* ===== verification/MmProps.thy ===== *)
theory MmProps
  imports MmCorrect
begin

text \<open>
  The allocator seen by its clients: the contract of \<^verbatim>\<open>mm_init\<close>, \<^verbatim>\<open>mm_malloc\<close>, \<^verbatim>\<open>mm_free\<close> and
  \<^verbatim>\<open>mm_exit\<close>, and the invariant of every run of a client that allocates, writes its own
  payloads and frees. Each property is applied to the heap that \<^verbatim>\<open>mm_init\<close> builds in an arena at
  address 4096.
\<close>

definition mm_start :: mm where
  "mm_start = \<lparr>heap_mem = \<lambda>_. 0, mem_start_brk = 4096, mem_brk = 4096, mem_max_addr = 4096 + MAX_HEAP,
     heap_listp = 0, block_list_start = 0, gl_ranges = False, ranges = []\<rparr>"

definition mm_ready :: mm where
  "mm_ready = snd (the (mm_init True mm_start))"

lemma mm_start_fields [simp]:
  "mem_start_brk mm_start = 4096" "mem_brk mm_start = 4096" "mem_max_addr mm_start = 67112960"
  "ranges mm_start = []"
  by (simp_all add: mm_start_def MAX_HEAP_def)

lemma mm_ready_ok:
  "mm_ok mm_ready [(4096, False)]" "block_list_start mm_ready = 4096" "mem_max_addr mm_ready = 67112960"
  "gl_ranges mm_ready" "ranges mm_ready = []" "mem_brk mm_ready = 8248"
proof -
  have "\<exists>s'. mm_init True mm_start = Some (0, s') \<and> mm_ok s' [(4096, False)] \<and>
        block_list_start s' = 4096 \<and> mem_max_addr s' = 67112960 \<and> gl_ranges s' \<and> ranges s' = []"
    using mm_init_spec(1) [of mm_start True] by simp
  then show ok: "mm_ok mm_ready [(4096, False)]" "block_list_start mm_ready = 4096"
    "mem_max_addr mm_ready = 67112960" "gl_ranges mm_ready" "ranges mm_ready = []"
    by (auto simp: mm_ready_def)
  show "mem_brk mm_ready = 8248" using ok(1,2) by (simp add: mm_ok_def heap_inv_def heap_shape_def)
qed

text \<open>C1. \<^verbatim>\<open>mm_init\<close> on an empty arena that is aligned and has room for the prologue and the first
  page succeeds with a well-formed heap of one free block of 4096 bytes, and remembers whether it
  was given a range list; with less room it returns -1. The page does not reach the end of the address space.\<close>

theorem mm_init_correct:
  assumes "mem_brk s = mem_start_brk s" "8 dvd mem_start_brk s" "0 < mem_start_brk s" "mem_max_addr s < 2 ^ 32"
    and "mem_start_brk s + 4152 < 2 ^ 32"
  shows "if mem_start_brk s + 4152 \<le> mem_max_addr s
    then \<exists>s'. mm_init g s = Some (0, s') \<and> mm_ok s' [(4096, False)] \<and> block_list_start s' = mem_start_brk s \<and>
      gl_ranges s' = g \<and> ranges s' = ranges s
    else \<exists>s'. mm_init g s = Some (-1, s')"
  using mm_init_spec [of s g] assms by force

theorem mm_init_correct_witness:
  "\<exists>s'. mm_init True mm_start = Some (0, s') \<and> mm_ok s' [(4096, False)] \<and> gl_ranges s'"
  using mm_init_correct [of mm_start True] by auto

subsection \<open>One call\<close>

text \<open>What a client may rely on about a block it was given: aligned, inside the heap, as large as it
  asked for.\<close>

definition good_block :: "mm \<Rightarrow> int \<Rightarrow> addr \<Rightarrow> int \<Rightarrow> bool" where
  "good_block s n p z \<longleftrightarrow> IS_ALIGNED p \<and> mem_heap_lo s \<le> p \<and> p + n - 1 \<le> mem_heap_hi s \<and> n \<le> z - 8"

lemma good_blockI:
  assumes ok: "mm_ok s bs" and p: "(p, z) \<in> allocs (first_block s) bs" and n: "n \<le> z - 8"
  shows "good_block s n p z" "0 < p" "p < 4294967296"
proof -
  have "heap_shape s bs (frees (first_block s) bs)" using ok by (simp add: mm_ok_def heap_inv_def)
  note D = heap_shapeD [OF this]
  have al: "8 dvd p" using allocs_bounds(5) [OF D(7) p] D(1) by simp
  show r: "0 < p" "p < 4294967296" using allocs_bounds(1-3) [OF D(7) p] D(2,9,11,12) by linarith+
  show "good_block s n p z"
    using allocs_bounds(1-3) [OF D(7) p] al r n D(1-3,9)
    by (simp add: good_block_def IS_ALIGNED_def ALIGNMENT_def mem_heap_lo_def mem_heap_hi_def)
qed

lemma malloc_ok:
  assumes ok: "mm_ok s bs" and n: "0 < n" "n < 4294967273"
    and room: "\<not> no_fit (adjusted_size n) bs \<or> can_grow s (adjusted_size n)"
  shows "\<exists>p z bs' s'. mm_malloc n s = Some (p, s') \<and> p \<noteq> 0 \<and> mm_ok s' bs' \<and>
    alloc_step bs (adjusted_size n) (p - first_block s) bs' \<and>
    allocs (first_block s') bs' = insert (p, z) (allocs (first_block s) bs) \<and>
    good_block s' n p z \<and> (\<forall>(q, y) \<in> allocs (first_block s) bs. q + y \<le> p \<or> p + z \<le> q) \<and>
    keeps_bytes (allocs (first_block s) bs) s s' \<and> only_heap_changed s s' \<and>
    mem_brk s' \<le> mem_brk s + grow_size (adjusted_size n)"
proof -
  let ?a = "adjusted_size n" and ?f = "first_block s"
  have inv: "heap_inv s bs" using ok by (simp add: mm_ok_def)
  have sz: "sizes_ok bs" using inv by (auto simp: heap_inv_def dest: heap_shapeD)
  have n': "n < 4294967281" using n(2) by simp
  note A = adjusted_size_bounds [OF n(1) n']
  have A': "?a < 4294967288" using A(4) n(2) by linarith
  have "\<exists>off bs' s'. mm_malloc n s = Some (?f + off, s') \<and> alloc_step bs ?a off bs' \<and>
      mm_ok s' bs' \<and> only_heap_changed s s' \<and> keeps (allocs ?f bs) s s' \<and> mem_brk s' \<le> mem_brk s + grow_size ?a"
  proof (cases "no_fit ?a bs")
    case True
    with mm_malloc_grow(1) [OF ok n refl] room obtain off bs' s' where
      "mm_malloc n s = Some (?f + off, s')" "alloc_step bs ?a off bs'" "mm_ok s' bs'" "only_heap_changed s s'"
      "keeps (allocs ?f bs) s s'" "mem_brk s' = mem_brk s + grow_size ?a" by blast
    then show ?thesis by auto
  next
    case False
    have "0 \<le> grow_size ?a" using grow_size_bounds(2) [OF A(1,2) A'] by simp
    with False mm_malloc_fit [OF ok n refl] same_fields_heap same_fieldsD(2) show ?thesis by fastforce
  qed
  then obtain off bs' s' where m: "mm_malloc n s = Some (?f + off, s')" "alloc_step bs ?a off bs'"
    "mm_ok s' bs'" "only_heap_changed s s'" "keeps (allocs ?f bs) s s'" "mem_brk s' \<le> mem_brk s + grow_size ?a" by blast
  have f: "first_block s' = ?f" using m(4) by (simp add: only_heap_changed_def same_fields_def)
  from alloc_step_allocs [OF m(2) sz A(1,2) A'] obtain z where
    z: "?a \<le> z" "allocs ?f bs' = insert (?f + off, z) (allocs ?f bs)" by blast
  have nz: "n \<le> z - 8" using z(1) A(3) by simp
  have new: "(?f + off, z) \<in> allocs (first_block s') bs'" by (simp add: f z(2))
  note good = good_blockI [OF m(3) new nz]
  have apart: "q + y \<le> ?f + off \<or> ?f + off + z \<le> q" if "(q, y) \<in> allocs ?f bs" for q y
  proof -
    have sz': "sizes_ok bs'" using m(3) by (auto simp: mm_ok_def heap_inv_def dest: heap_shapeD)
    have "(q, y) \<in> allocs ?f bs'" "(?f + off, z) \<in> allocs ?f bs'" using that z(2) by auto
    from block_unique [OF sz' this] have "(q, y) = (?f + off, z) \<or> q + y \<le> ?f + off \<or> ?f + off + z \<le> q" .
    moreover have "(?f + off, z) \<notin> allocs ?f bs"
      by (rule alloc_step_fresh [OF m(2) sz])
    ultimately show ?thesis using that by auto
  qed
  have bytes: "keeps_bytes (allocs ?f bs) s s'" by (rule inv_keeps_bytes [OF inv m(5)]) simp
  show ?thesis
    by (rule exI [of _ "?f + off"], rule exI [of _ z], rule exI [of _ bs'], rule exI [of _ s'])
      (use m good z f apart bytes in auto)
qed

lemma first_fit_ready: "\<not> no_fit (adjusted_size 100) [(4096, False)]"
  by (simp add: no_fit_def adjusted_size_def DSIZE_def)

text \<open>C2. \<^verbatim>\<open>mm_malloc\<close>: a request of 1 to \<open>2 ^ 32 - 24\<close> bytes that some free block can hold, or for which the
  heap can grow, returns a block that is aligned, inside the heap, large enough and disjoint from
  every allocated block; the heap stays well formed, exactly this block is added to the allocated
  ones, no byte of another payload changes, and the layout changes by a step of the abstract
  best-fit allocator.\<close>

theorem mm_malloc_correct:
  assumes "mm_ok s bs" "0 < n" "n \<le> 2 ^ 32 - 24"
    and "\<not> no_fit (adjusted_size n) bs \<or> can_grow s (adjusted_size n)"
  shows "\<exists>p z bs' s'. mm_malloc n s = Some (p, s') \<and> p \<noteq> 0 \<and> mm_ok s' bs' \<and>
    alloc_step bs (adjusted_size n) (p - first_block s) bs' \<and>
    allocs (first_block s') bs' = insert (p, z) (allocs (first_block s) bs) \<and>
    good_block s' n p z \<and> (\<forall>(q, y) \<in> allocs (first_block s) bs. q + y \<le> p \<or> p + z \<le> q) \<and>
    keeps_bytes (allocs (first_block s) bs) s s' \<and> only_heap_changed s s'"
  using malloc_ok [OF assms(1,2) _ assms(4)] assms(3) by fastforce

theorem mm_malloc_correct_witness:
  "\<exists>p z bs' s'. mm_malloc 100 mm_ready = Some (p, s') \<and> p \<noteq> 0 \<and> mm_ok s' bs' \<and> good_block s' 100 p z"
  using mm_malloc_correct [OF mm_ready_ok(1), of 100] first_fit_ready by auto

text \<open>C3. \<^verbatim>\<open>mm_malloc\<close> returns NULL, and leaves the state alone, exactly when the size is 0 or no free
  block can hold the request and the heap cannot grow for it. A request that no free block can hold must not
  push the break past the end of the address space: there the sum in \<^verbatim>\<open>mem_sbrk\<close> wraps and its test can pass.\<close>

theorem mm_malloc_null_iff:
  assumes "mm_ok s bs" "0 \<le> n" "n \<le> 2 ^ 32 - 24"
    and "no_fit (adjusted_size n) bs \<Longrightarrow> in_space s (adjusted_size n)"
  shows "mm_malloc n s = Some (NULL, s) \<longleftrightarrow>
    n = 0 \<or> (no_fit (adjusted_size n) bs \<and> \<not> can_grow s (adjusted_size n))"
proof (cases "n = 0")
  case False
  then have n: "0 < n" "n < 4294967273" using assms(2,3) by simp_all
  show ?thesis
  proof (cases "no_fit (adjusted_size n) bs \<and> \<not> can_grow s (adjusted_size n)")
    case True
    then show ?thesis using mm_malloc_grow(2) [OF assms(1) n refl] assms(4) by simp
  next
    case F: False
    with malloc_ok [OF assms(1) n] have "\<exists>p s'. mm_malloc n s = Some (p, s') \<and> p \<noteq> 0" by blast
    with F False show ?thesis by auto
  qed
qed (simp add: mm_malloc_def)

text \<open>The arena of 64 MB has no room for 100 MB.\<close>

lemma big_request:
  "no_fit (adjusted_size 100000000) [(4096, False)]" "\<not> can_grow mm_ready (adjusted_size 100000000)"
  "in_space mm_ready (adjusted_size 100000000)" "in_space mm_ready (adjusted_size 0)"
  by (simp_all add: no_fit_def can_grow_def in_space_def grow_size_def extend_size_def adjusted_size_def DSIZE_def
      MAX_macro_def CHUNKSIZE_def mm_ready_ok)

theorem mm_malloc_null_iff_witness:
  "mm_malloc 0 mm_ready = Some (NULL, mm_ready) \<and> mm_malloc 100 mm_ready \<noteq> Some (NULL, mm_ready) \<and>
   mm_malloc 100000000 mm_ready = Some (NULL, mm_ready)"
  using mm_malloc_null_iff [OF mm_ready_ok(1), of 0] mm_malloc_null_iff [OF mm_ready_ok(1), of 100]
    mm_malloc_null_iff [OF mm_ready_ok(1), of 100000000] first_fit_ready big_request by simp

text \<open>C4. \<^verbatim>\<open>mm_free\<close> of an allocated block takes exactly this block out of the allocated ones, merges it
  with its free neighbours (the layout makes a step of the abstract allocator and again no two
  free blocks are adjacent), changes no byte of another payload, and removes the block's entry
  from the driver's range list when there is one.\<close>

theorem mm_free_correct:
  assumes "mm_ok s bs" "(p, z) \<in> allocs (first_block s) bs"
  shows "\<exists>bs' s'. mm_free p s = Some s' \<and> mm_ok s' bs' \<and> free_step bs (p - first_block s) bs' \<and>
    allocs (first_block s') bs' = allocs (first_block s) bs - {(p, z)} \<and>
    keeps_bytes (allocs (first_block s') bs') s s' \<and>
    ranges s' = (if gl_ranges s then remove_range p (ranges s) else ranges s)"
proof -
  from mm_free_step [OF assms] obtain bs' s' where m: "mm_free p s = Some s'"
    "free_step bs (p - first_block s) bs'" "mm_ok s' bs'" "same_fields (s\<lparr>ranges := ranges_after_free p s\<rparr>) s'"
    "allocs (first_block s) bs' = allocs (first_block s) bs - {(p, z)}"
    "keeps (allocs (first_block s) bs') s s'" by blast
  note F = same_fieldsD [OF m(4), simplified]
  have inv: "heap_inv s bs" using assms(1) by (simp add: mm_ok_def)
  have "keeps_bytes (allocs (first_block s) bs') s s'"
    by (rule inv_keeps_bytes [OF inv m(6)]) (auto simp: m(5))
  with m F show ?thesis by (auto simp: ranges_after_free_def)
qed

definition mm_one :: "addr \<times> mm" where
  "mm_one = the (mm_malloc 100 mm_ready)"

lemma mm_one_ok: "\<exists>z bs. mm_ok (snd mm_one) bs \<and> allocs (first_block (snd mm_one)) bs = {(fst mm_one, z)} \<and>
    gl_ranges (snd mm_one) \<and> ranges (snd mm_one) = []"
proof -
  from malloc_ok [OF mm_ready_ok(1), of 100] first_fit_ready obtain p z bs' s' where
    m: "mm_malloc 100 mm_ready = Some (p, s')" "mm_ok s' bs'" "allocs (first_block s') bs' = {(p, z)}"
      "only_heap_changed mm_ready s'"
    by auto
  from m(4) have "gl_ranges s'" "ranges s' = []"
    using mm_ready_ok by (simp_all add: only_heap_changed_def same_fields_def)
  with m show ?thesis by (auto simp: mm_one_def)
qed

theorem mm_free_correct_witness:
  "\<exists>bs' s'. mm_free (fst mm_one) (snd mm_one) = Some s' \<and> mm_ok s' bs' \<and> allocs (first_block s') bs' = {}"
proof -
  from mm_one_ok obtain z bs where ok: "mm_ok (snd mm_one) bs"
    "allocs (first_block (snd mm_one)) bs = {(fst mm_one, z)}" by blast
  then have "(fst mm_one, z) \<in> allocs (first_block (snd mm_one)) bs" by simp
  from mm_free_correct [OF ok(1) this] ok(2) show ?thesis by auto
qed

text \<open>C5. \<^verbatim>\<open>mm_exit\<close> returns, with every block freed and coalesced: the heap is one free block of the
  whole extent, and with a range list the entry of every allocated block has been removed.\<close>

theorem mm_exit_correct:
  assumes "mm_ok s bs"
  shows "\<exists>s'. mm_exit s = Some s' \<and> mm_ok s' [(extent bs, False)] \<and>
    ranges s' = (if gl_ranges s then fold remove_range (alloc_addrs (first_block s) bs) (ranges s) else ranges s)"
  using mm_exit_inv [OF assms] by (auto simp: exit_ranges_def same_fields_def)

theorem mm_exit_correct_witness:
  "\<exists>s'. mm_exit mm_ready = Some s' \<and> mm_ok s' [(4096, False)] \<and> ranges s' = []"
  using mm_exit_correct [OF mm_ready_ok(1)] mm_ready_ok by auto

end
