(* ===== verification/MmClient.thy ===== *)
theory MmClient
  imports MmProps
begin

text \<open>
  Runs of a client of the allocator: it allocates, writes bytes of payloads it holds, and frees
  them, in any order. The state carries the blocks the client holds with the sizes it asked for,
  and the bytes it has written. The invariant says that the heap is well formed under every such
  run, that payloads never overlap, and that a written byte keeps its value until the client
  writes it again or frees its block.
\<close>

record client =
  c_mm :: mm
  c_live :: "(addr \<times> int) set"
  c_data :: "addr \<Rightarrow> byte option"

definition poke :: "addr \<Rightarrow> byte \<Rightarrow> mm \<Rightarrow> mm" where
  "poke b v s = s\<lparr>heap_mem := (heap_mem s)(b := v)\<rparr>"

text \<open>The requests a client may make: up to the size at which \<^verbatim>\<open>mm_malloc\<close>'s own sums wrap, and, when no free
  block can hold them, not past the end of the address space.\<close>

definition request_ok :: "mm \<Rightarrow> int \<Rightarrow> bool" where
  "request_ok s n \<longleftrightarrow> 0 \<le> n \<and> n \<le> 2 ^ 32 - 24 \<and>
     (find_fit (adjusted_size n) s = Some NULL \<longrightarrow> in_space s (adjusted_size n))"

inductive client_step :: "client \<Rightarrow> client \<Rightarrow> bool" where
  alloc: "0 < n \<Longrightarrow> request_ok (c_mm c) n \<Longrightarrow> mm_malloc n (c_mm c) = Some (p, s') \<Longrightarrow> p \<noteq> NULL \<Longrightarrow>
    client_step c \<lparr>c_mm = s', c_live = insert (p, n) (c_live c),
      c_data = (\<lambda>b. if p \<le> b \<and> b < p + n then None else c_data c b)\<rparr>"
| fail: "request_ok (c_mm c) n \<Longrightarrow> mm_malloc n (c_mm c) = Some (NULL, s') \<Longrightarrow> client_step c (c\<lparr>c_mm := s'\<rparr>)"
| release: "(p, n) \<in> c_live c \<Longrightarrow> mm_free p (c_mm c) = Some s' \<Longrightarrow>
    client_step c (c\<lparr>c_mm := s', c_live := c_live c - {(p, n)}\<rparr>)"
| store: "(p, n) \<in> c_live c \<Longrightarrow> p \<le> b \<Longrightarrow> b < p + n \<Longrightarrow>
    client_step c (c\<lparr>c_mm := poke b v (c_mm c), c_data := (c_data c)(b := Some v)\<rparr>)"

inductive_cases client_stepE: "client_step c c'"

definition client_inv :: "client \<Rightarrow> bool" where
  "client_inv c \<longleftrightarrow> (\<exists>bs. mm_ok (c_mm c) bs \<and>
     (\<forall>(p, n) \<in> c_live c. 0 < n \<and> (\<exists>z. (p, z) \<in> allocs (first_block (c_mm c)) bs \<and> n \<le> z - 8)) \<and>
     (\<forall>p n m. (p, n) \<in> c_live c \<longrightarrow> (p, m) \<in> c_live c \<longrightarrow> n = m) \<and>
     (\<forall>(p, n) \<in> c_live c. \<forall>b v. p \<le> b \<longrightarrow> b < p + n \<longrightarrow> c_data c b = Some v \<longrightarrow> heap_mem (c_mm c) b = v))"

subsection \<open>Writing a payload\<close>

lemma poke_fields: "same_fields s (poke b v s)"
  by (simp add: poke_def same_fields_def)

lemma payload_private:
  assumes sh: "heap_shape s bs F" and p: "(p, z) \<in> allocs (first_block s) bs" and q: "p \<le> q" "q < p + z - 8"
  shows "q \<notin> tag_words (first_block s) bs" "q \<notin> link_words (block_list_start s) F"
    "block_list_start s + 48 < q" "q < mem_brk s - 8"
proof -
  note D = heap_shapeD [OF sh]
  note B = allocs_bounds [OF D(7) p]
  have P: "(p, z, True) \<in> set (blocks (first_block s) bs)" using p by (simp add: allocs_def)
  show "block_list_start s + 48 < q" "q < mem_brk s - 8" using B D(9) q by simp_all
  show "q \<notin> tag_words (first_block s) bs"
  proof
    assume "q \<in> tag_words (first_block s) bs"
    then obtain p' z' al where t: "(p', z', al) \<in> set (blocks (first_block s) bs)" "q = p' - 4 \<or> q = p' + z' - 8"
      by (rule tag_words_cases)
    from blocks_disjoint [OF D(7) P t(1)] t(2) q blocks_bounds(3) [OF D(7) t(1)] show False by auto
  qed
  show "q \<notin> link_words (block_list_start s) F"
  proof
    assume "q \<in> link_words (block_list_start s) F"
    with B(1) q obtain p' z' where f: "(p', z') \<in> F" "q = p' \<or> q = p' + 4" by (auto simp: link_words_def)
    with D(14) have f': "(p', z', False) \<in> set (blocks (first_block s) bs)" by (auto simp: frees_def)
    from blocks_disjoint [OF D(7) P f'] blocks_bounds(3) [OF D(7) f'] f(2) q show False by auto
  qed
qed

text \<open>Writes inside a payload keep the heap well formed.\<close>

lemma payload_write:
  assumes ok: "mm_ok s bs" and p: "(p, z) \<in> allocs (first_block s) bs"
    and m: "\<And>b. b < p \<or> p + z - 8 \<le> b \<Longrightarrow> m b = heap_mem s b"
  shows "mm_ok (s\<lparr>heap_mem := m\<rparr>) bs"
proof -
  let ?s = "s\<lparr>heap_mem := m\<rparr>"
  have sh: "heap_shape s bs (frees (first_block s) bs)" using ok by (simp add: mm_ok_def heap_inv_def)
  note D = heap_shapeD [OF sh]
  have al: "8 dvd p" "8 dvd z" using allocs_bounds(4,5) [OF D(7) p] D(1) by simp_all
  have w: "words ?s q = words s q" if "\<not> (p \<le> q \<and> q < p + z - 8)" for q
  proof (cases "4 dvd q")
    case True
    from al obtain i j where "p = 8 * i" "z = 8 * j" by (auto elim!: dvdE)
    with True that have "q + 4 \<le> p \<or> p + z - 8 \<le> q" by (auto elim!: dvdE)
    then show ?thesis by (auto simp: view_def GET_def load32_def m)
  qed (simp add: view_def)
  have "tagged (words ?s) (first_block s) bs"
    using payload_private(1) [OF sh p] by (intro tagged_frame [OF D(8)] w) auto
  moreover have "free_lists (words ?s) (block_list_start s) (frees (first_block s) bs)"
    using payload_private(2) [OF sh p] by (intro free_lists_frame [OF D(13)] w) auto
  moreover have "words ?s (block_list_start s + 44) = 9" "words ?s (block_list_start s + 48) = 9"
    "words ?s (mem_brk s - 4) = 1"
    using payload_private(3) [OF sh p, of "block_list_start s + 44"] payload_private(3) [OF sh p, of "block_list_start s + 48"]
      payload_private(4) [OF sh p, of "mem_brk s - 4"] D(5,6,10) w [of "block_list_start s + 44"]
      w [of "block_list_start s + 48"] w [of "mem_brk s - 4"]
    by auto
  ultimately have "heap_shape ?s bs (frees (first_block ?s) bs)"
    using D(1-4,7,9,11,12,14) unfolding heap_shape_def by simp
  with ok show ?thesis by (simp add: mm_ok_def heap_inv_def)
qed

lemma poke_inv:
  assumes ok: "mm_ok s bs" and p: "(p, z) \<in> allocs (first_block s) bs" and b: "p \<le> b" "b < p + z - 8"
  shows "mm_ok (poke b v s) bs"
  unfolding poke_def using b by (intro payload_write [OF ok p]) auto

subsection \<open>The invariant\<close>

lemma client_invI:
  assumes "mm_ok (c_mm c) bs"
    "\<And>p n. (p, n) \<in> c_live c \<Longrightarrow> 0 < n \<and> (\<exists>z. (p, z) \<in> allocs (first_block (c_mm c)) bs \<and> n \<le> z - 8)"
    "\<And>p n m. (p, n) \<in> c_live c \<Longrightarrow> (p, m) \<in> c_live c \<Longrightarrow> n = m"
    "\<And>p n b v. (p, n) \<in> c_live c \<Longrightarrow> p \<le> b \<Longrightarrow> b < p + n \<Longrightarrow> c_data c b = Some v \<Longrightarrow> heap_mem (c_mm c) b = v"
  shows "client_inv c"
  unfolding client_inv_def using assms by (intro exI [of _ bs] conjI) auto

lemma ok_sizes: "mm_ok s bs \<Longrightarrow> sizes_ok bs"
  by (auto simp: mm_ok_def heap_inv_def dest: heap_shapeD)

lemma malloc_cases:
  assumes ok: "mm_ok s bs" and n: "request_ok s n" and m: "mm_malloc n s = Some (p, s')"
  shows "(p = NULL \<and> s' = s) \<or> (0 < n \<and> p \<noteq> NULL \<and> (\<exists>z bs'. mm_ok s' bs' \<and>
    first_block s' = first_block s \<and> n \<le> z - 8 \<and>
    allocs (first_block s) bs' = insert (p, z) (allocs (first_block s) bs) \<and>
    (\<forall>(q, y) \<in> allocs (first_block s) bs. q + y \<le> p \<or> p + z \<le> q) \<and>
    keeps_bytes (allocs (first_block s) bs) s s'))"
proof (cases "0 < n \<and> (\<not> no_fit (adjusted_size n) bs \<or> can_grow s (adjusted_size n))")
  case True
  then have n': "0 < n" "n < 4294967273" and room: "\<not> no_fit (adjusted_size n) bs \<or> can_grow s (adjusted_size n)"
    using n by (auto simp: request_ok_def)
  from malloc_ok [OF ok n' room] obtain p0 z bs' s0 where b0: "mm_malloc n s = Some (p0, s0)" "p0 \<noteq> 0" "mm_ok s0 bs'"
    "allocs (first_block s0) bs' = insert (p0, z) (allocs (first_block s) bs)" "good_block s0 n p0 z"
    "\<forall>(q, y) \<in> allocs (first_block s) bs. q + y \<le> p0 \<or> p0 + z \<le> q"
    "keeps_bytes (allocs (first_block s) bs) s s0" "only_heap_changed s s0"
    by blast
  have eq: "p0 = p" "s0 = s'" using b0(1) m by simp_all
  note b = b0(2-8) [unfolded eq]
  moreover have "first_block s' = first_block s" using b(7) by (simp add: only_heap_changed_def same_fields_def)
  moreover have "n \<le> z - 8" using b(4) by (simp add: good_block_def)
  ultimately show ?thesis using n'(1) by auto
next
  case False
  then have "mm_malloc n s = Some (NULL, s)"
    using mm_malloc_grow(2) [OF ok _ _ refl, of n] find_fit_null [OF ok, of "adjusted_size n"] n
    by (cases "n = 0") (auto simp: mm_malloc_def request_ok_def)
  with m show ?thesis by simp
qed

text \<open>Another live block's payload does not reach into a block's.\<close>

lemma live_apart:
  assumes "mm_ok s bs" "(p, z) \<in> allocs (first_block s) bs" "(q, y) \<in> allocs (first_block s) bs"
    "n \<le> z - 8" "m \<le> y - 8" "p \<noteq> q"
  shows "p + n \<le> q \<or> q + m \<le> p"
  using block_unique [OF ok_sizes [OF assms(1)] assms(2,3)] assms(4-6) by auto

lemma client_step_inv:
  assumes step: "client_step c c'" and inv: "client_inv c"
  shows "client_inv c'"
proof -
  from inv obtain bs where B: "mm_ok (c_mm c) bs"
    "\<forall>(p, n) \<in> c_live c. 0 < n \<and> (\<exists>z. (p, z) \<in> allocs (first_block (c_mm c)) bs \<and> n \<le> z - 8)"
    "\<forall>p n m. (p, n) \<in> c_live c \<longrightarrow> (p, m) \<in> c_live c \<longrightarrow> n = m"
    "\<forall>(p, n) \<in> c_live c. \<forall>b v. p \<le> b \<longrightarrow> b < p + n \<longrightarrow> c_data c b = Some v \<longrightarrow> heap_mem (c_mm c) b = v"
    unfolding client_inv_def by (elim exE conjE)
  note ok = B(1)
  have live: "0 < n \<and> (\<exists>z. (p, z) \<in> allocs (first_block (c_mm c)) bs \<and> n \<le> z - 8)" if "(p, n) \<in> c_live c" for p n
    using B(2) that by blast
  have func: "n = m" if "(p, n) \<in> c_live c" "(p, m) \<in> c_live c" for p n m using B(3) that by blast
  have data: "heap_mem (c_mm c) b = v" if "(p, n) \<in> c_live c" "p \<le> b" "b < p + n" "c_data c b = Some v" for p n b v
    using B(4) that by blast
  let ?f = "first_block (c_mm c)"
  from step show ?thesis
  proof cases
    case (alloc n p s')
    from malloc_cases [OF ok alloc(3,4)] alloc(5) obtain z bs' where
      m: "mm_ok s' bs'" "first_block s' = ?f" "n \<le> z - 8" "allocs ?f bs' = insert (p, z) (allocs ?f bs)"
        "\<forall>(q, y) \<in> allocs ?f bs. q + y \<le> p \<or> p + z \<le> q" "keeps_bytes (allocs ?f bs) (c_mm c) s'"
      by auto
    have other: "q + m \<le> p \<or> p + n \<le> q" if "(q, m) \<in> c_live c" for q m
      using live [OF that] m(3,5) by force
    have same: "heap_mem s' b = heap_mem (c_mm c) b" if "(q, m) \<in> c_live c" "q \<le> b" "b < q + m" for q m b
      using live [OF that(1)] m(6) that(2,3) by (force simp: keeps_bytes_def)
    have fresh: "(p, m) \<notin> c_live c" for m using other [of p m] live [of p m] alloc(2) by auto
    show ?thesis
    proof (rule client_invI [of _ bs'], goal_cases)
      case (2 q k)
      then show ?case using m(2-4) alloc(1,2) live [of q k] by auto
    next
      case (3 q k l)
      then show ?case using fresh func alloc(1) by auto
    next
      case (4 q k b v)
      then have "(q, k) \<in> c_live c" "c_data c b = Some v" by (auto simp: alloc(1) split: if_splits)
      with same [of q k b] data [of q k b v] 4 show ?case by (simp add: alloc(1))
    qed (simp add: alloc(1) m(1))
  next
    case (fail n s')
    from malloc_cases [OF ok fail(2,3)] have "s' = c_mm c" by auto
    with fail(1) inv show ?thesis by simp
  next
    case (release p n s')
    from live [OF release(2)] obtain z where z: "0 < n" "(p, z) \<in> allocs ?f bs" "n \<le> z - 8" by blast
    from mm_free_step [OF ok z(2)] release(3) obtain bs' where
      m: "mm_ok s' bs'" "same_fields ((c_mm c)\<lparr>ranges := ranges_after_free p (c_mm c)\<rparr>) s'"
        "allocs ?f bs' = allocs ?f bs - {(p, z)}" "keeps (allocs ?f bs') (c_mm c) s'"
      by auto
    have f: "first_block s' = ?f" using m(2) by (simp add: same_fields_def)
    have inv': "heap_inv (c_mm c) bs" using ok by (simp add: mm_ok_def)
    have kb: "keeps_bytes (allocs ?f bs') (c_mm c) s'"
      by (rule inv_keeps_bytes [OF inv' m(4)]) (auto simp: m(3))
    have live': "0 < k \<and> (\<exists>y. (q, y) \<in> allocs ?f bs' \<and> k \<le> y - 8)" if "(q, k) \<in> c_live c - {(p, n)}" for q k
    proof -
      have "q \<noteq> p" using that release(2) func by blast
      with live [of q k] that m(3) show ?thesis by auto
    qed
    have same: "heap_mem s' b = heap_mem (c_mm c) b" if "(q, k) \<in> c_live c - {(p, n)}" "q \<le> b" "b < q + k" for q k b
      using live' [OF that(1)] kb that(2,3) by (force simp: keeps_bytes_def)
    show ?thesis
    proof (rule client_invI [of _ bs'], goal_cases)
      case (2 q k)
      then show ?case using live' [of q k] by (simp add: release(1) f)
    next
      case (3 q k l)
      then show ?case using func by (simp add: release(1)) blast
    next
      case (4 q k b v)
      with same [of q k b] data [of q k b v] show ?case by (simp add: release(1))
    qed (simp add: release(1) m(1))
  next
    case (store p n b v)
    from live [OF store(2)] obtain z where z: "0 < n" "(p, z) \<in> allocs ?f bs" "n \<le> z - 8" by blast
    have "b < p + z - 8" using store(4) z(3) by simp
    note ok' = poke_inv [OF ok z(2) store(3) this, of v]
    show ?thesis
    proof (rule client_invI [of _ bs], goal_cases)
      case (2 q k)
      then show ?case using live [of q k] by (simp add: store(1) same_fieldsD(5) [OF poke_fields])
    next
      case (3 q k l)
      then show ?case using func by (simp add: store(1))
    next
      case (4 q k b' v')
      with data [of q k b' v'] show ?case by (auto simp: store(1) poke_def split: if_splits)
    qed (simp add: store(1) ok')
  qed
qed

lemma client_steps_inv: "client_step\<^sup>*\<^sup>* c c' \<Longrightarrow> client_inv c \<Longrightarrow> client_inv c'"
  by (induction rule: rtranclp_induct) (auto intro: client_step_inv)

text \<open>A client that holds nothing yet.\<close>

definition client0 :: "mm \<Rightarrow> client" where
  "client0 s = \<lparr>c_mm = s, c_live = {}, c_data = \<lambda>_. None\<rparr>"

lemma client0_inv: "mm_ok s bs \<Longrightarrow> client_inv (client0 s)"
  by (auto simp: client_inv_def client0_def)

text \<open>C6. In every state a client can reach from a well-formed heap by allocating (sizes of which no sum leaves the
  address space), writing its own payloads and freeing, the payloads it holds are aligned, inside the heap and pairwise disjoint,
  and every byte it has written is still there.\<close>

theorem client_runs_safe:
  assumes "mm_ok s bs" "client_step\<^sup>*\<^sup>* (client0 s) c"
  shows "(\<forall>(p, n) \<in> c_live c. IS_ALIGNED p \<and> mem_heap_lo (c_mm c) \<le> p \<and> p + n - 1 \<le> mem_heap_hi (c_mm c)) \<and>
    (\<forall>(p, n) \<in> c_live c. \<forall>(q, m) \<in> c_live c. (p, n) \<noteq> (q, m) \<longrightarrow> p + n \<le> q \<or> q + m \<le> p) \<and>
    (\<forall>(p, n) \<in> c_live c. \<forall>b v. p \<le> b \<and> b < p + n \<and> c_data c b = Some v \<longrightarrow> heap_mem (c_mm c) b = v)"
proof -
  have "client_inv c" using client_steps_inv [OF assms(2) client0_inv [OF assms(1)]] .
  then obtain bs where B: "mm_ok (c_mm c) bs"
    "\<forall>(p, n) \<in> c_live c. 0 < n \<and> (\<exists>z. (p, z) \<in> allocs (first_block (c_mm c)) bs \<and> n \<le> z - 8)"
    "\<forall>p n m. (p, n) \<in> c_live c \<longrightarrow> (p, m) \<in> c_live c \<longrightarrow> n = m"
    "\<forall>(p, n) \<in> c_live c. \<forall>b v. p \<le> b \<longrightarrow> b < p + n \<longrightarrow> c_data c b = Some v \<longrightarrow> heap_mem (c_mm c) b = v"
    unfolding client_inv_def by (elim exE conjE)
  have good: "IS_ALIGNED p \<and> mem_heap_lo (c_mm c) \<le> p \<and> p + n - 1 \<le> mem_heap_hi (c_mm c)" if "(p, n) \<in> c_live c" for p n
    using B(2) that good_blockI(1) [OF B(1)] unfolding good_block_def by blast
  moreover have "p + n \<le> q \<or> q + m \<le> p" if l: "(p, n) \<in> c_live c" "(q, m) \<in> c_live c" "(p, n) \<noteq> (q, m)" for p n q m
  proof -
    have "p \<noteq> q" using l B(3) by blast
    moreover obtain z y where "(p, z) \<in> allocs (first_block (c_mm c)) bs" "n \<le> z - 8"
      "(q, y) \<in> allocs (first_block (c_mm c)) bs" "m \<le> y - 8" using B(2) l(1,2) by blast
    ultimately show ?thesis using live_apart [OF B(1)] by blast
  qed
  ultimately show ?thesis using B(4) by blast
qed

lemma request_ready: "request_ok mm_ready 100" "request_ok mm_ready 4000"
  by (simp_all add: request_ok_def in_space_def grow_size_def extend_size_def adjusted_size_def DSIZE_def
      MAX_macro_def CHUNKSIZE_def mm_ready_ok)

theorem client_runs_safe_witness:
  "client_step\<^sup>*\<^sup>* (client0 mm_ready) (client0 mm_ready) \<and>
   (\<exists>c. client_step\<^sup>*\<^sup>* (client0 mm_ready) c \<and> c_live c = {(fst mm_one, 100)} \<and>
     IS_ALIGNED (fst mm_one) \<and> fst mm_one + 99 \<le> mem_heap_hi (c_mm c))"
proof -
  have "mm_malloc 100 mm_ready = Some mm_one \<and> fst mm_one \<noteq> 0"
    using malloc_ok [OF mm_ready_ok(1), of 100] first_fit_ready unfolding mm_one_def by force
  then have "client_step (client0 mm_ready) \<lparr>c_mm = snd mm_one, c_live = insert (fst mm_one, 100) {},
      c_data = (\<lambda>b. if fst mm_one \<le> b \<and> b < fst mm_one + 100 then None else c_data (client0 mm_ready) b)\<rparr>" (is "client_step _ ?c")
    using client_step.alloc [of 100 "client0 mm_ready" "fst mm_one" "snd mm_one"] request_ready(1)
    by (simp add: client0_def)
  then have r: "client_step\<^sup>*\<^sup>* (client0 mm_ready) ?c" by (rule r_into_rtranclp)
  from client_runs_safe [OF mm_ready_ok(1) this] r show ?thesis by (intro conjI exI [of _ ?c]) auto
qed

text \<open>C7. No call of such a client fails to return: \<^verbatim>\<open>mm_malloc\<close> of any supported size, \<^verbatim>\<open>mm_free\<close> of any
  block it holds and \<^verbatim>\<open>mm_exit\<close> all terminate, in every reachable state.\<close>

theorem client_runs_return:
  assumes "mm_ok s bs" "client_step\<^sup>*\<^sup>* (client0 s) c" "request_ok (c_mm c) n"
  shows "mm_malloc n (c_mm c) \<noteq> None \<and> (\<forall>(p, m) \<in> c_live c. mm_free p (c_mm c) \<noteq> None) \<and>
    mm_exit (c_mm c) \<noteq> None"
proof -
  have "client_inv c" using client_steps_inv [OF assms(2) client0_inv [OF assms(1)]] .
  then obtain bs where ok: "mm_ok (c_mm c) bs"
    and live: "\<forall>(p, n) \<in> c_live c. 0 < n \<and> (\<exists>z. (p, z) \<in> allocs (first_block (c_mm c)) bs \<and> n \<le> z - 8)"
    unfolding client_inv_def by (elim exE conjE)
  have "mm_malloc n (c_mm c) \<noteq> None"
  proof (cases "0 < n \<and> (\<not> no_fit (adjusted_size n) bs \<or> can_grow (c_mm c) (adjusted_size n))")
    case True
    then show ?thesis using malloc_ok [OF ok, of n] assms(3) by (fastforce simp: request_ok_def)
  next
    case False
    then show ?thesis
      using mm_malloc_grow(2) [OF ok _ _ refl, of n] find_fit_null [OF ok, of "adjusted_size n"] assms(3)
      by (cases "n = 0") (auto simp: mm_malloc_def request_ok_def)
  qed
  moreover have "mm_free p (c_mm c) \<noteq> None" if "(p, m) \<in> c_live c" for p m
    using live that mm_free_step [OF ok] by fastforce
  moreover have "mm_exit (c_mm c) \<noteq> None" using mm_exit_inv [OF ok] by auto
  ultimately show ?thesis by blast
qed

theorem client_runs_return_witness:
  "mm_malloc 4000 mm_ready \<noteq> None \<and> mm_exit mm_ready \<noteq> None"
  using client_runs_return [OF mm_ready_ok(1), of "client0 mm_ready" 4000] request_ready(2) by (simp add: client0_def)

end
