(* ===== verification/Driver.thy ===== *)
theory Driver
  imports Trace MmClient Complex_Main
begin

text \<open>
  The trace-driven tester of the allocator (\<^verbatim>\<open>malloclab/mdriver.c\<close>): \<open>eval_mm_valid\<close>,
  \<open>eval_mm_util\<close> and \<open>eval_mm_speed\<close> run a trace on \<^verbatim>\<open>mm.c\<close>; \<open>eval_libc_valid\<close> and
  \<open>eval_libc_speed\<close> run it on libc, whose \<^verbatim>\<open>malloc\<close>, \<^verbatim>\<open>realloc\<close> and \<^verbatim>\<open>free\<close> are parameters. The
  driver's global range list is the field \<open>ranges\<close> of the allocator's state, \<open>errors\<close> and its
  messages are the list \<open>d_errors\<close> of request number and error.
\<close>

datatype driver_error =
    InitFailed | MallocFailed | ReallocFailed | BadRange range_error | LostData | LeakAtExit

datatype driver_stop =
    Diverges         \<comment> \<open>a call of the allocator does not return\<close>
  | ArrayFault       \<comment> \<open>an index outside the trace's arrays\<close>
  | AssertAbort
  | AppError string

record drv =
  d_mm :: mm
  d_blocks :: "addr list"
  d_sizes :: "int list"
  d_errors :: "(nat \<times> driver_error) list"

definition malloc_error :: "nat \<Rightarrow> driver_error \<Rightarrow> drv \<Rightarrow> drv" where
  "malloc_error opnum e d = d\<lparr>d_errors := d_errors d @ [(opnum, e)]\<rparr>"

text \<open>What \<^verbatim>\<open>malloc_error\<close> prints; the driver is a 32-bit program.\<close>

definition show_addr :: "addr \<Rightarrow> string" where
  "show_addr p = (if u32 p = 0 then ''(nil)'' else ''0x'' @ show_hex (nat (u32 p)))"

definition show_extent :: "addr \<Rightarrow> addr \<Rightarrow> string" where
  "show_extent lo hi = ''('' @ show_addr lo @ '':'' @ show_addr hi @ '')''"

fun range_message :: "range_error \<Rightarrow> string" where
  "range_message AssertSize = ''''"
| "range_message (Misaligned lo) =
     ''Payload address ('' @ show_addr lo @ '') not aligned to '' @ show_int ALIGNMENT @ '' bytes''"
| "range_message (OutsideHeap lo hi hlo hhi) =
     ''Payload '' @ show_extent lo hi @ '' lies outside heap '' @ show_extent hlo hhi"
| "range_message (Overlaps lo hi p) =
     ''Payload '' @ show_extent lo hi @ '' overlaps another payload '' @ show_extent (range_lo p) (range_hi p) @ [CHR 0x0A]"

fun error_message :: "driver_error \<Rightarrow> string" where
  "error_message InitFailed = ''mm_init failed.''"
| "error_message MallocFailed = ''mm_malloc failed.''"
| "error_message ReallocFailed = ''mm_realloc failed.''"
| "error_message (BadRange e) = range_message e"
| "error_message LostData = ''mm_realloc did not preserve the data from old block''"
| "error_message LeakAtExit = ''mm_exit did not treat the memory leak''"

definition LINENUM :: "nat \<Rightarrow> nat" where
  "LINENUM i = i + 5"

definition error_line :: "nat \<Rightarrow> nat \<times> driver_error \<Rightarrow> string" where
  "error_line tracenum = (\<lambda>(opnum, e).
     ''ERROR [trace '' @ show_nat tracenum @ '', line '' @ show_nat (LINENUM opnum) @ '']: '' @ error_message e @ [CHR 0x0A])"

definition memset :: "addr \<Rightarrow> int \<Rightarrow> int \<Rightarrow> mm \<Rightarrow> mm" where
  "memset p v n s = s\<lparr>heap_mem := \<lambda>b. if p \<le> b \<and> b < p + n then word_of_int v else heap_mem s b\<rparr>"

definition call :: "'a option \<Rightarrow> driver_stop + 'a" where
  "call r = (case r of None \<Rightarrow> Inl Diverges | Some a \<Rightarrow> Inr a)"

definition array_get :: "int \<Rightarrow> 'a list \<Rightarrow> driver_stop + 'a" where
  "array_get i xs = (if 0 \<le> i \<and> i < int (length xs) then Inr (xs ! nat i) else Inl ArrayFault)"

definition array_set :: "int \<Rightarrow> 'a \<Rightarrow> 'a list \<Rightarrow> driver_stop + 'a list" where
  "array_set i x xs = (if 0 \<le> i \<and> i < int (length xs) then Inr (xs[nat i := x]) else Inl ArrayFault)"

text \<open>\<open>blocks[index] = p; block_sizes[index] = size\<close>.\<close>

definition remember :: "int \<Rightarrow> addr \<Rightarrow> int \<Rightarrow> drv \<Rightarrow> driver_stop + drv" where
  "remember i p sz d =
     and_then (array_set i p (d_blocks d)) (\<lambda>bl.
     and_then (array_set i sz (d_sizes d)) (\<lambda>sl. Inr (d\<lparr>d_blocks := bl, d_sizes := sl\<rparr>)))"

subsection \<open>Correctness run\<close>

text \<open>One request; the flag is False when \<^verbatim>\<open>eval_mm_valid\<close> returns 0 there.\<close>

definition valid_alloc :: "nat \<Rightarrow> int \<Rightarrow> int \<Rightarrow> drv \<Rightarrow> driver_stop + (bool \<times> drv)" where
  "valid_alloc i index sz d =
     and_then (call (mm_malloc (u32 sz) (d_mm d))) (\<lambda>(p, s).
       if p = NULL then Inr (False, malloc_error i MallocFailed (d\<lparr>d_mm := s\<rparr>))
       else case add_range s (ranges s) p sz of
         Inl AssertSize \<Rightarrow> Inl AssertAbort
       | Inl e \<Rightarrow> Inr (False, malloc_error i (BadRange e) (d\<lparr>d_mm := s\<rparr>))
       | Inr rs \<Rightarrow>
           let s = memset p (index AND 255) sz (s\<lparr>ranges := rs\<rparr>)
           in and_then (remember index p sz (d\<lparr>d_mm := s\<rparr>)) (\<lambda>d. Inr (True, d)))"

fun data_kept :: "mm \<Rightarrow> addr \<Rightarrow> int \<Rightarrow> nat \<Rightarrow> bool" where
  "data_kept s p v 0 = True"
| "data_kept s p v (Suc j) = (data_kept s p v j \<and> sint (heap_mem s (p + int j)) = v)"

definition valid_realloc :: "nat \<Rightarrow> int \<Rightarrow> int \<Rightarrow> drv \<Rightarrow> driver_stop + (bool \<times> drv)" where
  "valid_realloc i index sz d =
     and_then (array_get index (d_blocks d)) (\<lambda>oldp.
       let (newp, s) = mm_realloc oldp (u32 sz) (d_mm d) in
       if newp = NULL then Inr (False, malloc_error i ReallocFailed (d\<lparr>d_mm := s\<rparr>))
       else case add_range s (remove_range oldp (ranges s)) newp sz of
         Inl AssertSize \<Rightarrow> Inl AssertAbort
       | Inl e \<Rightarrow> Inr (False, malloc_error i (BadRange e) (d\<lparr>d_mm := s\<lparr>ranges := remove_range oldp (ranges s)\<rparr>\<rparr>))
       | Inr rs \<Rightarrow>
           and_then (array_get index (d_sizes d)) (\<lambda>oldsize.
             let oldsize = (if sz < oldsize then sz else oldsize); s = s\<lparr>ranges := rs\<rparr> in
             if \<not> data_kept s newp (index AND 255) (nat oldsize)
             then Inr (False, malloc_error i LostData (d\<lparr>d_mm := s\<rparr>))
             else and_then (remember index newp sz (d\<lparr>d_mm := memset newp (index AND 255) sz s\<rparr>)) (\<lambda>d. Inr (True, d))))"

definition valid_free :: "int \<Rightarrow> drv \<Rightarrow> driver_stop + (bool \<times> drv)" where
  "valid_free index d =
     and_then (array_get index (d_blocks d)) (\<lambda>p.
     and_then (call (mm_free p (d_mm d))) (\<lambda>s. Inr (True, d\<lparr>d_mm := s\<rparr>)))"

definition valid_step :: "nat \<Rightarrow> traceop_t \<Rightarrow> drv \<Rightarrow> driver_stop + (bool \<times> drv)" where
  "valid_step i t d =
     (case op_type t of
        ALLOC \<Rightarrow> valid_alloc i (op_index t) (op_size t) d
      | REALLOC \<Rightarrow> valid_realloc i (op_index t) (op_size t) d
      | FREE \<Rightarrow> valid_free (op_index t) d)"

fun valid_loop :: "nat \<Rightarrow> traceop_t list \<Rightarrow> drv \<Rightarrow> driver_stop + (bool \<times> drv)" where
  "valid_loop i [] d = Inr (True, d)"
| "valid_loop i (t # ts) d =
     and_then (valid_step i t d) (\<lambda>(go, d). if go then valid_loop (i + 1) ts d else Inr (False, d))"

text \<open>The requests the loop visits, and the arrays a trace brings along.\<close>

definition trace_ops :: "trace_t \<Rightarrow> traceop_t list" where
  "trace_ops tr = take (nat (num_ops tr)) (ops tr)"

definition start_drv :: "trace_t \<Rightarrow> mm \<Rightarrow> drv" where
  "start_drv tr s = \<lparr>d_mm = s, d_blocks = map (blocks_init tr) [0 ..< nat (num_ids tr)],
     d_sizes = map (sizes_init tr) [0 ..< nat (num_ids tr)], d_errors = []\<rparr>"

definition eval_mm_valid :: "trace_t \<Rightarrow> mm \<Rightarrow> driver_stop + (bool \<times> drv)" where
  "eval_mm_valid tr s =
     (let s = mem_reset_brk s;
          s = s\<lparr>ranges := clear_ranges (ranges s)\<rparr>
      in and_then (call (mm_init True s)) (\<lambda>(r, s).
           let d = start_drv tr s in
           if r < 0 then Inr (False, malloc_error 0 InitFailed d)
           else and_then (valid_loop 0 (trace_ops tr) d) (\<lambda>(ok, d).
             if \<not> ok then Inr (False, d)
             else and_then (call (mm_exit (d_mm d))) (\<lambda>s.
               if ranges s \<noteq> []
               then Inr (False, malloc_error (nat (num_ops tr)) LeakAtExit (d\<lparr>d_mm := s\<rparr>))
               else Inr (True, d\<lparr>d_mm := s\<rparr>)))))"

subsection \<open>Utilisation and speed runs\<close>

text \<open>\<open>eval_mm_util\<close> carries the total size of the live payloads and its maximum.\<close>

definition util_step :: "traceop_t \<Rightarrow> int \<times> int \<times> drv \<Rightarrow> driver_stop + (int \<times> int \<times> drv)" where
  "util_step t st =
     (let (max_total_size, total_size, d) = st; index = op_index t in
      case op_type t of
        ALLOC \<Rightarrow>
          and_then (call (mm_malloc (u32 (op_size t)) (d_mm d))) (\<lambda>(p, s).
            if p = NULL then Inl (AppError ''mm_malloc failed in eval_mm_util'')
            else and_then (remember index p (op_size t) (d\<lparr>d_mm := s\<rparr>)) (\<lambda>d.
              let total_size = total_size + op_size t
              in Inr (if total_size > max_total_size then total_size else max_total_size, total_size, d)))
      | REALLOC \<Rightarrow>
          and_then (array_get index (d_sizes d)) (\<lambda>oldsize.
          and_then (array_get index (d_blocks d)) (\<lambda>oldp.
            let (newp, s) = mm_realloc oldp (u32 (op_size t)) (d_mm d) in
            if newp = NULL then Inl (AppError ''mm_realloc failed in eval_mm_util'')
            else and_then (remember index newp (op_size t) (d\<lparr>d_mm := s\<rparr>)) (\<lambda>d.
              let total_size = total_size + (op_size t - oldsize)
              in Inr (if total_size > max_total_size then total_size else max_total_size, total_size, d))))
      | FREE \<Rightarrow>
          and_then (array_get index (d_sizes d)) (\<lambda>sz.
          and_then (array_get index (d_blocks d)) (\<lambda>p.
          and_then (call (mm_free p (d_mm d))) (\<lambda>s.
            Inr (max_total_size, total_size - sz, d\<lparr>d_mm := s\<rparr>)))))"

fun util_loop :: "traceop_t list \<Rightarrow> int \<times> int \<times> drv \<Rightarrow> driver_stop + (int \<times> int \<times> drv)" where
  "util_loop [] st = Inr st"
| "util_loop (t # ts) st = and_then (util_step t st) (util_loop ts)"

text \<open>The quotient of the two integers, which the code computes in \<^verbatim>\<open>double\<close>, is rational here.\<close>

definition eval_mm_util :: "trace_t \<Rightarrow> mm \<Rightarrow> driver_stop + (rat \<times> drv)" where
  "eval_mm_util tr s =
     and_then (call (mm_init False (mem_reset_brk s))) (\<lambda>(r, s).
       if r < 0 then Inl (AppError ''mm_init failed in eval_mm_util'')
       else and_then (util_loop (trace_ops tr) (0, 0, start_drv tr s)) (\<lambda>(max_total_size, _, d).
         Inr (of_int max_total_size / of_int (mem_heapsize (d_mm d)), d)))"

definition speed_step :: "traceop_t \<Rightarrow> drv \<Rightarrow> driver_stop + drv" where
  "speed_step t d =
     (let index = op_index t in
      case op_type t of
        ALLOC \<Rightarrow>
          and_then (call (mm_malloc (u32 (op_size t)) (d_mm d))) (\<lambda>(p, s).
            if p = NULL then Inl (AppError ''mm_malloc error in eval_mm_speed'')
            else and_then (array_set index p (d_blocks d)) (\<lambda>bl. Inr (d\<lparr>d_mm := s, d_blocks := bl\<rparr>)))
      | REALLOC \<Rightarrow>
          and_then (array_get index (d_blocks d)) (\<lambda>oldp.
            let (newp, s) = mm_realloc oldp (u32 (op_size t)) (d_mm d) in
            if newp = NULL then Inl (AppError ''mm_realloc error in eval_mm_speed'')
            else and_then (array_set index newp (d_blocks d)) (\<lambda>bl. Inr (d\<lparr>d_mm := s, d_blocks := bl\<rparr>)))
      | FREE \<Rightarrow>
          and_then (array_get index (d_blocks d)) (\<lambda>p.
          and_then (call (mm_free p (d_mm d))) (\<lambda>s. Inr (d\<lparr>d_mm := s\<rparr>))))"

fun speed_loop :: "traceop_t list \<Rightarrow> drv \<Rightarrow> driver_stop + drv" where
  "speed_loop [] d = Inr d"
| "speed_loop (t # ts) d = and_then (speed_step t d) (speed_loop ts)"

definition eval_mm_speed :: "trace_t \<Rightarrow> mm \<Rightarrow> driver_stop + drv" where
  "eval_mm_speed tr s =
     and_then (call (mm_init False (mem_reset_brk s))) (\<lambda>(r, s).
       if r < 0 then Inl (AppError ''mm_init failed in eval_mm_speed'')
       else speed_loop (trace_ops tr) (start_drv tr s))"

subsection \<open>The libc runs\<close>

text \<open>libc's allocator: a state, and functions that return the block (NULL on failure) and the new
  state. A failure ends the program through \<^verbatim>\<open>unix_error\<close>; \<open>em\<close> and \<open>er\<close> are the messages the two
  runs give for \<^verbatim>\<open>malloc\<close> and \<^verbatim>\<open>realloc\<close>.\<close>

record 'l libc =
  l_malloc :: "int \<Rightarrow> 'l \<Rightarrow> addr \<times> 'l"
  l_realloc :: "addr \<Rightarrow> int \<Rightarrow> 'l \<Rightarrow> addr \<times> 'l"
  l_free :: "addr \<Rightarrow> 'l \<Rightarrow> 'l"

definition libc_step :: "'l libc \<Rightarrow> string \<Rightarrow> string \<Rightarrow> traceop_t \<Rightarrow> addr list \<times> 'l \<Rightarrow> driver_stop + (addr list \<times> 'l)" where
  "libc_step lc em er t st =
     (let (bl, l) = st; index = op_index t in
      case op_type t of
        ALLOC \<Rightarrow>
          let (p, l) = l_malloc lc (u32 (op_size t)) l in
          if p = NULL then Inl (AppError em)
          else and_then (array_set index p bl) (\<lambda>bl. Inr (bl, l))
      | REALLOC \<Rightarrow>
          and_then (array_get index bl) (\<lambda>oldp.
            let (newp, l) = l_realloc lc oldp (u32 (op_size t)) l in
            if newp = NULL then Inl (AppError er)
            else and_then (array_set index newp bl) (\<lambda>bl. Inr (bl, l)))
      | FREE \<Rightarrow> and_then (array_get index bl) (\<lambda>p. Inr (bl, l_free lc p l)))"

fun libc_loop :: "'l libc \<Rightarrow> string \<Rightarrow> string \<Rightarrow> traceop_t list \<Rightarrow> addr list \<times> 'l \<Rightarrow> driver_stop + (addr list \<times> 'l)" where
  "libc_loop lc em er [] st = Inr st"
| "libc_loop lc em er (t # ts) st = and_then (libc_step lc em er t st) (libc_loop lc em er ts)"

definition eval_libc_valid :: "'l libc \<Rightarrow> trace_t \<Rightarrow> 'l \<Rightarrow> driver_stop + (bool \<times> addr list \<times> 'l)" where
  "eval_libc_valid lc tr l =
     and_then (libc_loop lc ''System message'' ''System message'' (trace_ops tr) (map (blocks_init tr) [0 ..< nat (num_ids tr)], l)) (\<lambda>st. Inr (True, st))"

definition eval_libc_speed :: "'l libc \<Rightarrow> trace_t \<Rightarrow> 'l \<Rightarrow> driver_stop + (addr list \<times> 'l)" where
  "eval_libc_speed lc tr l =
     libc_loop lc ''malloc failed in eval_libc_speed'' ''realloc failed in eval_libc_speed'' (trace_ops tr) (map (blocks_init tr) [0 ..< nat (num_ids tr)], l)"

subsection \<open>The performance index\<close>

record stats_t =
  st_ops :: rat
  st_valid :: bool
  st_secs :: rat
  st_util :: rat

definition UTIL_WEIGHT :: rat where "UTIL_WEIGHT = 7 / 10"
definition AVG_LIBC_THRUPUT :: rat where "AVG_LIBC_THRUPUT = 8000000"

text \<open>The last part of \<^verbatim>\<open>main\<close>; divisions by zero, infinities in \<^verbatim>\<open>double\<close>, are excluded by the
  properties that use it.\<close>

definition perf_index :: "nat \<Rightarrow> stats_t list \<Rightarrow> rat" where
  "perf_index errors stats =
     (let secs = sum_list (map st_secs stats);
          ops = sum_list (map st_ops stats);
          util = sum_list (map st_util stats);
          avg_mm_util = util / of_nat (length stats)
      in if errors = 0 then
           let avg_mm_throughput = ops / secs;
               p1 = UTIL_WEIGHT * avg_mm_util;
               p2 = (if avg_mm_throughput > AVG_LIBC_THRUPUT then 1 - UTIL_WEIGHT
                     else (1 - UTIL_WEIGHT) * (avg_mm_throughput / AVG_LIBC_THRUPUT))
           in (p1 + p2) * 100
         else 0)"

end
