(* ===== verification/DriverProps.thy ===== *)
theory DriverProps
  imports Driver
begin

text \<open>
  The driver on traces that use the allocator correctly: \<open>eval_mm_valid\<close> accepts the allocator on
  every such trace that fits in memory, and \<open>eval_mm_util\<close> reports a utilisation between 0 and 1.
  Both runs keep the same correspondence between the trace's live ids, the allocator's blocks and,
  in the first run, the range list.
\<close>

text \<open>Each id is allocated before it is freed or reallocated and not allocated again while it is live; sizes are
  positive \<^verbatim>\<open>int\<close>s. \<open>alloc_growth\<close> bounds the memory a run can take, and no single request of a trace that is
  \<open>in_reach\<close> pushes the break past the end of the address space.\<close>

fun legal :: "int \<Rightarrow> int set \<Rightarrow> traceop_t list \<Rightarrow> bool" where
  "legal n live [] = True"
| "legal n live (t # ts) =
     (case op_type t of
        ALLOC \<Rightarrow> 0 \<le> op_index t \<and> op_index t < n \<and> op_index t \<notin> live \<and> 0 < op_size t \<and> op_size t < 2 ^ 31 \<and>
          legal n (insert (op_index t) live) ts
      | FREE \<Rightarrow> op_index t \<in> live \<and> legal n (live - {op_index t}) ts
      | REALLOC \<Rightarrow> op_index t \<in> live \<and> 0 < op_size t \<and> op_size t < 2 ^ 31 \<and> legal n live ts)"

definition has_realloc :: "traceop_t list \<Rightarrow> bool" where
  "has_realloc ts \<longleftrightarrow> list_ex (\<lambda>t. op_type t = REALLOC) ts"

definition first_realloc :: "traceop_t list \<Rightarrow> nat" where
  "first_realloc ts = length (takeWhile (\<lambda>t. op_type t \<noteq> REALLOC) ts)"

lemma has_realloc_simps [simp]:
  "\<not> has_realloc []" "has_realloc (t # ts) \<longleftrightarrow> op_type t = REALLOC \<or> has_realloc ts"
  "first_realloc (t # ts) = (if op_type t = REALLOC then 0 else Suc (first_realloc ts))"
  by (simp_all add: has_realloc_def first_realloc_def)

definition alloc_growth :: "traceop_t list \<Rightarrow> int" where
  "alloc_growth ts = sum_list (map (\<lambda>t. if op_type t = ALLOC then grow_size (adjusted_size (op_size t)) else 0) ts)"

definition in_reach :: "mm \<Rightarrow> traceop_t list \<Rightarrow> bool" where
  "in_reach s ts \<longleftrightarrow> list_all (\<lambda>t. op_type t = ALLOC \<and> grow_size (adjusted_size (op_size t)) < 2 ^ 31 \<longrightarrow>
     mem_max_addr s + grow_size (adjusted_size (op_size t)) < 2 ^ 32) ts"

text \<open>Either of two reasons why no sum in \<^verbatim>\<open>mem_sbrk\<close> wraps.\<close>

definition growth_ok :: "mm \<Rightarrow> traceop_t list \<Rightarrow> bool" where
  "growth_ok s ts \<longleftrightarrow> in_reach s ts \<or> mem_brk s + alloc_growth ts \<le> mem_max_addr s"

subsection \<open>Live ids and blocks\<close>

definition ids_ok :: "int \<Rightarrow> int set \<Rightarrow> drv \<Rightarrow> (addr \<times> int) set \<Rightarrow> bool" where
  "ids_ok n live d A \<longleftrightarrow> int (length (d_blocks d)) = n \<and> int (length (d_sizes d)) = n \<and> finite live \<and>
     (\<forall>i \<in> live. 0 \<le> i \<and> i < n \<and> 0 < d_sizes d ! nat i \<and>
        (\<exists>z. (d_blocks d ! nat i, z) \<in> A \<and> d_sizes d ! nat i \<le> z - 8)) \<and>
     inj_on (\<lambda>i. d_blocks d ! nat i) live"

definition ranges_cover :: "range_t list \<Rightarrow> (addr \<times> int) set \<Rightarrow> bool" where
  "ranges_cover rs A \<longleftrightarrow> distinct (map range_lo rs) \<and> range_lo ` set rs = fst ` A \<and>
     (\<forall>r \<in> set rs. \<exists>z. (range_lo r, z) \<in> A \<and> range_lo r \<le> range_hi r \<and> range_hi r < range_lo r + z - 8)"

lemma mm_ok_ranges [simp]: "mm_ok (s\<lparr>ranges := rs\<rparr>) bs = mm_ok s bs"
  by (simp add: mm_ok_def)

lemma memset_fields [simp]:
  "first_block (memset p v n s) = first_block s" "gl_ranges (memset p v n s) = gl_ranges s"
  "ranges (memset p v n s) = ranges s" "mem_brk (memset p v n s) = mem_brk s"
  "mem_max_addr (memset p v n s) = mem_max_addr s" "mem_start_brk (memset p v n s) = mem_start_brk s"
  by (simp_all add: memset_def)

lemma memset_ok:
  "mm_ok s bs \<Longrightarrow> (p, z) \<in> allocs (first_block s) bs \<Longrightarrow> n \<le> z - 8 \<Longrightarrow> mm_ok (memset p v n s) bs"
  unfolding memset_def by (rule payload_write) auto

lemma array_simps [simp]:
  "0 \<le> i \<Longrightarrow> i < int (length xs) \<Longrightarrow> array_get i xs = Inr (xs ! nat i)"
  "0 \<le> i \<Longrightarrow> i < int (length xs) \<Longrightarrow> array_set i x xs = Inr (xs[nat i := x])"
  by (simp_all add: array_get_def array_set_def)

lemma call_simps [simp]: "call (Some a) = Inr a" "call None = Inl Diverges"
  by (simp_all add: call_def)

lemma remember_in:
  assumes "int (length (d_blocks d)) = n" "int (length (d_sizes d)) = n" "0 \<le> i" "i < n"
  shows "remember i p sz d = Inr (d\<lparr>d_blocks := (d_blocks d)[nat i := p], d_sizes := (d_sizes d)[nat i := sz]\<rparr>)"
  using assms by (simp add: remember_def)

lemma ids_alloc:
  assumes ok: "ids_ok n live d A" and i: "0 \<le> i" "i < n" "i \<notin> live" and sz: "0 < sz" "sz \<le> z - 8"
    and new: "p \<notin> fst ` A"
  shows "ids_ok n (insert i live) (d\<lparr>d_mm := s, d_blocks := (d_blocks d)[nat i := p], d_sizes := (d_sizes d)[nat i := sz]\<rparr>)
    (insert (p, z) A)"
proof -
  have len: "length (d_blocks d) = nat n" "length (d_sizes d) = nat n" using ok by (auto simp: ids_ok_def)
  have other: "nat k \<noteq> nat i" "d_blocks d ! nat k \<noteq> p" if k: "k \<in> live" for k
  proof -
    have k': "0 \<le> k" "\<exists>y. (d_blocks d ! nat k, y) \<in> A" using ok k by (auto simp: ids_ok_def)
    from k i have "k \<noteq> i" by blast
    with k' i show "nat k \<noteq> nat i" by (simp add: eq_nat_nat_iff)
    from k'(2) new show "d_blocks d ! nat k \<noteq> p" by force
  qed
  have inj: "inj_on (\<lambda>k. (d_blocks d)[nat i := p] ! nat k) (insert i live)"
  proof (rule inj_onI)
    fix k l assume k: "k \<in> insert i live" "l \<in> insert i live"
      and e: "(d_blocks d)[nat i := p] ! nat k = (d_blocks d)[nat i := p] ! nat l"
    have "k \<in> live \<Longrightarrow> l \<in> live \<Longrightarrow> d_blocks d ! nat k = d_blocks d ! nat l \<Longrightarrow> k = l"
      using ok by (auto simp: ids_ok_def inj_on_def)
    moreover have "(d_blocks d)[nat i := p] ! nat j = (if j = i then p else d_blocks d ! nat j)" if "j \<in> insert i live" for j
      using that other(1) [of j] i len by (cases "j = i") auto
    ultimately show "k = l" using k e other(2) by (auto split: if_splits)
  qed
  have per: "0 \<le> k \<and> k < n \<and> 0 < (d_sizes d)[nat i := sz] ! nat k \<and>
      (\<exists>y. ((d_blocks d)[nat i := p] ! nat k, y) \<in> insert (p, z) A \<and> (d_sizes d)[nat i := sz] ! nat k \<le> y - 8)"
    if k: "k \<in> insert i live" for k
  proof (cases "k = i")
    case True
    with i len sz show ?thesis by auto
  next
    case False
    with k have "k \<in> live" by simp
    with ok other [OF this] show ?thesis by (auto simp: ids_ok_def)
  qed
  with inj ok show ?thesis by (simp add: ids_ok_def)
qed

lemma ids_free:
  assumes ok: "ids_ok n live d A" and i: "i \<in> live" and p: "(d_blocks d ! nat i, z) \<in> A"
    and uniq: "\<And>q y y'. (q, y) \<in> A \<Longrightarrow> (q, y') \<in> A \<Longrightarrow> y = y'"
  shows "ids_ok n (live - {i}) (d\<lparr>d_mm := s\<rparr>) (A - {(d_blocks d ! nat i, z)})"
proof -
  have "d_blocks d ! nat k \<noteq> d_blocks d ! nat i" if "k \<in> live - {i}" for k
    using that ok i by (auto simp: ids_ok_def inj_on_def)
  with ok show ?thesis by (auto simp: ids_ok_def inj_on_def)
qed

lemma allocs_unique: "mm_ok s bs \<Longrightarrow> (q, y) \<in> allocs a bs \<Longrightarrow> (q, y') \<in> allocs a bs \<Longrightarrow> y = y'"
  using block_unique [OF ok_sizes, of s bs q y a q y'] allocs_bounds(3) [OF ok_sizes, of s bs q _ a]
  by fastforce

subsection \<open>The range list\<close>

lemma cover_alloc:
  assumes c: "ranges_cover rs A" and n: "0 < n" "n \<le> z - 8" and g: "good_block s n p z"
    and apart: "\<forall>(q, y) \<in> A. q + y \<le> p \<or> p + z \<le> q" and A: "\<And>q y. (q, y) \<in> A \<Longrightarrow> 16 \<le> y"
  shows "add_range s rs p n = Inr (\<lparr>range_lo = p, range_hi = p + n - 1\<rparr> # rs)"
    and "ranges_cover (\<lparr>range_lo = p, range_hi = p + n - 1\<rparr> # rs) (insert (p, z) A)"
    and "p \<notin> fst ` A"
proof -
  show new: "p \<notin> fst ` A"
  proof
    assume "p \<in> fst ` A"
    then obtain y where y: "(p, y) \<in> A" by auto
    with apart have "p + y \<le> p \<or> p + z \<le> p" by blast
    with A [OF y] n show False by linarith
  qed
  have "first_overlap p (p + n - 1) rs = None"
    unfolding first_overlap_None
  proof (intro ballI conjI notI)
    fix r assume r: "r \<in> set rs"
    then obtain y where y: "(range_lo r, y) \<in> A" "range_hi r < range_lo r + y - 8" using c by (auto simp: ranges_cover_def)
    with apart have a: "range_lo r + y \<le> p \<or> p + z \<le> range_lo r" by blast
    show False if "range_lo r \<le> p \<and> p \<le> range_hi r" using a y(2) that n A [OF y(1)] by linarith
    show False if "range_lo r \<le> p + n - 1 \<and> p + n - 1 \<le> range_hi r" using a y(2) that n A [OF y(1)] by linarith
  qed
  with g n show "add_range s rs p n = Inr (\<lparr>range_lo = p, range_hi = p + n - 1\<rparr> # rs)"
    by (auto simp: add_range_def good_block_def Let_def)
  have "p \<notin> range_lo ` set rs" using c new by (simp add: ranges_cover_def)
  moreover have "\<exists>y. (range_lo r, y) \<in> insert (p, z) A \<and> range_lo r \<le> range_hi r \<and> range_hi r < range_lo r + y - 8"
    if "r \<in> set rs" for r
    using c that unfolding ranges_cover_def by blast
  ultimately show "ranges_cover (\<lparr>range_lo = p, range_hi = p + n - 1\<rparr> # rs) (insert (p, z) A)"
    using c n by (simp add: ranges_cover_def) (rule exI [of _ z], simp)
qed

lemma cover_free:
  assumes c: "ranges_cover rs A" and p: "(p, z) \<in> A" and uniq: "\<And>q y y'. (q, y) \<in> A \<Longrightarrow> (q, y') \<in> A \<Longrightarrow> y = y'"
  shows "ranges_cover (remove_range p rs) (A - {(p, z)})"
proof -
  have d: "distinct (map range_lo rs)" using c by (simp add: ranges_cover_def)
  note s = set_remove_range [OF d, of p]
  have "fst ` (A - {(p, z)}) = fst ` A - {p}"
  proof (rule set_eqI)
    fix q show "q \<in> fst ` (A - {(p, z)}) \<longleftrightarrow> q \<in> fst ` A - {p}"
      unfolding Domain_fst [symmetric] using uniq [OF p] by auto
  qed
  moreover have "range_lo ` set (remove_range p rs) = range_lo ` set rs - {p}" unfolding s by auto
  moreover have "distinct (map range_lo (remove_range p rs))"
    using d by (induction rs) (auto dest: subsetD [OF remove_range_subset])
  moreover have "\<exists>y. (range_lo r, y) \<in> A - {(p, z)} \<and> range_lo r \<le> range_hi r \<and> range_hi r < range_lo r + y - 8"
    if "r \<in> set (remove_range p rs)" for r
    using that c unfolding s ranges_cover_def by auto
  ultimately show ?thesis using c by (simp add: ranges_cover_def)
qed

lemma fold_remove_all:
  "distinct (map range_lo rs) \<Longrightarrow> range_lo ` set rs \<subseteq> set ps \<Longrightarrow> fold remove_range ps rs = []"
proof (induction ps arbitrary: rs)
  case (Cons p ps)
  have "distinct (map range_lo (remove_range p rs))"
    using Cons.prems(1) by (induction rs) (auto dest: subsetD [OF remove_range_subset])
  moreover have "range_lo ` set (remove_range p rs) \<subseteq> set ps"
    using Cons.prems set_remove_range [OF Cons.prems(1), of p] by auto
  ultimately show ?case using Cons.IH by simp
qed simp

subsection \<open>One request\<close>

definition run_ok :: "int \<Rightarrow> int set \<Rightarrow> drv \<Rightarrow> bool" where
  "run_ok n live d \<longleftrightarrow> (\<exists>bs. mm_ok (d_mm d) bs \<and> ids_ok n live d (allocs (first_block (d_mm d)) bs) \<and>
     (gl_ranges (d_mm d) \<longrightarrow> ranges_cover (ranges (d_mm d)) (allocs (first_block (d_mm d)) bs)))"

lemma allocs_16: "mm_ok s bs \<Longrightarrow> (q, y) \<in> allocs a bs \<Longrightarrow> 16 \<le> y"
  using allocs_bounds(3) [OF ok_sizes] by blast

lemma u32_int: "0 < sz \<Longrightarrow> sz < 2 ^ 31 \<Longrightarrow> u32 sz = sz"
  by (simp add: u32_def)

abbreviation stored :: "int \<Rightarrow> addr \<Rightarrow> int \<Rightarrow> mm \<Rightarrow> drv \<Rightarrow> drv" where
  "stored i p sz s d \<equiv> d\<lparr>d_mm := s, d_blocks := (d_blocks d)[nat i := p], d_sizes := (d_sizes d)[nat i := sz]\<rparr>"

lemma malloc_run:
  assumes run: "run_ok n live d" and i: "0 \<le> i" "i < n" "i \<notin> live" and sz: "0 < sz" "sz < 2 ^ 31"
    and space: "in_space (d_mm d) (adjusted_size sz)"
  obtains (full) "\<not> can_grow (d_mm d) (adjusted_size sz)" "mm_malloc (u32 sz) (d_mm d) = Some (NULL, d_mm d)"
  | (room) p z s bs where "mm_malloc (u32 sz) (d_mm d) = Some (p, s)" "p \<noteq> NULL" "mm_ok s bs"
      "(p, z) \<in> allocs (first_block s) bs" "sz \<le> z - 8" "only_heap_changed (d_mm d) s"
      "mem_brk s \<le> mem_brk (d_mm d) + grow_size (adjusted_size sz)"
      "ids_ok n (insert i live) (stored i p sz s d) (allocs (first_block s) bs)"
      "gl_ranges s \<longrightarrow> add_range s (ranges s) p sz = Inr (\<lparr>range_lo = p, range_hi = p + sz - 1\<rparr> # ranges s) \<and>
        ranges_cover (\<lparr>range_lo = p, range_hi = p + sz - 1\<rparr> # ranges s) (allocs (first_block s) bs)"
proof -
  from run obtain bs0 where R: "mm_ok (d_mm d) bs0" "ids_ok n live d (allocs (first_block (d_mm d)) bs0)"
    "gl_ranges (d_mm d) \<longrightarrow> ranges_cover (ranges (d_mm d)) (allocs (first_block (d_mm d)) bs0)"
    unfolding run_ok_def by blast
  let ?A = "allocs (first_block (d_mm d)) bs0"
  have sz': "sz < 4294967273" using sz(2) by simp
  show thesis
  proof (cases "no_fit (adjusted_size sz) bs0 \<and> \<not> can_grow (d_mm d) (adjusted_size sz)")
    case True
    with mm_malloc_grow(2) [OF R(1) sz(1) sz' refl] space show thesis by (intro full) (auto simp: u32_int [OF sz])
  next
    case False
    with malloc_ok [OF R(1) sz(1) sz'] obtain p z bs s where
      m: "mm_malloc sz (d_mm d) = Some (p, s)" "p \<noteq> 0" "mm_ok s bs" "allocs (first_block s) bs = insert (p, z) ?A"
        "good_block s sz p z" "\<forall>(q, y) \<in> ?A. q + y \<le> p \<or> p + z \<le> q" "only_heap_changed (d_mm d) s"
        "mem_brk s \<le> mem_brk (d_mm d) + grow_size (adjusted_size sz)"
      by blast
    have z: "sz \<le> z - 8" using m(5) by (simp add: good_block_def)
    have same: "gl_ranges s = gl_ranges (d_mm d)" "ranges s = ranges (d_mm d)"
      using m(7) by (simp_all add: only_heap_changed_def same_fields_def)
    have fresh: "p \<notin> fst ` ?A"
    proof
      assume "p \<in> fst ` ?A"
      then obtain y where y: "(p, y) \<in> ?A" by auto
      with m(6) have "p + y \<le> p \<or> p + z \<le> p" by blast
      with allocs_16 [OF R(1) y] sz(1) z show False by linarith
    qed
    have ids: "ids_ok n (insert i live) (stored i p sz s d) (allocs (first_block s) bs)"
      unfolding m(4) by (rule ids_alloc [OF R(2) i sz(1) z fresh])
    have cover: "gl_ranges s \<longrightarrow> add_range s (ranges s) p sz = Inr (\<lparr>range_lo = p, range_hi = p + sz - 1\<rparr> # ranges s) \<and>
        ranges_cover (\<lparr>range_lo = p, range_hi = p + sz - 1\<rparr> # ranges s) (allocs (first_block s) bs)"
    proof
      assume "gl_ranges s"
      with R(3) same have c: "ranges_cover (ranges s) ?A" by simp
      show "add_range s (ranges s) p sz = Inr (\<lparr>range_lo = p, range_hi = p + sz - 1\<rparr> # ranges s) \<and>
        ranges_cover (\<lparr>range_lo = p, range_hi = p + sz - 1\<rparr> # ranges s) (allocs (first_block s) bs)"
        using cover_alloc [OF c sz(1) z m(5,6) allocs_16 [OF R(1)]] by (simp add: m(4))
    qed
    show thesis
      by (rule room [OF _ _ m(3) _ z m(7,8) ids cover]) (simp_all add: u32_int [OF sz] m(1,2,4))
  qed
qed

lemma free_run:
  assumes run: "run_ok n live d" and i: "i \<in> live"
  obtains s where "0 \<le> i" "i < int (length (d_blocks d))" "i < int (length (d_sizes d))" "mm_free (d_blocks d ! nat i) (d_mm d) = Some s"
    "run_ok n (live - {i}) (d\<lparr>d_mm := s\<rparr>)" "only_heap_changed ((d_mm d)\<lparr>ranges := ranges s\<rparr>) s"
    "mem_brk s = mem_brk (d_mm d)"
proof -
  from run obtain bs where R: "mm_ok (d_mm d) bs" "ids_ok n live d (allocs (first_block (d_mm d)) bs)"
    "gl_ranges (d_mm d) \<longrightarrow> ranges_cover (ranges (d_mm d)) (allocs (first_block (d_mm d)) bs)"
    unfolding run_ok_def by blast
  let ?A = "allocs (first_block (d_mm d)) bs" and ?p = "d_blocks d ! nat i"
  from R(2) i obtain z where z: "(?p, z) \<in> ?A" and r: "0 \<le> i" "i < int (length (d_blocks d))" "i < int (length (d_sizes d))"
    by (auto simp: ids_ok_def)
  from mm_free_step [OF R(1) z] obtain bs' s where
    m: "mm_free ?p (d_mm d) = Some s" "mm_ok s bs'" "allocs (first_block (d_mm d)) bs' = ?A - {(?p, z)}"
      "same_fields ((d_mm d)\<lparr>ranges := ranges_after_free ?p (d_mm d)\<rparr>) s"
    by blast
  note F = same_fieldsD [OF m(4), simplified]
  note uniq = allocs_unique [OF R(1)]
  have rg: "ranges s = ranges_after_free ?p (d_mm d)" "gl_ranges s = gl_ranges (d_mm d)"
    "first_block s = first_block (d_mm d)" "mem_brk s = mem_brk (d_mm d)"
    using m(4) by (simp_all add: same_fields_def)
  have "ids_ok n (live - {i}) (d\<lparr>d_mm := s\<rparr>) (?A - {(?p, z)})" by (rule ids_free [OF R(2) i z uniq])
  moreover have "gl_ranges s \<longrightarrow> ranges_cover (ranges s) (?A - {(?p, z)})"
    using R(3) cover_free [OF _ z uniq] by (simp add: rg ranges_after_free_def)
  ultimately have "run_ok n (live - {i}) (d\<lparr>d_mm := s\<rparr>)"
    unfolding run_ok_def using m(2,3) rg(3) by (intro exI [of _ bs']) simp
  moreover have "only_heap_changed ((d_mm d)\<lparr>ranges := ranges s\<rparr>) s"
    using m(4) rg by (simp add: only_heap_changed_def same_fields_def)
  ultimately show thesis by (rule that [OF r m(1) _ _ rg(4)])
qed

subsection \<open>The correctness run\<close>

text \<open>The part of the state that no request changes.\<close>

definition same_arena :: "mm \<Rightarrow> mm \<Rightarrow> bool" where
  "same_arena s s' \<longleftrightarrow> mem_start_brk s' = mem_start_brk s \<and> mem_max_addr s' = mem_max_addr s \<and>
     gl_ranges s' = gl_ranges s \<and> mem_brk s \<le> mem_brk s'"

lemma same_arena_refl [simp]: "same_arena s s"
  by (simp add: same_arena_def)

lemma same_arena_trans: "same_arena s s' \<Longrightarrow> same_arena s' s'' \<Longrightarrow> same_arena s s''"
  by (simp add: same_arena_def)

lemma heap_changed_arena: "only_heap_changed s s' \<Longrightarrow> same_arena s s'"
  by (simp add: only_heap_changed_def same_fields_def same_arena_def)

lemma alloc_valid:
  assumes run: "run_ok n live d" and g: "gl_ranges (d_mm d)"
    and i: "0 \<le> i" "i < n" "i \<notin> live" and sz: "0 < sz" "sz < 2 ^ 31"
    and space: "in_space (d_mm d) (adjusted_size sz)"
  obtains (full) "\<not> can_grow (d_mm d) (adjusted_size sz)"
      "valid_alloc k i sz d = Inr (False, malloc_error k MallocFailed d)"
  | (room) d' where "valid_alloc k i sz d = Inr (True, d')" "run_ok n (insert i live) d'" "d_errors d' = d_errors d"
      "same_arena (d_mm d) (d_mm d')" "mem_brk (d_mm d') \<le> mem_brk (d_mm d) + grow_size (adjusted_size sz)"
proof (rule malloc_run [OF run i sz space])
  assume "\<not> can_grow (d_mm d) (adjusted_size sz)" "mm_malloc (u32 sz) (d_mm d) = Some (NULL, d_mm d)"
  then show thesis by (intro full) (simp_all add: valid_alloc_def)
next
  fix p z s bs
  assume m: "mm_malloc (u32 sz) (d_mm d) = Some (p, s)" "p \<noteq> NULL" "mm_ok s bs"
    "(p, z) \<in> allocs (first_block s) bs" "sz \<le> z - 8" "only_heap_changed (d_mm d) s"
    "mem_brk s \<le> mem_brk (d_mm d) + grow_size (adjusted_size sz)"
    "ids_ok n (insert i live) (stored i p sz s d) (allocs (first_block s) bs)"
    "gl_ranges s \<longrightarrow> add_range s (ranges s) p sz = Inr (\<lparr>range_lo = p, range_hi = p + sz - 1\<rparr> # ranges s) \<and>
      ranges_cover (\<lparr>range_lo = p, range_hi = p + sz - 1\<rparr> # ranges s) (allocs (first_block s) bs)"
  let ?r = "\<lparr>range_lo = p, range_hi = p + sz - 1\<rparr>"
  let ?s = "memset p (i AND 255) sz (s\<lparr>ranges := ?r # ranges s\<rparr>)"
  from m(6) g have g': "gl_ranges s" by (simp add: only_heap_changed_def same_fields_def)
  with m(9) have r: "add_range s (ranges s) p sz = Inr (?r # ranges s)"
    "ranges_cover (?r # ranges s) (allocs (first_block s) bs)" by simp_all
  have len: "int (length (d_blocks d)) = n" "int (length (d_sizes d)) = n"
    using m(8) by (simp_all add: ids_ok_def)
  have "valid_alloc k i sz d = Inr (True, stored i p sz ?s d)"
    using m(1,2) r(1) i len by (simp add: valid_alloc_def remember_def Let_def)
  moreover have "mm_ok ?s bs" by (rule memset_ok [OF _ _ m(5)]) (use m(3,4) in simp_all)
  moreover have "ids_ok n (insert i live) (stored i p sz ?s d) (allocs (first_block s) bs)"
    using m(8) by (simp add: ids_ok_def)
  ultimately show thesis
    using r(2) m(7) heap_changed_arena [OF m(6)] 
    by (intro room [of "stored i p sz ?s d"]) (auto simp: run_ok_def same_arena_def)
qed

lemma legal_Cons:
  "legal n live (t # ts) \<Longrightarrow>
   (op_type t = ALLOC \<and> 0 \<le> op_index t \<and> op_index t < n \<and> op_index t \<notin> live \<and> 0 < op_size t \<and> op_size t < 2 ^ 31 \<and>
      legal n (insert (op_index t) live) ts) \<or>
   (op_type t = FREE \<and> op_index t \<in> live \<and> legal n (live - {op_index t}) ts) \<or>
   (op_type t = REALLOC \<and> op_index t \<in> live \<and> legal n live ts)"
  by (simp split: op_type.splits)

lemma alloc_growth_Cons:
  "alloc_growth (t # ts) = (if op_type t = ALLOC then grow_size (adjusted_size (op_size t)) else 0) + alloc_growth ts"
  by (simp add: alloc_growth_def)

lemma grow_size_pos: "0 < sz \<Longrightarrow> sz < 2 ^ 31 \<Longrightarrow> 4096 \<le> grow_size (adjusted_size sz)"
  using grow_size_bounds(2) [of "adjusted_size sz"] adjusted_size_bounds [of sz] by simp

lemma alloc_growth_nonneg: "legal n live ts \<Longrightarrow> 0 \<le> alloc_growth ts"
proof (induction ts arbitrary: live)
  case (Cons t ts)
  from legal_Cons [OF Cons.prems] Cons.IH show ?case
    using grow_size_pos [of "op_size t"] by (fastforce simp: alloc_growth_Cons)
qed (simp add: alloc_growth_def)

lemma growth_ok_alloc:
  assumes "run_ok n live d" "growth_ok (d_mm d) (t # ts)" "op_type t = ALLOC" "0 \<le> alloc_growth ts"
  shows "in_space (d_mm d) (adjusted_size (op_size t))"
proof -
  obtain bs where "heap_shape (d_mm d) bs (frees (first_block (d_mm d)) bs)"
    using assms(1) by (auto simp: run_ok_def mm_ok_def heap_inv_def)
  note D = heap_shapeD(11,12) [OF this]
  show ?thesis
    using assms(2-4) D by (auto simp: growth_ok_def in_reach_def in_space_def alloc_growth_Cons)
qed

lemma growth_ok_rest:
  assumes "growth_ok s (t # ts)" "mem_max_addr s' = mem_max_addr s"
    and "mem_brk s' \<le> mem_brk s + (if op_type t = ALLOC then grow_size (adjusted_size (op_size t)) else 0)"
  shows "growth_ok s' ts"
  using assms by (auto simp: growth_ok_def in_reach_def alloc_growth_Cons)

text \<open>The loop ends with every request served, or at the request it reports.\<close>

definition only_malloc_failed :: "(nat \<times> driver_error) list \<Rightarrow> bool" where
  "only_malloc_failed es \<longleftrightarrow> (\<exists>k. es = [(k, MallocFailed)])"

lemma loop_valid:
  assumes "legal n live ts" "run_ok n live d" "gl_ranges (d_mm d)" "d_errors d = []"
    "mem_max_addr (d_mm d) \<le> mem_brk (d_mm d) + 2147483647" "growth_ok (d_mm d) ts"
  shows "(\<exists>d' live'. valid_loop k ts d = Inr (True, d') \<and> \<not> has_realloc ts \<and> run_ok n live' d' \<and> d_errors d' = [] \<and>
      same_arena (d_mm d) (d_mm d')) \<or>
    (has_realloc ts \<and> (\<exists>d'. valid_loop k ts d = Inr (False, d') \<and> d_errors d' = [(k + first_realloc ts, ReallocFailed)])) \<or>
    (mem_max_addr (d_mm d) < mem_brk (d_mm d) + alloc_growth ts \<and>
      (\<exists>d'. valid_loop k ts d = Inr (False, d') \<and> only_malloc_failed (d_errors d')))"
  using assms
proof (induction ts arbitrary: k live d)
  case (Cons t ts)
  note run = Cons.prems(2) and g = Cons.prems(3) and e = Cons.prems(4) and top = Cons.prems(5)
    and grow = Cons.prems(6)
  let ?i = "op_index t" and ?sz = "op_size t"
  from legal_Cons [OF Cons.prems(1)] show ?case
  proof (elim disjE conjE, goal_cases)
    case 1
    note t = 1
    have rest: "0 \<le> alloc_growth ts" by (rule alloc_growth_nonneg [OF t(7)])
    have gt: "alloc_growth (t # ts) = grow_size (adjusted_size ?sz) + alloc_growth ts" using t(1) by (simp add: alloc_growth_Cons)
    show ?case
    proof (rule alloc_valid [OF run g t(2-6) growth_ok_alloc [OF run grow t(1) rest], of k])
      assume a: "\<not> can_grow (d_mm d) (adjusted_size ?sz)"
        "valid_alloc k ?i ?sz d = Inr (False, malloc_error k MallocFailed d)"
      have "mem_max_addr (d_mm d) < mem_brk (d_mm d) + grow_size (adjusted_size ?sz)"
        using a(1) top unfolding can_grow_def by linarith
      with a(2) t(1) e gt rest show ?thesis
        by (auto simp: valid_step_def malloc_error_def only_malloc_failed_def)
    next
      fix d' assume a: "valid_alloc k ?i ?sz d = Inr (True, d')" "run_ok n (insert ?i live) d'" "d_errors d' = d_errors d"
        "same_arena (d_mm d) (d_mm d')" "mem_brk (d_mm d') \<le> mem_brk (d_mm d) + grow_size (adjusted_size ?sz)"
      have top': "mem_max_addr (d_mm d') \<le> mem_brk (d_mm d') + 2147483647" "gl_ranges (d_mm d')"
        "mem_max_addr (d_mm d') = mem_max_addr (d_mm d)"
        using a(4) top g by (auto simp: same_arena_def)
      have step: "valid_loop k (t # ts) d = valid_loop (k + 1) ts d'"
        using a(1) t(1) by (simp add: valid_step_def)
      from a(3) e have "d_errors d' = []" by simp
      have grow': "growth_ok (d_mm d') ts" using a(5) t(1) by (intro growth_ok_rest [OF grow top'(3)]) simp
      from Cons.IH [OF t(7) a(2) top'(2) \<open>d_errors d' = []\<close> top'(1) grow', of "k + 1"] show ?thesis
        unfolding step top'(3) gt
      proof (elim disjE exE conjE, goal_cases)
        case (1 d'' live')
        then show ?case using same_arena_trans [OF a(4)] t(1) by auto
      next
        case (2 d'')
        then show ?case using t(1) by auto
      next
        case (3 d'')
        then show ?case using a(5) by (intro disjI2 conjI exI [of _ d'']) simp_all
      qed
    qed
  next
    case 2
    note t = 2
    have gt: "alloc_growth (t # ts) = alloc_growth ts" using t(1) by (simp add: alloc_growth_Cons)
    from free_run [OF run t(2)] obtain s where
      f: "0 \<le> ?i" "?i < int (length (d_blocks d))" "mm_free (d_blocks d ! nat ?i) (d_mm d) = Some s"
        "run_ok n (live - {?i}) (d\<lparr>d_mm := s\<rparr>)" "only_heap_changed ((d_mm d)\<lparr>ranges := ranges s\<rparr>) s"
        "mem_brk s = mem_brk (d_mm d)" by metis
    have ar: "same_arena (d_mm d) s" using heap_changed_arena [OF f(5)] by (simp add: same_arena_def)
    have step: "valid_loop k (t # ts) d = valid_loop (k + 1) ts (d\<lparr>d_mm := s\<rparr>)"
      using t(1) f(1-3) by (simp add: valid_step_def valid_free_def)
    have pre: "gl_ranges (d_mm (d\<lparr>d_mm := s\<rparr>))" "d_errors (d\<lparr>d_mm := s\<rparr>) = []"
      "mem_max_addr (d_mm (d\<lparr>d_mm := s\<rparr>)) \<le> mem_brk (d_mm (d\<lparr>d_mm := s\<rparr>)) + 2147483647"
      "mem_max_addr s = mem_max_addr (d_mm d)"
      using ar g e top f(6) by (auto simp: same_arena_def)
    have grow': "growth_ok (d_mm (d\<lparr>d_mm := s\<rparr>)) ts"
      using pre(4) f(6) t(1) by (intro growth_ok_rest [OF grow]) simp_all
    from Cons.IH [OF t(3) f(4) pre(1-3) grow', of "k + 1"] show ?case
      unfolding step gt
    proof (elim disjE exE conjE, goal_cases)
      case (1 d'' live')
      then show ?case using same_arena_trans [OF ar] t(1) by fastforce
    next
      case (2 d'')
      then show ?case using t(1) by auto
    next
      case (3 d'')
      then show ?case using pre(4) f(6) by (intro disjI2 conjI exI [of _ d'']) simp_all
    qed
  next
    case 3
    then have "0 \<le> ?i" "?i < int (length (d_blocks d))" using run by (auto simp: run_ok_def ids_ok_def)
    with 3(1) e show ?case
      by (auto simp: valid_step_def valid_realloc_def mm_realloc_def malloc_error_def)
  qed
qed auto

text \<open>The arena that \<open>mem_init\<close> gives the allocator.\<close>

definition arena_ok :: "mm \<Rightarrow> bool" where
  "arena_ok s \<longleftrightarrow> 8 dvd mem_start_brk s \<and> 0 < mem_start_brk s \<and>
     mem_max_addr s = mem_start_brk s + MAX_HEAP \<and> mem_max_addr s < 2 ^ 32"

lemma init_run:
  assumes ar: "arena_ok s" and n: "0 \<le> num_ids tr"
  obtains s' where "mm_init g (mem_reset_brk s) = Some (0, s')" "mm_ok s' [(4096, False)]" "gl_ranges s' = g"
    "ranges s' = ranges s" "mem_brk s' = mem_start_brk s + 4152" "mem_max_addr s' = mem_start_brk s + MAX_HEAP"
    "mem_start_brk s' = mem_start_brk s" "run_ok (num_ids tr) {} (start_drv tr (s'\<lparr>ranges := []\<rparr>))"
proof -
  have pre: "mem_brk (mem_reset_brk s) = mem_start_brk (mem_reset_brk s)" "8 dvd mem_start_brk (mem_reset_brk s)"
    "0 < mem_start_brk (mem_reset_brk s)" "mem_max_addr (mem_reset_brk s) < 4294967296"
    "mem_start_brk (mem_reset_brk s) + 4152 \<le> mem_max_addr (mem_reset_brk s)"
    using ar by (simp_all add: arena_ok_def mem_reset_brk_def MAX_HEAP_def)
  from mm_init_spec(1) [OF pre(1-5), of g] obtain s' where
    m: "mm_init g (mem_reset_brk s) = Some (0, s')" "mm_ok s' [(4096, False)]" "gl_ranges s' = g" "ranges s' = ranges s"
      "block_list_start s' = mem_start_brk s" "mem_max_addr s' = mem_start_brk s + MAX_HEAP"
    using ar by (auto simp: mem_reset_brk_def arena_ok_def)
  have b: "mem_brk s' = mem_start_brk s + 4152" "mem_start_brk s' = mem_start_brk s"
    using m(2,5) by (simp_all add: mm_ok_def heap_inv_def heap_shape_def)
  have "run_ok (num_ids tr) {} (start_drv tr (s'\<lparr>ranges := []\<rparr>))"
    using m(2) n unfolding run_ok_def
    by (intro exI [of _ "[(4096, False)]"]) (simp add: start_drv_def ids_ok_def ranges_cover_def allocs_def)
  with m b show thesis by (intro that)
qed

lemma exit_run:
  assumes run: "run_ok n live d" and g: "gl_ranges (d_mm d)"
  obtains s' where "mm_exit (d_mm d) = Some s'" "ranges s' = []" "same_arena (d_mm d) s'"
proof -
  from run g obtain bs where R: "mm_ok (d_mm d) bs" "ranges_cover (ranges (d_mm d)) (allocs (first_block (d_mm d)) bs)"
    unfolding run_ok_def by blast
  from mm_exit_inv [OF R(1)] obtain s' where s': "mm_exit (d_mm d) = Some s'"
    "ranges s' = exit_ranges (first_block (d_mm d)) bs (d_mm d)" "same_arena (d_mm d) s'"
    by (auto simp: same_fields_def same_arena_def)
  have "ranges s' = []"
    using fold_remove_all [of "ranges (d_mm d)" "alloc_addrs (first_block (d_mm d)) bs"] R(2) g
    by (simp add: s'(2) exit_ranges_def ranges_cover_def alloc_addrs_set)
  with s'(1,3) show thesis by (intro that)
qed

lemma start_drv_fields [simp]: "d_mm (start_drv tr s) = s" "d_errors (start_drv tr s) = []"
  by (simp_all add: start_drv_def)

lemma valid_run:
  assumes "legal (num_ids tr) {} (trace_ops tr)" "0 \<le> num_ids tr" "arena_ok s"
    and room: "in_reach s (trace_ops tr) \<or> 4152 + alloc_growth (trace_ops tr) \<le> MAX_HEAP"
  shows "\<exists>d. (eval_mm_valid tr s = Inr (True, d) \<and> \<not> has_realloc (trace_ops tr) \<and> d_errors d = [] \<and> arena_ok (d_mm d)) \<or>
    (eval_mm_valid tr s = Inr (False, d) \<and> has_realloc (trace_ops tr) \<and>
      d_errors d = [(first_realloc (trace_ops tr), ReallocFailed)]) \<or>
    (eval_mm_valid tr s = Inr (False, d) \<and> only_malloc_failed (d_errors d) \<and>
      MAX_HEAP < 4152 + alloc_growth (trace_ops tr))"
proof -
  let ?s = "(mem_reset_brk s)\<lparr>ranges := clear_ranges (ranges (mem_reset_brk s))\<rparr>"
  have "arena_ok (s\<lparr>ranges := []\<rparr>)" using assms(3) by (simp add: arena_ok_def)
  then obtain s' where s': "mm_init True (mem_reset_brk (s\<lparr>ranges := []\<rparr>)) = Some (0, s')"
    "gl_ranges s' = True" "ranges s' = ranges (s\<lparr>ranges := []\<rparr>)" "mem_brk s' = mem_start_brk (s\<lparr>ranges := []\<rparr>) + 4152"
      "mem_max_addr s' = mem_start_brk (s\<lparr>ranges := []\<rparr>) + MAX_HEAP"
      "mem_start_brk s' = mem_start_brk (s\<lparr>ranges := []\<rparr>)" "run_ok (num_ids tr) {} (start_drv tr (s'\<lparr>ranges := []\<rparr>))"
    by (rule init_run [OF _ assms(2), of _ True])
  then have i: "gl_ranges s'" "ranges s' = []" "mem_brk s' = mem_start_brk s + 4152"
      "mem_max_addr s' = mem_start_brk s + MAX_HEAP" "run_ok (num_ids tr) {} (start_drv tr (s'\<lparr>ranges := []\<rparr>))" "mem_start_brk s' = mem_start_brk s"
    by simp_all
  note s'(1)
  moreover have "mem_reset_brk (s\<lparr>ranges := []\<rparr>) = ?s" by (simp add: mem_reset_brk_def clear_ranges_def)
  ultimately have init: "mm_init True ?s = Some (0, s')" by simp
  let ?d = "start_drv tr s'"
  have eq: "s'\<lparr>ranges := []\<rparr> = s'" using i(2) by simp
  have run: "run_ok (num_ids tr) {} ?d" using i(5) unfolding eq .
  have ev: "eval_mm_valid tr s = and_then (valid_loop 0 (trace_ops tr) ?d) (\<lambda>(ok, d).
      if \<not> ok then Inr (False, d)
      else and_then (call (mm_exit (d_mm d))) (\<lambda>s.
        if ranges s \<noteq> [] then Inr (False, malloc_error (nat (num_ops tr)) LeakAtExit (d\<lparr>d_mm := s\<rparr>))
        else Inr (True, d\<lparr>d_mm := s\<rparr>)))"
    unfolding eval_mm_valid_def Let_def init by simp
  have pre: "gl_ranges (d_mm ?d)" "d_errors ?d = []" "mem_max_addr (d_mm ?d) \<le> mem_brk (d_mm ?d) + 2147483647"
    using i by (simp_all add: MAX_HEAP_def)
  have grow: "growth_ok (d_mm ?d) (trace_ops tr)"
    using room i(3,4) assms(3) by (auto simp: growth_ok_def in_reach_def arena_ok_def)
  from loop_valid [OF assms(1) run pre grow, of 0] show ?thesis
  proof (elim disjE exE conjE, goal_cases)
    case (1 d live)
    then have "gl_ranges (d_mm d)" using pre(1) by (simp add: same_arena_def)
    from exit_run [OF 1(3) this] obtain s'' where s'': "mm_exit (d_mm d) = Some s''" "ranges s'' = []" "same_arena (d_mm d) s''" .
    have "arena_ok s''" using 1(5) s''(3) i(4,6) assms(3) by (simp add: same_arena_def arena_ok_def)
    with 1 s''(1,2) show ?case by (intro exI [of _ "d\<lparr>d_mm := s''\<rparr>"] disjI1) (simp add: ev)
  next
    case (2 d)
    then show ?case by (intro exI [of _ d] disjI2 disjI1) (simp add: ev)
  next
    case (3 d)
    then show ?case using i(3,4) by (intro exI [of _ d] disjI2) (simp add: ev)
  qed
qed

text \<open>C21. \<^verbatim>\<open>eval_mm_valid\<close> on every trace that uses ids legally and of which no request leaves the address space.
  Without reallocations it accepts the allocator: no request reports an error, no range check fails, and
  \<^verbatim>\<open>mm_exit\<close> leaves the range list empty. With one it reports that the first \<^verbatim>\<open>mm_realloc\<close>, which the allocator does not
  have, has failed. The only other error it can report is a failed \<^verbatim>\<open>mm_malloc\<close>, and only when the 64 MB arena cannot hold
  the prologue, the first page and the growth that the trace's allocations may ask for.\<close>

theorem eval_mm_valid_accepts:
  assumes "legal (num_ids tr) {} (trace_ops tr)" "0 \<le> num_ids tr" "arena_ok s" "in_reach s (trace_ops tr)"
  shows "\<exists>d. (eval_mm_valid tr s = Inr (True, d) \<and> \<not> has_realloc (trace_ops tr) \<and> d_errors d = []) \<or>
    (eval_mm_valid tr s = Inr (False, d) \<and> has_realloc (trace_ops tr) \<and>
      d_errors d = [(first_realloc (trace_ops tr), ReallocFailed)]) \<or>
    (eval_mm_valid tr s = Inr (False, d) \<and> only_malloc_failed (d_errors d) \<and>
      MAX_HEAP < 4152 + alloc_growth (trace_ops tr))"
  using valid_run [OF assms(1-3)] assms(4) by blast

definition trace_example :: trace_t where
  "trace_example = \<lparr>sugg_heapsize = 0, num_ids = 2, num_ops = 3, weight = 1,
     ops = [\<lparr>op_type = ALLOC, op_index = 0, op_size = 2040\<rparr>, \<lparr>op_type = ALLOC, op_index = 1, op_size = 48\<rparr>,
            \<lparr>op_type = FREE, op_index = 0, op_size = 0\<rparr>],
     blocks_init = \<lambda>_. 0, sizes_init = \<lambda>_. 0\<rparr>"

lemma trace_example_facts:
  "num_ids trace_example = 2" "legal 2 {} (trace_ops trace_example)"
  "arena_ok mm_start"
  by (simp_all add: trace_example_def trace_ops_def arena_ok_def MAX_HEAP_def mm_start_def)

lemma trace_example_growth:
  "alloc_growth (trace_ops trace_example) = 8192" "\<not> has_realloc (trace_ops trace_example)"
  "in_reach mm_start (trace_ops trace_example)"
  by code_simp+

text \<open>The same trace with a reallocation in front of its last request.\<close>

definition realloc_example :: trace_t where
  "realloc_example = trace_example\<lparr>num_ops := 4, ops := take 2 (ops trace_example) @
     \<lparr>op_type = REALLOC, op_index = 1, op_size = 96\<rparr> # drop 2 (ops trace_example)\<rparr>"

lemma realloc_example_facts:
  "num_ids realloc_example = 2" "legal 2 {} (trace_ops realloc_example)"
  by (simp_all add: realloc_example_def trace_example_def trace_ops_def)

lemma realloc_example_growth:
  "alloc_growth (trace_ops realloc_example) = 8192" "has_realloc (trace_ops realloc_example)"
  "first_realloc (trace_ops realloc_example) = 2" "in_reach mm_start (trace_ops realloc_example)"
  by code_simp+

theorem eval_mm_valid_accepts_witness:
  "(\<exists>d. eval_mm_valid trace_example mm_start = Inr (True, d) \<and> d_errors d = []) \<and>
   (\<exists>d. eval_mm_valid realloc_example mm_start = Inr (False, d) \<and> d_errors d = [(2, ReallocFailed)])"
  using eval_mm_valid_accepts [of trace_example mm_start] trace_example_facts trace_example_growth
    eval_mm_valid_accepts [of realloc_example mm_start] realloc_example_facts realloc_example_growth
  by (auto simp: MAX_HEAP_def)

subsection \<open>The utilisation run\<close>

lemma allocs_Cons: "allocs a ((z, al) # bs) = (if al then insert (a, z) (allocs (a + z) bs) else allocs (a + z) bs)"
  by (auto simp: allocs_def)

lemma finite_allocs [simp]: "finite (allocs a bs)"
  by (induction bs arbitrary: a) (auto simp: allocs_Cons allocs_def [of _ "[]"])

lemma allocs_total: "sizes_ok bs \<Longrightarrow> sum snd (allocs a bs) \<le> extent bs"
proof (induction bs arbitrary: a)
  case (Cons b bs)
  obtain z al where b: "b = (z, al)" by (cases b)
  from Cons.prems b have z: "0 \<le> z" "sizes_ok bs" by (auto simp: sizes_ok_def)
  have "sum snd (insert (a, z) (allocs (a + z) bs)) \<le> z + sum snd (allocs (a + z) bs)"
    using z(1) by (simp add: sum.insert_if)
  with Cons.IH [OF z(2), of "a + z"] z(1) show ?case by (auto simp: b allocs_Cons)
qed (simp add: allocs_def)

text \<open>The payloads a run holds fit in its heap.\<close>

lemma live_total:
  assumes run: "run_ok n live d"
  shows "(\<Sum>i \<in> live. d_sizes d ! nat i) \<le> mem_brk (d_mm d) - mem_start_brk (d_mm d)" (is "?S \<le> ?H")
proof -
  from run obtain bs where R: "mm_ok (d_mm d) bs" "ids_ok n live d (allocs (first_block (d_mm d)) bs)"
    unfolding run_ok_def by blast
  let ?A = "allocs (first_block (d_mm d)) bs" and ?p = "\<lambda>i. d_blocks d ! nat i"
  have "\<forall>i \<in> live. \<exists>z. (?p i, z) \<in> ?A \<and> d_sizes d ! nat i \<le> z" using R(2) by (force simp: ids_ok_def)
  then obtain z where z: "\<forall>i \<in> live. (?p i, z i) \<in> ?A \<and> d_sizes d ! nat i \<le> z i" by metis
  have inj: "inj_on (\<lambda>i. (?p i, z i)) live" using R(2) by (auto simp: ids_ok_def inj_on_def)
  have "?S \<le> (\<Sum>i \<in> live. z i)" using z by (intro sum_mono) simp
  also have "\<dots> = sum snd ((\<lambda>i. (?p i, z i)) ` live)" by (simp add: sum.reindex [OF inj])
  also have "\<dots> \<le> sum snd ?A"
  proof (rule sum_mono2)
    show "(\<lambda>i. (?p i, z i)) ` live \<subseteq> ?A" using z by auto
    fix b assume "b \<in> ?A - (\<lambda>i. (?p i, z i)) ` live"
    then have "(fst b, snd b) \<in> ?A" by simp
    from allocs_16 [OF R(1) this] show "0 \<le> snd b" by simp
  qed simp
  also have "\<dots> \<le> extent bs" by (rule allocs_total [OF ok_sizes [OF R(1)]])
  also have "\<dots> \<le> ?H" using R(1) by (auto simp: mm_ok_def heap_inv_def heap_shape_def)
  finally show ?thesis .
qed

text \<open>The peak of the live payload total of a trace: \<open>sz\<close> holds the size of each live id and \<open>t\<close>
  their total.\<close>

fun peak :: "(int \<Rightarrow> int) \<Rightarrow> int \<Rightarrow> traceop_t list \<Rightarrow> int" where
  "peak sz t [] = t"
| "peak sz t (r # rs) =
     (if op_type r = ALLOC then max t (peak (sz(op_index r := op_size r)) (t + op_size r) rs)
      else max t (peak sz (t - sz (op_index r)) rs))"

lemma peak_ge: "t \<le> peak sz t rs"
  by (cases rs) auto

lemma loop_util:
  assumes "legal n live ts" "run_ok n live d" "\<not> gl_ranges (d_mm d)" "mem_max_addr (d_mm d) \<le> mem_brk (d_mm d) + 2147483647"
    "\<forall>i \<in> live. sz i = d_sizes d ! nat i" "0 \<le> m" "t = (\<Sum>i \<in> live. d_sizes d ! nat i)" "t \<le> m"
    "m \<le> mem_brk (d_mm d) - mem_start_brk (d_mm d)" "growth_ok (d_mm d) ts"
  shows "(\<exists>t' d'. util_loop ts (m, t, d) = Inr (max m (peak sz t ts), t', d') \<and> \<not> has_realloc ts \<and> same_arena (d_mm d) (d_mm d') \<and>
        mem_brk (d_mm d') \<le> mem_max_addr (d_mm d') \<and>
        0 \<le> max m (peak sz t ts) \<and> max m (peak sz t ts) \<le> mem_brk (d_mm d') - mem_start_brk (d_mm d')) \<or>
    (has_realloc ts \<and> util_loop ts (m, t, d) = Inl (AppError ''mm_realloc failed in eval_mm_util'')) \<or>
    (mem_max_addr (d_mm d) < mem_brk (d_mm d) + alloc_growth ts \<and>
      util_loop ts (m, t, d) = Inl (AppError ''mm_malloc failed in eval_mm_util''))"
  using assms
proof (induction ts arbitrary: live d sz m t)
  case Nil
  have "mem_brk (d_mm d) \<le> mem_max_addr (d_mm d)"
    using Nil.prems(2) by (auto simp: run_ok_def mm_ok_def heap_inv_def heap_shape_def)
  with Nil.prems show ?case by simp
next
  case (Cons r ts)
  note run = Cons.prems(2) and g = Cons.prems(3) and top = Cons.prems(4) and sz = Cons.prems(5)
    and m = Cons.prems(6-9) and grow = Cons.prems(10)
  let ?i = "op_index r" and ?n = "op_size r"
  have fin: "finite live" using run by (auto simp: run_ok_def ids_ok_def)
  from legal_Cons [OF Cons.prems(1)] show ?case
  proof (elim disjE conjE, goal_cases)
    case 1
    note r = 1
    have gt: "alloc_growth (r # ts) = grow_size (adjusted_size ?n) + alloc_growth ts" using r(1) by (simp add: alloc_growth_Cons)
    show ?case
    proof (rule malloc_run [OF run r(2-6) growth_ok_alloc [OF run grow r(1) alloc_growth_nonneg [OF r(7)]]])
      assume a: "\<not> can_grow (d_mm d) (adjusted_size ?n)" "mm_malloc (u32 ?n) (d_mm d) = Some (NULL, d_mm d)"
      have "mem_max_addr (d_mm d) < mem_brk (d_mm d) + grow_size (adjusted_size ?n)"
        using a(1) top unfolding can_grow_def by linarith
      with alloc_growth_nonneg [OF r(7)] gt have "mem_max_addr (d_mm d) < mem_brk (d_mm d) + alloc_growth (r # ts)" by simp
      then show ?thesis using a(2) r(1) by (simp add: util_step_def)
    next
      fix p z s bs
      assume a: "mm_malloc (u32 ?n) (d_mm d) = Some (p, s)" "p \<noteq> NULL" "mm_ok s bs"
        "(p, z) \<in> allocs (first_block s) bs" "?n \<le> z - 8" "only_heap_changed (d_mm d) s"
        "mem_brk s \<le> mem_brk (d_mm d) + grow_size (adjusted_size ?n)"
        "ids_ok n (insert ?i live) (stored ?i p ?n s d) (allocs (first_block s) bs)"
        "gl_ranges s \<longrightarrow> add_range s (ranges s) p ?n = Inr (\<lparr>range_lo = p, range_hi = p + ?n - 1\<rparr> # ranges s) \<and>
          ranges_cover (\<lparr>range_lo = p, range_hi = p + ?n - 1\<rparr> # ranges s) (allocs (first_block s) bs)"
      let ?d = "stored ?i p ?n s d" and ?sz = "sz(?i := ?n)" and ?m = "max m (t + ?n)"
      have ar: "same_arena (d_mm d) s" by (rule heap_changed_arena [OF a(6)])
      with g have g': "\<not> gl_ranges (d_mm ?d)" by (simp add: same_arena_def)
      with a(3,8) have run': "run_ok n (insert ?i live) ?d" unfolding run_ok_def by (intro exI [of _ bs]) simp
      have len: "int (length (d_blocks d)) = n" "int (length (d_sizes d)) = n" using a(8) by (simp_all add: ids_ok_def)
      have "nat ?i \<noteq> nat k" if "k \<in> live" for k
      proof -
        have "0 \<le> k" using run that by (auto simp: run_ok_def ids_ok_def)
        moreover have "k \<noteq> ?i" using that r(4) by blast
        ultimately show ?thesis using r(2) by (simp add: eq_nat_nat_iff)
      qed
      then have upd: "d_sizes ?d ! nat k = (if k = ?i then ?n else d_sizes d ! nat k)" if "k \<in> insert ?i live" for k
        using that r(2,3) len by auto
      have sz': "\<forall>k \<in> insert ?i live. ?sz k = d_sizes ?d ! nat k" using upd sz by simp
      have "(\<Sum>k \<in> insert ?i live. d_sizes ?d ! nat k) = ?n + (\<Sum>k \<in> live. d_sizes ?d ! nat k)"
        using fin r(4) upd [of ?i] by simp
      also have "(\<Sum>k \<in> live. d_sizes ?d ! nat k) = t"
        unfolding m(2) by (rule sum.cong [OF refl]) (use upd r(4) in auto)
      finally have sum: "t + ?n = (\<Sum>k \<in> insert ?i live. d_sizes ?d ! nat k)" by simp
      have hi: "?m \<le> mem_brk (d_mm ?d) - mem_start_brk (d_mm ?d)"
        using live_total [OF run'] ar m(4) unfolding sum [symmetric] by (simp add: same_arena_def)
      have top': "mem_max_addr (d_mm ?d) \<le> mem_brk (d_mm ?d) + 2147483647" "mem_max_addr s = mem_max_addr (d_mm d)"
        using ar top by (simp_all add: same_arena_def)
      have step: "util_loop (r # ts) (m, t, d) = util_loop ts (?m, t + ?n, ?d)"
        using a(1,2) r(1-3) len by (simp add: util_step_def remember_def Let_def max_def)
      have pk: "max m (peak sz t (r # ts)) = max ?m (peak ?sz (t + ?n) ts)"
        using m(3) peak_ge [of "t + ?n" ?sz ts] r(1) by (simp add: max_def)
      have m0: "0 \<le> ?m" using m(1) by simp
      have le: "t + ?n \<le> ?m" by simp
      have grow': "growth_ok (d_mm ?d) ts" using a(7) r(1) top'(2) by (intro growth_ok_rest [OF grow]) simp_all
      from Cons.IH [OF r(7) run' g' top'(1) sz' m0 sum le hi grow'] show ?thesis
        unfolding step pk gt
      proof (elim disjE exE conjE, goal_cases)
        case (1 t' d')
        have "same_arena s (d_mm d')" using 1(3) by simp
        moreover have "\<not> has_realloc (r # ts)" using 1(2) r(1) by simp
        ultimately show ?case using 1 same_arena_trans [OF ar] by blast
      qed (use a(7) top'(2) in auto)
    qed
  next
    case 2
    note r = 2
    have gt: "alloc_growth (r # ts) = alloc_growth ts" using r(1) by (simp add: alloc_growth_Cons)
    from free_run [OF run r(2)] obtain s where
      f: "0 \<le> ?i" "?i < int (length (d_blocks d))" "?i < int (length (d_sizes d))"
        "mm_free (d_blocks d ! nat ?i) (d_mm d) = Some s"
        "run_ok n (live - {?i}) (d\<lparr>d_mm := s\<rparr>)" "only_heap_changed ((d_mm d)\<lparr>ranges := ranges s\<rparr>) s"
        "mem_brk s = mem_brk (d_mm d)" by metis
    let ?d = "d\<lparr>d_mm := s\<rparr>" and ?t = "t - d_sizes d ! nat ?i"
    have ar: "same_arena (d_mm d) s" using heap_changed_arena [OF f(6)] by (simp add: same_arena_def)
    have step: "util_loop (r # ts) (m, t, d) = util_loop ts (m, ?t, ?d)"
      using r(1) f(1-4) by (simp add: util_step_def Let_def)
    have pre: "\<not> gl_ranges (d_mm ?d)" "mem_max_addr (d_mm ?d) \<le> mem_brk (d_mm ?d) + 2147483647"
      "m \<le> mem_brk (d_mm ?d) - mem_start_brk (d_mm ?d)" "mem_max_addr s = mem_max_addr (d_mm d)"
      using ar g top m(4) f(7) by (auto simp: same_arena_def)
    have sz': "\<forall>k \<in> live - {?i}. sz k = d_sizes ?d ! nat k" using sz by simp
    have sum: "?t = (\<Sum>k \<in> live - {?i}. d_sizes ?d ! nat k)"
      using fin r(2) by (simp add: m(2) sum_diff1)
    have pos: "0 < d_sizes d ! nat ?i" using run r(2) by (auto simp: run_ok_def ids_ok_def)
    with m(3) have le: "?t \<le> m" by simp
    have pk: "max m (peak sz t (r # ts)) = max m (peak sz ?t ts)"
      using m(3) r(1,2) sz by simp
    have grow': "growth_ok (d_mm ?d) ts" using f(7) r(1) pre(4) by (intro growth_ok_rest [OF grow]) simp_all
    from Cons.IH [OF r(3) f(5) pre(1,2) sz' m(1) sum le pre(3) grow'] show ?case
      unfolding step pk gt
    proof (elim disjE exE conjE, goal_cases)
      case (1 t' d')
      then show ?case using same_arena_trans [OF ar] r(1) by (intro disjI1 exI [of _ t'] exI [of _ d']) simp
    qed (use f(7) pre(4) in auto)
  next
    case 3
    then have "0 \<le> ?i" "?i < int (length (d_blocks d))" "?i < int (length (d_sizes d))"
      using run by (auto simp: run_ok_def ids_ok_def)
    with 3(1) show ?case by (simp add: util_step_def mm_realloc_def)
  qed
qed

lemma util_run:
  assumes "legal (num_ids tr) {} (trace_ops tr)" "0 \<le> num_ids tr" "arena_ok s"
    and room: "in_reach s (trace_ops tr) \<or> 4152 + alloc_growth (trace_ops tr) \<le> MAX_HEAP"
  shows "(\<exists>d. let u = rat_of_int (peak (\<lambda>_. 0) 0 (trace_ops tr)) / rat_of_int (mem_heapsize (d_mm d))
      in eval_mm_util tr s = Inr (u, d) \<and> \<not> has_realloc (trace_ops tr) \<and> 0 \<le> u \<and> u \<le> 1 \<and> arena_ok (d_mm d)) \<or>
    (eval_mm_util tr s = Inl (AppError ''mm_realloc failed in eval_mm_util'') \<and> has_realloc (trace_ops tr)) \<or>
    (eval_mm_util tr s = Inl (AppError ''mm_malloc failed in eval_mm_util'') \<and>
      MAX_HEAP < 4152 + alloc_growth (trace_ops tr))"
proof -
  let ?P = "peak (\<lambda>_. 0) 0 (trace_ops tr)"
  obtain s' where i: "mm_init False (mem_reset_brk s) = Some (0, s')" "mm_ok s' [(4096, False)]" "gl_ranges s' = False"
    "mem_brk s' = mem_start_brk s + 4152" "mem_max_addr s' = mem_start_brk s + MAX_HEAP" "mem_start_brk s' = mem_start_brk s"
    "run_ok (num_ids tr) {} (start_drv tr (s'\<lparr>ranges := []\<rparr>))"
    by (rule init_run [OF assms(3,2), of False])
  let ?d = "start_drv tr s'"
  have run: "run_ok (num_ids tr) {} ?d" using i(3,7) by (simp add: run_ok_def ids_ok_def start_drv_def)
  have ev: "eval_mm_util tr s = and_then (util_loop (trace_ops tr) (0, 0, ?d)) (\<lambda>(max_total_size, _, d).
         Inr (of_int max_total_size / of_int (mem_heapsize (d_mm d)), d))"
    unfolding eval_mm_util_def i(1) by simp
  have pre: "\<not> gl_ranges (d_mm ?d)" "mem_max_addr (d_mm ?d) \<le> mem_brk (d_mm ?d) + 2147483647"
    "0 \<le> mem_brk (d_mm ?d) - mem_start_brk (d_mm ?d)"
    using i by (simp_all add: MAX_HEAP_def)
  have top: "mem_max_addr s' < 4294967296" "0 < mem_start_brk s'" using assms(3) i(5,6) by (simp_all add: arena_ok_def)
  have mx: "max 0 ?P = ?P" using peak_ge [of 0 "\<lambda>_. 0" "trace_ops tr"] by simp
  have sums: "\<forall>i \<in> {}. 0 = d_sizes ?d ! nat i" "0 = (\<Sum>i \<in> {}. d_sizes ?d ! nat i)" by simp_all
  have grow: "growth_ok (d_mm ?d) (trace_ops tr)"
    using room i(4,5) assms(3) by (auto simp: growth_ok_def in_reach_def arena_ok_def)
  from loop_util [OF assms(1) run pre(1,2) sums(1) order_refl sums(2) order_refl pre(3) grow] show ?thesis
    unfolding mx
  proof (elim disjE exE conjE, goal_cases)
    case (1 t' d)
    let ?h = "mem_brk (d_mm d) - mem_start_brk (d_mm d)"
    have h: "4152 \<le> ?h" "?h < 4294967296" using 1(3,4) i(4,5,6) top by (simp_all add: same_arena_def)
    then have hs: "mem_heapsize (d_mm d) = ?h" by (simp add: mem_heapsize_def u32_def)
    have "rat_of_int ?P \<le> rat_of_int ?h" using 1(6) by (simp only: of_int_le_iff)
    moreover have "arena_ok (d_mm d)" using 1(3) i(5,6) assms(3) by (simp add: same_arena_def arena_ok_def)
    ultimately show ?case using 1(1,2,5) h(1) by (intro disjI1 exI [of _ d]) (simp add: ev hs Let_def divide_le_eq)
  next
    case 2
    then show ?case by (intro disjI2 disjI1) (simp add: ev)
  next
    case 3
    then show ?case using i(4,5) by (intro disjI2) (simp add: ev)
  qed
qed

text \<open>C22. \<^verbatim>\<open>eval_mm_util\<close> on every trace that uses ids legally and of which no request leaves the address space.
  Without reallocations it returns the peak of the live payload total divided by the final size of the heap, a
  number between 0 and 1; with one, \<^verbatim>\<open>mm_realloc\<close> fails and the program exits. Otherwise it exits only when an
  allocation fails, and only when the 64 MB arena may be too small for the trace.\<close>

theorem eval_mm_util_peak:
  assumes "legal (num_ids tr) {} (trace_ops tr)" "0 \<le> num_ids tr" "arena_ok s" "in_reach s (trace_ops tr)"
  shows "(\<exists>d. let u = rat_of_int (peak (\<lambda>_. 0) 0 (trace_ops tr)) / rat_of_int (mem_heapsize (d_mm d))
      in eval_mm_util tr s = Inr (u, d) \<and> \<not> has_realloc (trace_ops tr) \<and> 0 \<le> u \<and> u \<le> 1) \<or>
    (eval_mm_util tr s = Inl (AppError ''mm_realloc failed in eval_mm_util'') \<and> has_realloc (trace_ops tr)) \<or>
    (eval_mm_util tr s = Inl (AppError ''mm_malloc failed in eval_mm_util'') \<and>
      MAX_HEAP < 4152 + alloc_growth (trace_ops tr))"
  using util_run [OF assms(1-3)] assms(4) unfolding Let_def by blast

lemma trace_example_peak: "peak (\<lambda>_. 0) 0 (trace_ops trace_example) = 2088"
  by code_simp

theorem eval_mm_util_peak_witness:
  "(\<exists>d. eval_mm_util trace_example mm_start = Inr (2088 / rat_of_int (mem_heapsize (d_mm d)), d)) \<and>
   eval_mm_util realloc_example mm_start = Inl (AppError ''mm_realloc failed in eval_mm_util'')"
  using eval_mm_util_peak [of trace_example mm_start] trace_example_facts trace_example_growth
    eval_mm_util_peak [of realloc_example mm_start] realloc_example_facts realloc_example_growth
  by (auto simp: MAX_HEAP_def trace_example_peak Let_def)

text \<open>C23. \<^verbatim>\<open>read_trace\<close> reads back what a trace file in the documented format says: every number of
  the header and every request, with exactly as many requests as the header announces.\<close>

theorem read_trace_roundtrip:
  assumes "trace_ok tr"
  shows "read_trace (blocks_init tr) (sizes_init tr) (show_trace tr) = Inr tr"
  by (rule read_show_trace [OF assms])

lemma trace_example_ok: "trace_ok trace_example"
  by code_simp

theorem read_trace_roundtrip_witness:
  "read_trace (blocks_init trace_example) (sizes_init trace_example) (show_trace trace_example) = Inr trace_example"
  using read_trace_roundtrip [OF trace_example_ok] .

end
