(* ===== verification/DriverScore.thy ===== *)
theory DriverScore
  imports Driver
begin

text \<open>The score that the driver's \<^verbatim>\<open>main\<close> prints from the statistics of its traces.\<close>

definition stats_ok :: "stats_t \<Rightarrow> bool" where
  "stats_ok st \<longleftrightarrow> 0 < st_secs st \<and> 0 \<le> st_ops st \<and> 0 \<le> st_util st \<and> st_util st \<le> 1"

lemma stats_sums:
  assumes "list_all stats_ok stats" "stats \<noteq> []"
  shows "0 < sum_list (map st_secs stats)" "0 \<le> sum_list (map st_ops stats)"
    "0 \<le> sum_list (map st_util stats)" "sum_list (map st_util stats) \<le> of_nat (length stats)"
proof -
  have "0 \<le> sum_list (map st_secs stats) \<and> (stats \<noteq> [] \<longrightarrow> 0 < sum_list (map st_secs stats)) \<and>
    0 \<le> sum_list (map st_ops stats) \<and> 0 \<le> sum_list (map st_util stats) \<and>
    sum_list (map st_util stats) \<le> of_nat (length stats)"
    using assms(1) by (induction stats) (auto simp: stats_ok_def intro: add_pos_nonneg)
  then show "0 < sum_list (map st_secs stats)" "0 \<le> sum_list (map st_ops stats)"
    "0 \<le> sum_list (map st_util stats)" "sum_list (map st_util stats) \<le> of_nat (length stats)"
    using assms(2) by simp_all
qed

text \<open>The performance index of an allocator is 0 when a trace failed; otherwise, with at least one trace,
  positive times and utilizations between 0 and 1, it lies between 0 and 100, is 70 times the mean
  utilization plus at most 30, and gives all 30 exactly from the throughput of libc on.\<close>

lemma perf_index_bounds:
  assumes "list_all stats_ok stats" "stats \<noteq> []"
  defines "util \<equiv> sum_list (map st_util stats) / of_nat (length stats)"
    and "thru \<equiv> sum_list (map st_ops stats) / sum_list (map st_secs stats)"
  shows "0 \<le> perf_index errors stats \<and> perf_index errors stats \<le> 100 \<and>
    (errors \<noteq> 0 \<longrightarrow> perf_index errors stats = 0) \<and>
    (errors = 0 \<longrightarrow> 70 * util \<le> perf_index errors stats \<and>
      (perf_index errors stats = 70 * util + 30) = (AVG_LIBC_THRUPUT \<le> thru))"
proof -
  note S = stats_sums [OF assms(1,2)]
  have u: "0 \<le> util" "util \<le> 1" using S(3,4) assms(2) by (simp_all add: util_def divide_le_eq)
  have t: "0 \<le> thru" using S(1,2) by (simp add: thru_def)
  define p2 where "p2 = (if AVG_LIBC_THRUPUT < thru then 1 - UTIL_WEIGHT else (1 - UTIL_WEIGHT) * (thru / AVG_LIBC_THRUPUT))"
  have p2: "0 \<le> p2" "p2 \<le> 3 / 10" "(p2 = 3 / 10) = (AVG_LIBC_THRUPUT \<le> thru)"
    using t by (auto simp: p2_def UTIL_WEIGHT_def AVG_LIBC_THRUPUT_def)
  have "perf_index errors stats = (if errors = 0 then (UTIL_WEIGHT * util + p2) * 100 else 0)"
    by (simp add: perf_index_def p2_def util_def thru_def Let_def)
  then have p: "perf_index errors stats = (if errors = 0 then 70 * util + 100 * p2 else 0)"
    by (simp add: UTIL_WEIGHT_def algebra_simps)
  show ?thesis
  proof (cases "errors = 0")
    case True
    then have "perf_index errors stats = 70 * util + 100 * p2" using p by simp
    moreover have "(100 * p2 = 30) = (p2 = 3 / 10)" by auto
    ultimately show ?thesis using u p2 True by simp
  qed (simp add: p)
qed

end
