(* ===== verification/DriverMain.thy ===== *)
theory DriverMain
  imports DriverProps DriverScore
begin

text \<open>
  The driver's \<^verbatim>\<open>main\<close> (\<^verbatim>\<open>malloclab/mdriver.c\<close>) on the allocator: from the text of the trace files
  to the performance index. The timing package decides how often it runs \<open>eval_mm_speed\<close> on a
  trace and what time it reports: \<open>timer i\<close> gives both for the \<open>i\<close>-th trace. What libc leaves in the
  arrays of a trace comes with its file. A file is given with the name that \<^verbatim>\<open>-V\<close> prints.
\<close>

subsection \<open>Running the traces\<close>

record trace_file =
  tf_blocks :: "nat \<Rightarrow> int"
  tf_sizes :: "nat \<Rightarrow> int"
  tf_text :: string

datatype main_stop = TraceStop trace_stop | RunStop driver_stop | NoArena

definition in_main :: "('a \<Rightarrow> main_stop) \<Rightarrow> 'a + 'b \<Rightarrow> main_stop + 'b" where
  "in_main f r = (case r of Inl e \<Rightarrow> Inl (f e) | Inr x \<Rightarrow> Inr x)"

text \<open>Every run finds the arrays of the trace as the run before it has left them.\<close>

definition left_by :: "drv \<Rightarrow> trace_t \<Rightarrow> trace_t" where
  "left_by d tr = tr\<lparr>blocks_init := \<lambda>i. d_blocks d ! i, sizes_init := \<lambda>i. d_sizes d ! i\<rparr>"

fun speed_runs :: "nat \<Rightarrow> trace_t \<Rightarrow> mm \<Rightarrow> driver_stop + mm" where
  "speed_runs 0 tr s = Inr s"
| "speed_runs (Suc n) tr s = and_then (eval_mm_speed tr s) (\<lambda>d. speed_runs n (left_by d tr) (d_mm d))"

text \<open>What is printed only with \<^verbatim>\<open>-V\<close>.\<close>

definition talk :: "nat \<Rightarrow> string \<Rightarrow> string" where
  "talk verbose txt = (if verbose > 1 then txt else '''')"

text \<open>One round of the loop: the new statistics, the allocator's state, the number of errors and the text printed so far.\<close>

definition run_trace :: "nat \<Rightarrow> nat \<Rightarrow> nat \<times> rat \<Rightarrow> string \<times> trace_file \<Rightarrow> mm \<times> nat \<times> string
    \<Rightarrow> main_stop + (stats_t \<times> mm \<times> nat \<times> string)" where
  "run_trace verbose i time file st =
     (let (s, errors, out) = st; (runs, secs) = time; (name, f) = file;
          out = out @ talk verbose (''Reading tracefile: '' @ name @ [CHR 0x0A]) in
      and_then (in_main TraceStop (read_trace (tf_blocks f) (tf_sizes f) (tf_text f))) (\<lambda>tr.
      let out = out @ talk verbose ''Checking mm_malloc for correctness, '' in
      and_then (in_main RunStop (eval_mm_valid tr s)) (\<lambda>(valid, d).
        let errors = errors + length (d_errors d);
            out = out @ concat (map (error_line i) (d_errors d));
            stats = \<lparr>st_ops = of_int (num_ops tr), st_valid = valid, st_secs = 0, st_util = 0\<rparr>
        in if valid then
             let out = out @ talk verbose ''efficiency, ''; tr = left_by d tr in
             and_then (in_main RunStop (eval_mm_util tr (d_mm d))) (\<lambda>(util, d).
             let out = out @ talk verbose (''and performance.'' @ [CHR 0x0A]); tr = left_by d tr in
             and_then (in_main RunStop (speed_runs runs tr (d_mm d))) (\<lambda>s.
               Inr (stats\<lparr>st_util := util, st_secs := secs\<rparr>, s, errors, out)))
           else Inr (stats, d_mm d, errors, out))))"

fun run_traces :: "nat \<Rightarrow> (nat \<Rightarrow> nat \<times> rat) \<Rightarrow> nat \<Rightarrow> (string \<times> trace_file) list \<Rightarrow> mm \<times> nat \<times> string
    \<Rightarrow> main_stop + (stats_t list \<times> mm \<times> nat \<times> string)" where
  "run_traces verbose timer i [] st = Inr ([], st)"
| "run_traces verbose timer i (f # fs) st =
     and_then (run_trace verbose i (timer i) f st) (\<lambda>(stats, st).
     and_then (run_traces verbose timer (Suc i) fs st) (\<lambda>(rest, st). Inr (stats # rest, st)))"

record main_result =
  numcorrect :: nat
  errors :: nat
  perfindex :: rat
  mm_stats :: "stats_t list"
  messages :: string        \<comment> \<open>printed while the traces run\<close>

definition mdriver :: "nat \<Rightarrow> (nat \<Rightarrow> nat \<times> rat) \<Rightarrow> (string \<times> trace_file) list \<Rightarrow> addr \<Rightarrow> mm \<Rightarrow> main_stop + main_result" where
  "mdriver verbose timer files arena s =
     (case mem_init arena s of
        None \<Rightarrow> Inl NoArena
      | Some s \<Rightarrow>
          and_then (run_traces verbose timer 0 files (s, 0, talk verbose ([CHR 0x0A] @ ''Testing mm malloc'' @ [CHR 0x0A])))
            (\<lambda>(stats, s, errors, out).
              Inr \<lparr>numcorrect = length (filter st_valid stats), errors = errors,
                    perfindex = perf_index errors stats, mm_stats = stats, messages = out\<rparr>))"

text \<open>With \<^verbatim>\<open>-l\<close> the program first runs libc's allocator on the traces.\<close>

definition blocks_left :: "addr list \<Rightarrow> trace_t \<Rightarrow> trace_t" where
  "blocks_left bl tr = tr\<lparr>blocks_init := \<lambda>i. bl ! i\<rparr>"

fun libc_speed_runs :: "nat \<Rightarrow> 'l libc \<Rightarrow> trace_t \<Rightarrow> 'l \<Rightarrow> driver_stop + 'l" where
  "libc_speed_runs 0 lc tr l = Inr l"
| "libc_speed_runs (Suc n) lc tr l = and_then (eval_libc_speed lc tr l) (\<lambda>(bl, l). libc_speed_runs n lc (blocks_left bl tr) l)"

definition run_libc_trace :: "nat \<Rightarrow> 'l libc \<Rightarrow> nat \<times> rat \<Rightarrow> string \<times> trace_file \<Rightarrow> 'l \<times> string
    \<Rightarrow> main_stop + (stats_t \<times> 'l \<times> string)" where
  "run_libc_trace verbose lc time file st =
     (let (l, out) = st; (runs, secs) = time; (name, f) = file;
          out = out @ talk verbose (''Reading tracefile: '' @ name @ [CHR 0x0A]) in
      and_then (in_main TraceStop (read_trace (tf_blocks f) (tf_sizes f) (tf_text f))) (\<lambda>tr.
      let out = out @ talk verbose ''Checking libc malloc for correctness, '' in
      and_then (in_main RunStop (eval_libc_valid lc tr l)) (\<lambda>(valid, bl, l).
        let stats = \<lparr>st_ops = of_int (num_ops tr), st_valid = valid, st_secs = 0, st_util = 0\<rparr>
        in if valid then
             let out = out @ talk verbose (''and performance.'' @ [CHR 0x0A]) in
             and_then (in_main RunStop (libc_speed_runs runs lc (blocks_left bl tr) l)) (\<lambda>l. Inr (stats\<lparr>st_secs := secs\<rparr>, l, out))
           else Inr (stats, l, out))))"

fun run_libc_traces :: "nat \<Rightarrow> 'l libc \<Rightarrow> (nat \<Rightarrow> nat \<times> rat) \<Rightarrow> nat \<Rightarrow> (string \<times> trace_file) list \<Rightarrow> 'l \<times> string
    \<Rightarrow> main_stop + (stats_t list \<times> 'l \<times> string)" where
  "run_libc_traces verbose lc timer i [] st = Inr ([], st)"
| "run_libc_traces verbose lc timer i (f # fs) st =
     and_then (run_libc_trace verbose lc (timer i) f st) (\<lambda>(stats, st).
     and_then (run_libc_traces verbose lc timer (Suc i) fs st) (\<lambda>(rest, st). Inr (stats # rest, st)))"

text \<open>The libc run can only end the program: it never marks a trace as failed.\<close>

lemma libc_valid_true: "eval_libc_valid lc tr l = Inr (v, st) \<Longrightarrow> v"
  by (auto simp: eval_libc_valid_def and_then_Inr)

lemma in_main_simps [simp]: "in_main f (Inl e) = Inl (f e)" "in_main f (Inr x) = Inr x"
  by (simp_all add: in_main_def)

subsection \<open>The speed run\<close>

text \<open>The speed run keeps no sizes; the invariant of the runs holds with some.\<close>

lemma loop_speed:
  assumes "legal n live ts" "\<not> has_realloc ts" "run_ok n live (d\<lparr>d_sizes := zs\<rparr>)" "\<not> gl_ranges (d_mm d)"
    "mem_max_addr (d_mm d) \<le> mem_brk (d_mm d) + 2147483647" "mem_brk (d_mm d) + alloc_growth ts \<le> mem_max_addr (d_mm d)"
  shows "\<exists>d'. speed_loop ts d = Inr d' \<and> same_arena (d_mm d) (d_mm d')"
  using assms
proof (induction ts arbitrary: live d zs)
  case (Cons t ts)
  let ?i = "op_index t" and ?n = "op_size t" and ?d = "d\<lparr>d_sizes := zs\<rparr>"
  note run = Cons.prems(3) and g = Cons.prems(4) and top = Cons.prems(5) and room = Cons.prems(6)
  have nr: "\<not> has_realloc ts" using Cons.prems(2) by simp
  from legal_Cons [OF Cons.prems(1)] show ?case
  proof (elim disjE conjE, goal_cases)
    case 1
    note r = 1
    have gt: "alloc_growth (t # ts) = grow_size (adjusted_size ?n) + alloc_growth ts" using r(1) by (simp add: alloc_growth_Cons)
    have grow: "growth_ok (d_mm ?d) (t # ts)" using room by (simp add: growth_ok_def)
    show ?case
    proof (rule malloc_run [OF run r(2-6) growth_ok_alloc [OF run grow r(1) alloc_growth_nonneg [OF r(7)]]])
      assume a: "\<not> can_grow (d_mm ?d) (adjusted_size ?n)"
      have "mem_max_addr (d_mm d) < mem_brk (d_mm d) + grow_size (adjusted_size ?n)"
        using a top unfolding can_grow_def by simp linarith
      with alloc_growth_nonneg [OF r(7)] gt room show ?thesis by simp
    next
      fix p z s bs
      assume a: "mm_malloc (u32 ?n) (d_mm ?d) = Some (p, s)" "p \<noteq> NULL" "mm_ok s bs"
        "(p, z) \<in> allocs (first_block s) bs" "?n \<le> z - 8" "only_heap_changed (d_mm ?d) s"
        "mem_brk s \<le> mem_brk (d_mm ?d) + grow_size (adjusted_size ?n)"
        "ids_ok n (insert ?i live) (stored ?i p ?n s ?d) (allocs (first_block s) bs)"
        "gl_ranges s \<longrightarrow> add_range s (ranges s) p ?n = Inr (\<lparr>range_lo = p, range_hi = p + ?n - 1\<rparr> # ranges s) \<and>
          ranges_cover (\<lparr>range_lo = p, range_hi = p + ?n - 1\<rparr> # ranges s) (allocs (first_block s) bs)"
      let ?d' = "d\<lparr>d_mm := s, d_blocks := (d_blocks d)[nat ?i := p]\<rparr>" and ?zs = "zs[nat ?i := ?n]"
      have ar: "same_arena (d_mm d) s" using heap_changed_arena [OF a(6)] by simp
      then have g': "\<not> gl_ranges (d_mm ?d')" and top': "mem_max_addr (d_mm ?d') \<le> mem_brk (d_mm ?d') + 2147483647"
        and max: "mem_max_addr s = mem_max_addr (d_mm d)"
        using g top by (auto simp: same_arena_def)
      have run': "run_ok n (insert ?i live) (?d'\<lparr>d_sizes := ?zs\<rparr>)"
        unfolding run_ok_def using a(3,8) g' by (intro exI [of _ bs]) simp
      have room': "mem_brk (d_mm ?d') + alloc_growth ts \<le> mem_max_addr (d_mm ?d')" using a(7) room gt max by simp
      have len: "int (length (d_blocks d)) = n" using run by (simp add: run_ok_def ids_ok_def) blast
      have "speed_loop (t # ts) d = speed_loop ts ?d'"
        using a(1,2) r(1-3) len by (simp add: speed_step_def Let_def)
      with Cons.IH [OF r(7) nr run' g' top' room'] same_arena_trans [OF ar] show ?thesis by auto
    qed
  next
    case 2
    note r = 2
    have gt: "alloc_growth (t # ts) = alloc_growth ts" using r(1) by (simp add: alloc_growth_Cons)
    from free_run [OF run r(2)] obtain s where
      f: "0 \<le> ?i" "?i < int (length (d_blocks ?d))" "mm_free (d_blocks ?d ! nat ?i) (d_mm ?d) = Some s"
        "run_ok n (live - {?i}) (?d\<lparr>d_mm := s\<rparr>)" "only_heap_changed ((d_mm ?d)\<lparr>ranges := ranges s\<rparr>) s"
        "mem_brk s = mem_brk (d_mm ?d)" by metis
    let ?d' = "d\<lparr>d_mm := s\<rparr>"
    have ar: "same_arena (d_mm d) s" using heap_changed_arena [OF f(5)] by (simp add: same_arena_def)
    then have pre: "\<not> gl_ranges (d_mm ?d')" "mem_max_addr (d_mm ?d') \<le> mem_brk (d_mm ?d') + 2147483647"
      "mem_brk (d_mm ?d') + alloc_growth ts \<le> mem_max_addr (d_mm ?d')"
      using g top room gt f(6) by (auto simp: same_arena_def)
    have swap: "?d\<lparr>d_mm := s\<rparr> = ?d'\<lparr>d_sizes := zs\<rparr>" by simp
    have run': "run_ok n (live - {?i}) (?d'\<lparr>d_sizes := zs\<rparr>)" using f(4) by (simp only: swap)
    have "speed_loop (t # ts) d = speed_loop ts ?d'"
      using r(1) f(1-3) by (simp add: speed_step_def Let_def)
    with Cons.IH [OF r(3) nr run' pre] same_arena_trans [OF ar] show ?case by auto
  next
    case 3
    then show ?case using Cons.prems(2) by simp
  qed
qed simp

text \<open>A trace that uses ids legally, has no reallocations and cannot exhaust the arena.\<close>

definition fits_arena :: "trace_t \<Rightarrow> bool" where
  "fits_arena tr \<longleftrightarrow> legal (num_ids tr) {} (trace_ops tr) \<and> \<not> has_realloc (trace_ops tr) \<and> 0 \<le> num_ids tr \<and> 4152 + alloc_growth (trace_ops tr) \<le> MAX_HEAP"

lemma left_by_simps [simp]:
  "trace_ops (left_by d tr) = trace_ops tr" "num_ids (left_by d tr) = num_ids tr" "num_ops (left_by d tr) = num_ops tr"
  "fits_arena (left_by d tr) = fits_arena tr"
  by (simp_all add: left_by_def trace_ops_def fits_arena_def)

lemma speed_run:
  assumes "fits_arena tr" "arena_ok s"
  shows "\<exists>d. eval_mm_speed tr s = Inr d \<and> arena_ok (d_mm d)"
proof -
  have tr: "legal (num_ids tr) {} (trace_ops tr)" "0 \<le> num_ids tr" "4152 + alloc_growth (trace_ops tr) \<le> MAX_HEAP"
    "\<not> has_realloc (trace_ops tr)"
    using assms(1) by (simp_all add: fits_arena_def)
  obtain s' where i: "mm_init False (mem_reset_brk s) = Some (0, s')" "mm_ok s' [(4096, False)]" "gl_ranges s' = False"
    "mem_brk s' = mem_start_brk s + 4152" "mem_max_addr s' = mem_start_brk s + MAX_HEAP" "mem_start_brk s' = mem_start_brk s"
    "run_ok (num_ids tr) {} (start_drv tr (s'\<lparr>ranges := []\<rparr>))"
    by (rule init_run [OF assms(2) tr(2), of False])
  let ?d = "start_drv tr s'"
  have run: "run_ok (num_ids tr) {} (?d\<lparr>d_sizes := d_sizes ?d\<rparr>)"
    using i(3,7) by (simp add: run_ok_def ids_ok_def start_drv_def)
  have pre: "\<not> gl_ranges (d_mm ?d)" "mem_max_addr (d_mm ?d) \<le> mem_brk (d_mm ?d) + 2147483647"
    "mem_brk (d_mm ?d) + alloc_growth (trace_ops tr) \<le> mem_max_addr (d_mm ?d)"
    using i(3-5) tr(3) by (simp_all add: MAX_HEAP_def)
  from loop_speed [OF tr(1,4) run pre] obtain d where d: "speed_loop (trace_ops tr) ?d = Inr d" "same_arena s' (d_mm d)" by auto
  have "arena_ok (d_mm d)" using d(2) i(5,6) assms(2) by (simp add: same_arena_def arena_ok_def)
  moreover have "eval_mm_speed tr s = Inr d" unfolding eval_mm_speed_def i(1) using d(1) by simp
  ultimately show ?thesis by blast
qed

lemma speed_runs_ok:
  "fits_arena tr \<Longrightarrow> arena_ok s \<Longrightarrow> \<exists>s'. speed_runs n tr s = Inr s' \<and> arena_ok s'"
proof (induction n arbitrary: s tr)
  case (Suc n)
  from speed_run [OF Suc.prems] obtain d where "eval_mm_speed tr s = Inr d" "arena_ok (d_mm d)" by blast
  with Suc.IH [of "left_by d tr" "d_mm d"] Suc.prems(1) show ?case by simp
qed simp

subsection \<open>The whole program\<close>

definition file_of :: "trace_t \<Rightarrow> trace_file" where
  "file_of tr = \<lparr>tf_blocks = blocks_init tr, tf_sizes = sizes_init tr, tf_text = show_trace tr\<rparr>"

definition good_trace :: "trace_t \<Rightarrow> bool" where
  "good_trace tr \<longleftrightarrow> trace_ok tr \<and> fits_arena tr"

definition trace_stats :: "trace_t \<Rightarrow> rat \<Rightarrow> stats_t \<Rightarrow> bool" where
  "trace_stats tr secs st \<longleftrightarrow> st_valid st \<and> st_ops st = of_int (num_ops tr) \<and> st_secs st = secs \<and>
     0 \<le> st_util st \<and> st_util st \<le> 1 \<and>
     (\<exists>h. st_util st = rat_of_int (peak (\<lambda>_. 0) 0 (trace_ops tr)) / rat_of_int h)"

text \<open>The messages of a trace without errors.\<close>

definition trace_talk :: "nat \<Rightarrow> string \<Rightarrow> string" where
  "trace_talk verbose name = talk verbose (''Reading tracefile: '' @ name @ [CHR 0x0A] @
     ''Checking mm_malloc for correctness, efficiency, and performance.'' @ [CHR 0x0A])"

lemma run_trace_ok:
  assumes "good_trace tr" "arena_ok s"
  shows "\<exists>st s'. run_trace verbose i (n, secs) (name, file_of tr) (s, e, out) = Inr (st, s', e, out @ trace_talk verbose name) \<and>
    arena_ok s' \<and> trace_stats tr secs st"
proof -
  have tr: "trace_ok tr" "fits_arena tr" "legal (num_ids tr) {} (trace_ops tr)" "0 \<le> num_ids tr"
    "4152 + alloc_growth (trace_ops tr) \<le> MAX_HEAP" "\<not> has_realloc (trace_ops tr)"
    using assms(1) by (auto simp: good_trace_def fits_arena_def)
  from valid_run [OF tr(3,4) assms(2)] tr(5,6) obtain d1 where
    d1: "eval_mm_valid tr s = Inr (True, d1)" "d_errors d1 = []" "arena_ok (d_mm d1)" by fastforce
  have "legal (num_ids (left_by d1 tr)) {} (trace_ops (left_by d1 tr))" "0 \<le> num_ids (left_by d1 tr)"
    using tr(3,4) by simp_all
  from util_run [OF this d1(3)] tr(5,6) obtain d2 where
    d2: "eval_mm_util (left_by d1 tr) (d_mm d1) = Inr (rat_of_int (peak (\<lambda>_. 0) 0 (trace_ops tr)) / rat_of_int (mem_heapsize (d_mm d2)), d2)"
      "0 \<le> rat_of_int (peak (\<lambda>_. 0) 0 (trace_ops tr)) / rat_of_int (mem_heapsize (d_mm d2))"
      "rat_of_int (peak (\<lambda>_. 0) 0 (trace_ops tr)) / rat_of_int (mem_heapsize (d_mm d2)) \<le> 1" "arena_ok (d_mm d2)"
    unfolding Let_def left_by_simps by fastforce
  from speed_runs_ok [of "left_by d2 (left_by d1 tr)", OF _ d2(4), of n] tr(2) obtain s' where
    s': "speed_runs n (left_by d2 (left_by d1 tr)) (d_mm d2) = Inr s'" "arena_ok s'" by auto
  let ?st = "\<lparr>st_ops = of_int (num_ops tr), st_valid = True, st_secs = secs,
      st_util = rat_of_int (peak (\<lambda>_. 0) 0 (trace_ops tr)) / rat_of_int (mem_heapsize (d_mm d2))\<rparr>"
  have "run_trace verbose i (n, secs) (name, file_of tr) (s, e, out) = Inr (?st, s', e, out @ trace_talk verbose name)"
    by (simp add: trace_talk_def talk_def run_trace_def file_of_def read_show_trace [OF tr(1)] d1(1,2) d2(1) s'(1) Let_def)
  moreover have "trace_stats tr secs ?st" using d2(2,3) by (auto simp: trace_stats_def)
  ultimately show ?thesis using s'(2) by blast
qed

lemma run_traces_ok:
  assumes "list_all good_trace trs" "arena_ok s" "length names = length trs"
  shows "\<exists>sts s'. run_traces verbose timer i (zip names (map file_of trs)) (s, e, out) =
      Inr (sts, s', e, out @ concat (map (trace_talk verbose) names)) \<and>
    list_all2 (\<lambda>(j, tr) st. trace_stats tr (snd (timer j)) st) (enumerate i trs) sts"
  using assms
proof (induction trs arbitrary: i s names out)
  case (Cons tr trs)
  obtain nm ns where nm: "names = nm # ns" "length ns = length trs" using Cons.prems(3) by (cases names) auto
  from run_trace_ok [of tr s verbose i "fst (timer i)" "snd (timer i)" nm e out] Cons.prems obtain st s1 where
    1: "run_trace verbose i (timer i) (nm, file_of tr) (s, e, out) = Inr (st, s1, e, out @ trace_talk verbose nm)"
      "arena_ok s1" "trace_stats tr (snd (timer i)) st" by auto
  from Cons.IH [OF _ 1(2) nm(2), of "Suc i" "out @ trace_talk verbose nm"] Cons.prems(1) obtain sts s' where
    "run_traces verbose timer (Suc i) (zip ns (map file_of trs)) (s1, e, out @ trace_talk verbose nm) =
       Inr (sts, s', e, (out @ trace_talk verbose nm) @ concat (map (trace_talk verbose) ns))"
    "list_all2 (\<lambda>(j, tr) st. trace_stats tr (snd (timer j)) st) (enumerate (Suc i) trs) sts" by auto
  with 1(1,3) show ?case by (simp add: nm(1))
qed simp

lemma run_libc_traces_valid:
  "run_libc_traces verbose lc timer i fs l = Inr (sts, l') \<Longrightarrow> list_all st_valid sts \<and> length sts = length fs"
proof (induction fs arbitrary: i l sts)
  case (Cons f fs)
  then obtain st l1 rest where f: "run_libc_trace verbose lc (timer i) f l = Inr (st, l1)"
    "run_libc_traces verbose lc timer (Suc i) fs l1 = Inr (rest, l')" "sts = st # rest"
    by (auto simp: and_then_Inr)
  have "st_valid st"
    using f(1) by (auto simp: run_libc_trace_def and_then_Inr Let_def in_main_def split: sum.splits if_splits prod.splits dest: libc_valid_true)
  with Cons.IH [OF f(2)] f(3) show ?case by simp
qed simp

lemma stats_all:
  assumes "list_all2 (\<lambda>(j, tr) st. trace_stats tr (snd (timer j)) st) (enumerate i trs) sts"
    "list_all good_trace trs" "\<forall>j. 0 < snd (timer j)"
  shows "list_all stats_ok sts" "filter st_valid sts = sts" "length sts = length trs"
    "map st_ops sts = map (\<lambda>tr. of_int (num_ops tr)) trs"
proof -
  have "list_all stats_ok sts \<and> filter st_valid sts = sts \<and> length sts = length trs \<and>
      map st_ops sts = map (\<lambda>tr. of_int (num_ops tr)) trs"
    using assms(1,2)
  proof (induction trs arbitrary: i sts)
    case (Cons tr trs)
    from Cons.prems(1) obtain st sts' where sts: "sts = st # sts'" "trace_stats tr (snd (timer i)) st"
      "list_all2 (\<lambda>(j, tr) st. trace_stats tr (snd (timer j)) st) (enumerate (Suc i) trs) sts'"
      by (auto simp: list_all2_Cons1)
    have "0 \<le> num_ops tr" using Cons.prems(2) by (simp add: good_trace_def trace_ok_def)
    then have "stats_ok st" "st_valid st" "st_ops st = of_int (num_ops tr)"
      using sts(2) assms(3) by (auto simp: trace_stats_def stats_ok_def)
    with Cons.IH [OF sts(3)] Cons.prems(2) show ?case by (simp add: sts(1))
  qed simp
  then show "list_all stats_ok sts" "filter st_valid sts = sts" "length sts = length trs"
    "map st_ops sts = map (\<lambda>tr. of_int (num_ops tr)) trs" by blast+
qed

text \<open>The driver on the allocator: from trace files in the documented format whose
  traces use their ids legally and fit in the arena, with a clock that reports positive times, the
  program ends without an error and with every trace correct; each utilization is the trace's peak
  payload over a heap size and lies between 0 and 1, and the performance index lies between 0 and 100,
  with at least 70 points per unit of mean utilization.\<close>

lemma mdriver_scores:
  assumes "trs \<noteq> []" "list_all good_trace trs" "\<forall>i. 0 < snd (timer i)"
    and "8 dvd arena" "0 < arena" "arena + MAX_HEAP < 2 ^ 32" "length names = length trs"
  shows "\<exists>r. mdriver verbose timer (zip names (map file_of trs)) arena s = Inr r \<and> errors r = 0 \<and> numcorrect r = length trs \<and>
    messages r = talk verbose ([CHR 0x0A] @ ''Testing mm malloc'' @ [CHR 0x0A]) @ concat (map (trace_talk verbose) names) \<and>
    list_all2 (\<lambda>(i, tr) st. trace_stats tr (snd (timer i)) st) (enumerate 0 trs) (mm_stats r) \<and>
    0 \<le> perfindex r \<and> perfindex r \<le> 100 \<and>
    70 * (sum_list (map st_util (mm_stats r)) / of_nat (length trs)) \<le> perfindex r"
proof -
  let ?s = "s\<lparr>mem_start_brk := arena, mem_max_addr := arena + MAX_HEAP, mem_brk := arena\<rparr>"
  let ?out = "talk verbose ([CHR 0x0A] @ ''Testing mm malloc'' @ [CHR 0x0A])"
  have "arena_ok ?s" using assms(4-6) by (simp add: arena_ok_def)
  from run_traces_ok [OF assms(2) this assms(7), of verbose timer 0 0 ?out] obtain sts s' where
    r: "run_traces verbose timer 0 (zip names (map file_of trs)) (?s, 0, ?out) =
        Inr (sts, s', 0, ?out @ concat (map (trace_talk verbose) names))"
      "list_all2 (\<lambda>(j, tr) st. trace_stats tr (snd (timer j)) st) (enumerate 0 trs) sts" by blast
  note S = stats_all [OF r(2) assms(2,3)]
  have "sts \<noteq> []" using S(3) assms(1) by auto
  note perf = perf_index_bounds [OF S(1) this, of 0]
  have "mdriver verbose timer (zip names (map file_of trs)) arena s =
      Inr \<lparr>numcorrect = length trs, errors = 0, perfindex = perf_index 0 sts, mm_stats = sts,
        messages = ?out @ concat (map (trace_talk verbose) names)\<rparr>"
    using assms(5) r(1) by (simp add: mdriver_def mem_init_def S(2,3))
  then show ?thesis using perf r(2) S(3) by simp
qed

end
