(* ===== verification/Getopt.thy ===== *)
theory Getopt
  imports Prelude
begin

text \<open>
  Command-line options as libc's \<^verbatim>\<open>getopt\<close> delivers them to the loops of the programs' \<^verbatim>\<open>main\<close>
  functions: what the loops of \<^verbatim>\<open>tsh.c\<close> and \<^verbatim>\<open>mdriver.c\<close> see, in order. The option string lists the
  option characters, with a colon after one that takes an argument. Operands are skipped (GNU
  permutation), \<^verbatim>\<open>--\<close> ends the options, and a lone \<^verbatim>\<open>-\<close> is an operand.
\<close>

datatype opt =
    Opt char "string option"   \<comment> \<open>an option and its \<open>optarg\<close>\<close>
  | BadOpt char                \<comment> \<open>not in the option string: \<open>getopt\<close> returns a question mark\<close>
  | MissingArg char            \<comment> \<open>the argument is missing: a question mark too\<close>

text \<open>Whether a character is an option, and whether it takes an argument.\<close>

definition takes_arg :: "string \<Rightarrow> char \<Rightarrow> bool option" where
  "takes_arg spec c =
     (if c = CHR '':'' then None
      else case dropWhile (\<lambda>d. d \<noteq> c) spec of
        [] \<Rightarrow> None
      | _ # rest \<Rightarrow> Some (case rest of [] \<Rightarrow> False | d # _ \<Rightarrow> d = CHR '':''))"

text \<open>The characters of one element after its dash: the options in it, and the arguments left.\<close>

fun short_opts :: "string \<Rightarrow> string \<Rightarrow> string list \<Rightarrow> opt list \<times> string list" where
  "short_opts spec [] args = ([], args)"
| "short_opts spec (c # cs) args =
     (case takes_arg spec c of
        None \<Rightarrow> (case short_opts spec cs args of (os, rest) \<Rightarrow> (BadOpt c # os, rest))
      | Some False \<Rightarrow> (case short_opts spec cs args of (os, rest) \<Rightarrow> (Opt c None # os, rest))
      | Some True \<Rightarrow>
          if cs \<noteq> [] then ([Opt c (Some cs)], args)
          else case args of
            [] \<Rightarrow> ([MissingArg c], [])
          | a # args' \<Rightarrow> ([Opt c (Some a)], args'))"

lemma short_opts_length: "length (snd (short_opts spec cs args)) \<le> length args"
  by (induction spec cs args rule: short_opts.induct) (auto split: option.splits bool.splits list.splits prod.splits)

text \<open>The arguments after the program's name.\<close>

function getopt :: "string \<Rightarrow> string list \<Rightarrow> opt list" where
  "getopt spec [] = []"
| "getopt spec (a # args) =
     (if a = ''--'' then []
      else case a of
        c # d # cs \<Rightarrow>
          if c = CHR ''-''
          then fst (short_opts spec (d # cs) args) @ getopt spec (snd (short_opts spec (d # cs) args))
          else getopt spec args
      | _ \<Rightarrow> getopt spec args)"
  by pat_completeness auto
termination
  by (relation "measure (\<lambda>(spec, args). length args)") (simp_all add: short_opts_length less_Suc_eq_le del: short_opts.simps)

text \<open>Options written one by one, as a caller would: every element a dash and one option character that
  takes no argument.\<close>

definition flag_args :: "char list \<Rightarrow> string list" where
  "flag_args cs = map (\<lambda>c. [CHR ''-'', c]) cs"

lemma getopt_flags:
  assumes "\<forall>c \<in> set cs. c \<noteq> CHR ''-'' \<and> takes_arg spec c = Some False"
  shows "getopt spec (flag_args cs) = map (\<lambda>c. Opt c None) cs"
  using assms by (induction cs) (simp_all add: flag_args_def)

text \<open>The message libc prints for an option that is not valid.\<close>

definition getopt_message :: "string \<Rightarrow> opt \<Rightarrow> string" where
  "getopt_message prog p =
     (case p of
        Opt c a \<Rightarrow> ''''
      | BadOpt c \<Rightarrow> prog @ '': invalid option -- '' @ [CHR 0x27, c, CHR 0x27, CHR 0x0A]
      | MissingArg c \<Rightarrow> prog @ '': option requires an argument -- '' @ [CHR 0x27, c, CHR 0x27, CHR 0x0A])"

end
