(* ===== verification/DriverCli.thy ===== *)
theory DriverCli
  imports DriverMain Getopt
begin

text \<open>
  The command line and the report of the driver (\<^verbatim>\<open>malloclab/mdriver.c\<close>): options, the check of the team
  information, the choice of the trace files, the result table and the score lines. The texts are what
  is written to standard output and standard error; numbers are printed from exact rationals, rounded
  as \<^verbatim>\<open>printf\<close> rounds.
\<close>

datatype cli_stop =
    CliExit int string      \<comment> \<open>the exit status and the last text\<close>
  | CliOverrun              \<comment> \<open>an access outside a character array\<close>

record driver_opts =
  o_verbose :: nat
  o_tracedir :: string
  o_file :: "string option"     \<comment> \<open>\<^verbatim>\<open>tracefiles\<close> after \<^verbatim>\<open>-f\<close>\<close>
  o_team_check :: bool
  o_run_libc :: bool
  o_autograder :: bool

definition MAXLINE :: nat where "MAXLINE = 1024"
definition TRACEDIR :: string where "TRACEDIR = ''./''"

abbreviation nl :: char where "nl \<equiv> CHR 0x0A"
abbreviation tab :: char where "tab \<equiv> CHR 0x09"

definition default_tracefiles :: "string list" where
  "default_tracefiles =
     [''memory-leak.rep'', ''short1-bal.rep'', ''short2-bal.rep'', ''random-bal.rep'', ''random2-bal.rep'',
      ''random3-bal.rep'', ''random4-bal.rep'', ''random5-bal.rep'', ''binary-bal.rep'', ''binary2-bal.rep'',
      ''amptjp-bal.rep'', ''cccp-bal.rep'', ''cp-decl-bal.rep'', ''expr-bal.rep'', ''coalescing-bal.rep'']"

definition default_opts :: driver_opts where
  "default_opts = \<lparr>o_verbose = 0, o_tracedir = TRACEDIR, o_file = None, o_team_check = True, o_run_libc = False,
     o_autograder = False\<rparr>"

definition driver_usage :: string where
  "driver_usage =
     ''Usage: mdriver [-hvVal] [-f <file>] [-t <dir>]'' @ [nl] @
     ''Options'' @ [nl] @
     [tab] @ ''-a         Don'' @ [CHR 0x27] @ ''t check the team structure.'' @ [nl] @
     [tab] @ ''-f <file>  Use <file> as the trace file.'' @ [nl] @
     [tab] @ ''-g         Generate summary info for autograder.'' @ [nl] @
     [tab] @ ''-h         Print this message.'' @ [nl] @
     [tab] @ ''-l         Run libc malloc as well.'' @ [nl] @
     [tab] @ ''-t <dir>   Directory to find default traces.'' @ [nl] @
     [tab] @ ''-v         Print per-trace performance breakdowns.'' @ [nl] @
     [tab] @ ''-V         Print additional debug info.'' @ [nl]"

subsection \<open>Options\<close>

text \<open>\<^verbatim>\<open>strcpy\<close> to \<^verbatim>\<open>tracedir[MAXLINE]\<close>, the look at its last character, \<^verbatim>\<open>strcat\<close>.\<close>

definition copy_tracedir :: "string \<Rightarrow> cli_stop + string" where
  "copy_tracedir optarg =
     (if MAXLINE \<le> length optarg \<or> optarg = [] then Inl CliOverrun
      else if last optarg \<noteq> CHR ''/'' then
        if MAXLINE \<le> length optarg + 1 then Inl CliOverrun else Inr (optarg @ ''/'')
      else Inr optarg)"

fun driver_options :: "string \<Rightarrow> opt list \<Rightarrow> driver_opts \<Rightarrow> cli_stop + driver_opts" where
  "driver_options name [] r = Inr r"
| "driver_options name (p # ps) r =
     (case p of
        Opt c a \<Rightarrow>
          let optarg = (case a of None \<Rightarrow> '''' | Some x \<Rightarrow> x) in
          if c = CHR ''g'' then driver_options name ps (r\<lparr>o_autograder := True\<rparr>)
          else if c = CHR ''f'' then driver_options name ps (r\<lparr>o_tracedir := ''./'', o_file := Some optarg\<rparr>)
          else if c = CHR ''t'' then
            (if o_file r \<noteq> None then driver_options name ps r
             else and_then (copy_tracedir optarg) (\<lambda>d. driver_options name ps (r\<lparr>o_tracedir := d\<rparr>)))
          else if c = CHR ''a'' then driver_options name ps (r\<lparr>o_team_check := False\<rparr>)
          else if c = CHR ''l'' then driver_options name ps (r\<lparr>o_run_libc := True\<rparr>)
          else if c = CHR ''v'' then driver_options name ps (r\<lparr>o_verbose := 1\<rparr>)
          else if c = CHR ''V'' then driver_options name ps (r\<lparr>o_verbose := 2\<rparr>)
          else if c = CHR ''h'' then Inl (CliExit 0 driver_usage)
          else Inl (CliExit 1 driver_usage)
      | _ \<Rightarrow> Inl (CliExit 1 (getopt_message name p @ driver_usage)))"

definition parse_options :: "string \<Rightarrow> string list \<Rightarrow> cli_stop + driver_opts" where
  "parse_options name args = driver_options name (getopt ''f:t:hvVgal'' args) default_opts"

subsection \<open>The team\<close>

record team_t =
  teamname :: string
  name1 :: string
  id1 :: string
  name2 :: string
  id2 :: string

definition team :: team_t where
  "team = \<lparr>teamname = ''2016-27542'', name1 = ''HANGQI CUI'', id1 = ''2016-27542'', name2 = '''', id2 = ''''\<rparr>"

definition check_team :: "team_t \<Rightarrow> cli_stop + string" where
  "check_team t =
     (if teamname t = [] then Inl (CliExit 1 (''ERROR: Please provide the information about your team in mm.c.'' @ [nl]))
      else
        let txt = ''Team Name:'' @ teamname t @ [nl] in
        if name1 t = [] \<or> id1 t = []
        then Inl (CliExit 1 (txt @ ''ERROR.  You must fill in all team member 1 fields!'' @ [nl]))
        else
          let txt = txt @ ''Member 1 :'' @ name1 t @ '':'' @ id1 t @ [nl] in
          if (name2 t \<noteq> [] \<and> id2 t = []) \<or> (name2 t = [] \<and> id2 t \<noteq> [])
          then Inl (CliExit 1 (txt @ ''ERROR.  You must fill in all or none of the team member 2 ID fields!'' @ [nl]))
          else if name2 t \<noteq> [] then Inr (txt @ ''Member 2 :'' @ name2 t @ '':'' @ id2 t @ [nl])
          else Inr txt)"

subsection \<open>Trace files\<close>

definition trace_files :: "driver_opts \<Rightarrow> string list \<times> string" where
  "trace_files r =
     (case o_file r of
        Some f \<Rightarrow> ([f], '''')
      | None \<Rightarrow> (default_tracefiles, ''Using default tracefiles in '' @ o_tracedir r @ [nl]))"

text \<open>The path that \<^verbatim>\<open>read_trace\<close> composes in an array.\<close>

definition trace_path :: "string \<Rightarrow> string \<Rightarrow> cli_stop + string" where
  "trace_path dir f = (if MAXLINE \<le> length dir + length f then Inl CliOverrun else Inr (dir @ f))"

text \<open>Everything before the timing package is started: the options, the names of the trace files, and what was
  printed.\<close>

definition driver_start :: "string \<Rightarrow> string list \<Rightarrow> team_t \<Rightarrow> cli_stop + (driver_opts \<times> string list \<times> string)" where
  "driver_start name args t =
     and_then (parse_options name args) (\<lambda>r.
     and_then (if o_team_check r then check_team t else Inr '''') (\<lambda>txt.
       let (files, msg) = trace_files r in Inr (r, files, txt @ msg)))"

subsection \<open>Printing numbers\<close>

definition round_half_even :: "rat \<Rightarrow> int" where
  "round_half_even x =
     (let f = \<lfloor>x\<rfloor>; d = x - of_int f
      in if d < 1 / 2 then f else if d > 1 / 2 then f + 1 else if even f then f else f + 1)"

text \<open>\<^verbatim>\<open>%w.pf\<close>.\<close>

definition show_fixed :: "nat \<Rightarrow> nat \<Rightarrow> rat \<Rightarrow> string" where
  "show_fixed w p x =
     (let n = nat (round_half_even (\<bar>x\<bar> * 10 ^ p));
          frac = show_nat (n mod 10 ^ p);
          digits = show_nat (n div 10 ^ p) @ (if p = 0 then '''' else ''.'' @ replicate (p - length frac) CHR ''0'' @ frac)
      in pad w (if x < 0 then ''-'' @ digits else digits))"

text \<open>A quotient of doubles that are not negative; division by zero gives an infinity or no number.\<close>

definition show_ratio :: "nat \<Rightarrow> nat \<Rightarrow> rat \<Rightarrow> rat \<Rightarrow> string" where
  "show_ratio w p a b = (if b = 0 then pad w (if a = 0 then ''-nan'' else ''inf'') else show_fixed w p (a / b))"

subsection \<open>The report\<close>

definition result_row :: "nat \<Rightarrow> stats_t \<Rightarrow> string" where
  "result_row i st =
     pad 2 (show_nat i) @ '' '' @
     (if st_valid st then
        pad 10 ''yes'' @ '' '' @ show_fixed 5 0 (st_util st * 100) @ ''% '' @ show_fixed 8 0 (st_ops st) @ '' '' @
        show_fixed 10 6 (st_secs st) @ '' '' @ show_ratio 6 0 (st_ops st / 1000) (st_secs st)
      else
        pad 10 ''no'' @ '' '' @ pad 6 ''-'' @ '' '' @ pad 8 ''-'' @ '' '' @ pad 10 ''-'' @ '' '' @ pad 6 ''-'') @ [nl]"

definition printresults :: "nat \<Rightarrow> stats_t list \<Rightarrow> string" where
  "printresults errs stats =
     (let valid = filter st_valid stats;
          secs = sum_list (map st_secs valid);
          ops = sum_list (map st_ops valid);
          util = sum_list (map st_util valid)
      in pad 5 ''trace'' @ '' '' @ pad 7 '' valid'' @ ''  '' @ pad 5 ''util'' @ '' '' @ pad 8 ''ops'' @ '' '' @ pad 10 ''secs'' @ '' '' @
           pad 6 ''Kops'' @ [nl] @
         concat (map (\<lambda>(i, st). result_row i st) (enumerate 0 stats)) @
         (if errs = 0 then
            pad 12 ''Total       '' @ ''  '' @ show_ratio 5 0 (util * 100) (of_nat (length stats)) @ ''% '' @ show_fixed 8 0 ops @ '' '' @
            show_fixed 10 6 secs @ '' '' @ show_ratio 6 0 (ops / 1000) secs
          else
            pad 12 ''Total       '' @ ''  '' @ pad 6 ''-'' @ ''  '' @ pad 8 ''-'' @ '' '' @ pad 10 ''-'' @ '' '' @ pad 6 ''-'') @ [nl])"

text \<open>The two parts of the score, for a total time that is not zero.\<close>

definition score_parts :: "stats_t list \<Rightarrow> rat \<times> rat" where
  "score_parts stats =
     (let avg_mm_util = sum_list (map st_util stats) / of_nat (length stats);
          avg_mm_throughput = sum_list (map st_ops stats) / sum_list (map st_secs stats);
          p2 = (if avg_mm_throughput > AVG_LIBC_THRUPUT then 1 - UTIL_WEIGHT
                else (1 - UTIL_WEIGHT) * (avg_mm_throughput / AVG_LIBC_THRUPUT))
      in (UTIL_WEIGHT * avg_mm_util, p2))"

definition score_lines :: "driver_opts \<Rightarrow> main_result \<Rightarrow> string" where
  "score_lines r res =
     (if errors res = 0 then
        case score_parts (mm_stats res) of (p1, p2) \<Rightarrow>
          ''Perf index = '' @ show_fixed 0 0 (p1 * 100) @ '' (util) + '' @ show_fixed 0 0 (p2 * 100) @ '' (thru) = '' @
          show_fixed 0 0 (perfindex res) @ ''/100'' @ [nl]
      else ''Terminated with '' @ show_nat (errors res) @ '' errors'' @ [nl]) @
     (if o_autograder r
      then ''correct:'' @ show_nat (numcorrect res) @ [nl] @ ''perfidx:'' @ show_fixed 0 0 (perfindex res) @ [nl]
      else '''')"

text \<open>\<^verbatim>\<open>init_fsecs\<close>, configured for \<^verbatim>\<open>gettimeofday\<close>.\<close>

definition init_fsecs_text :: "nat \<Rightarrow> string" where
  "init_fsecs_text verbose = (if verbose \<noteq> 0 then ''Measuring performance with gettimeofday().'' @ [nl] else '''')"

text \<open>What \<^verbatim>\<open>main\<close> prints once the traces have run.\<close>

definition driver_report :: "driver_opts \<Rightarrow> main_result \<Rightarrow> string" where
  "driver_report r res =
     (if o_verbose r \<noteq> 0
      then [nl] @ ''Results for mm malloc:'' @ [nl] @ printresults (errors res) (mm_stats res) @ [nl]
      else '''') @ score_lines r res"

subsection \<open>The whole program\<close>

text \<open>The file system gives for a path what \<^verbatim>\<open>fopen\<close> finds there. The files are opened one by one as the loops come
  to them: the program runs on those before the first that cannot be opened, and exits there.\<close>

datatype driver_end = CliEnd cli_stop | RunEnd main_stop | NoFile string

fun open_files :: "(string \<Rightarrow> trace_file option) \<Rightarrow> string \<Rightarrow> string list \<Rightarrow> (string \<times> trace_file) list \<times> driver_end option" where
  "open_files fs dir [] = ([], None)"
| "open_files fs dir (f # rest) =
     (case trace_path dir f of
        Inl e \<Rightarrow> ([], Some (CliEnd e))
      | Inr p \<Rightarrow>
          (case fs p of
             None \<Rightarrow> ([], Some (NoFile p))
           | Some tf \<Rightarrow> let (tfs, e) = open_files fs dir rest in ((f, tf) # tfs, e)))"

definition ending :: "('a \<Rightarrow> driver_end) \<Rightarrow> 'a + 'b \<Rightarrow> driver_end option \<Rightarrow> driver_end + 'b" where
  "ending f m e =
     (case m of
        Inl x \<Rightarrow> Inl (f x)
      | Inr y \<Rightarrow> (case e of None \<Rightarrow> Inr y | Some stop \<Rightarrow> Inl stop))"

definition libc_report :: "driver_opts \<Rightarrow> stats_t list \<Rightarrow> string" where
  "libc_report r stats =
     (if o_verbose r \<noteq> 0 then [nl] @ ''Results for libc malloc:'' @ [nl] @ printresults 0 stats else '''')"

text \<open>The program's name and arguments, the team, the file system, libc's allocator with its state, the timing of
  both loops, and the arena that libc gives to \<^verbatim>\<open>mem_init\<close>; the result is the text printed by a run that ends
  with the status 0.\<close>

definition driver_main :: "string \<Rightarrow> string list \<Rightarrow> team_t \<Rightarrow> (string \<Rightarrow> trace_file option) \<Rightarrow> 'l libc \<Rightarrow> 'l
    \<Rightarrow> (nat \<Rightarrow> nat \<times> rat) \<Rightarrow> (nat \<Rightarrow> nat \<times> rat) \<Rightarrow> addr \<Rightarrow> mm \<Rightarrow> driver_end + string" where
  "driver_main name args t fs lc l libc_timer timer arena s =
     and_then (ending CliEnd (driver_start name args t) None) (\<lambda>(r, files, txt).
       let (tfs, e) = open_files fs (o_tracedir r) files in
     and_then (if o_run_libc r
               then and_then (ending RunEnd (run_libc_traces (o_verbose r) lc libc_timer 0 tfs
                        (l, talk (o_verbose r) ([nl] @ ''Testing libc malloc'' @ [nl]))) e)
                      (\<lambda>(stats, l, out). Inr (out @ libc_report r stats))
               else Inr '''') (\<lambda>libc_txt.
     and_then (ending RunEnd (mdriver (o_verbose r) timer tfs arena s) e) (\<lambda>res.
       Inr (txt @ init_fsecs_text (o_verbose r) @ libc_txt @ messages res @ driver_report r res))))"

lemma perf_index_parts:
  "perf_index errs stats = (if errs = 0 then (fst (score_parts stats) + snd (score_parts stats)) * 100 else 0)"
  by (simp add: perf_index_def score_parts_def Let_def)

subsection \<open>What the options establish\<close>

definition opts_ok :: "driver_opts \<Rightarrow> bool" where
  "opts_ok r \<longleftrightarrow> o_tracedir r \<noteq> [] \<and> last (o_tracedir r) = CHR ''/'' \<and> length (o_tracedir r) < MAXLINE \<and>
     (o_file r \<noteq> None \<longrightarrow> o_tracedir r = ''./'')"

lemma copy_tracedir_ok: "copy_tracedir a = Inr d \<Longrightarrow> d \<noteq> [] \<and> last d = CHR ''/'' \<and> length d < MAXLINE"
  by (auto simp: copy_tracedir_def split: if_splits)

lemma opts_ok_default: "opts_ok default_opts"
  by (simp add: opts_ok_def default_opts_def TRACEDIR_def MAXLINE_def)

lemma opts_ok_set:
  assumes "opts_ok r"
  shows "opts_ok (r\<lparr>o_autograder := b\<rparr>)" "opts_ok (r\<lparr>o_team_check := b\<rparr>)" "opts_ok (r\<lparr>o_run_libc := b\<rparr>)"
    "opts_ok (r\<lparr>o_verbose := n\<rparr>)" "opts_ok (r\<lparr>o_tracedir := ''./'', o_file := f\<rparr>)"
    "o_file r = None \<Longrightarrow> copy_tracedir a = Inr d \<Longrightarrow> opts_ok (r\<lparr>o_tracedir := d\<rparr>)"
  using assms copy_tracedir_ok [of a d] by (auto simp: opts_ok_def MAXLINE_def)

lemma driver_options_ok: "opts_ok r \<Longrightarrow> driver_options name ps r = Inr r' \<Longrightarrow> opts_ok r'"
proof (induction ps arbitrary: r)
  case (Cons p ps)
  show ?case
  proof (cases p)
    case (Opt c a)
    show ?thesis
      using Cons.prems
      by (auto simp: Opt Let_def and_then_Inr opts_ok_set split: if_splits intro: Cons.IH [rotated])
  qed (use Cons.prems in simp_all)
qed simp

text \<open>The trace directory always ends in a slash and fits its array, and \<^verbatim>\<open>-f\<close> decides it wherever it stands.\<close>

lemma parse_options_ok: "parse_options name args = Inr r \<Longrightarrow> opts_ok r"
  unfolding parse_options_def by (rule driver_options_ok [OF opts_ok_default])

lemma team_accepted: "check_team team = Inr (''Team Name:2016-27542'' @ [nl] @ ''Member 1 :HANGQI CUI:2016-27542'' @ [nl])"
  by (simp add: check_team_def team_def)

lemma open_good_files:
  assumes "list_all2 (\<lambda>f tr. length dir + length f < MAXLINE \<and> fs (dir @ f) = Some (file_of tr)) files trs"
  shows "open_files fs dir files = (zip files (map file_of trs), None)"
  using assms by (induction rule: list_all2_induct) (simp_all add: trace_path_def)

text \<open>C27. The driver end to end: with options and a team that it accepts, without \<^verbatim>\<open>-l\<close>, with trace files that can be
  opened and are in the documented format, whose traces use their ids legally, reallocate nothing and fit in the
  arena, and a clock that reports positive times, the program prints the team, the table when asked
  for, the messages of \<^verbatim>\<open>-V\<close>, no error message, and the score, and exits with status 0. It counts no error and every trace as correct; each utilization
  is the trace's peak payload over a heap size and lies between 0 and 1, and the performance index
  lies between 0 and 100, with at least 70 points per unit of mean utilization.\<close>

theorem driver_prints_score:
  assumes "driver_start name args t = Inr (r, files, txt)" "\<not> o_run_libc r"
    and "list_all2 (\<lambda>f tr. length (o_tracedir r) + length f < MAXLINE \<and> fs (o_tracedir r @ f) = Some (file_of tr)) files trs"
    and "trs \<noteq> []" "list_all good_trace trs" "\<forall>i. 0 < snd (timer i)"
    and "8 dvd arena" "0 < arena" "arena + MAX_HEAP < 2 ^ 32"
  shows "\<exists>res. driver_main name args t fs lc l libc_timer timer arena s =
      Inr (txt @ init_fsecs_text (o_verbose r) @ talk (o_verbose r) ([nl] @ ''Testing mm malloc'' @ [nl]) @
        concat (map (trace_talk (o_verbose r)) files) @ driver_report r res) \<and>
    errors res = 0 \<and> numcorrect res = length trs \<and>
    list_all2 (\<lambda>(i, tr) st. trace_stats tr (snd (timer i)) st) (enumerate 0 trs) (mm_stats res) \<and>
    0 \<le> perfindex res \<and> perfindex res \<le> 100 \<and>
    70 * (sum_list (map st_util (mm_stats res)) / of_nat (length trs)) \<le> perfindex res"
proof -
  have len: "length files = length trs" using assms(3) by (rule list_all2_lengthD)
  obtain res where res: "mdriver (o_verbose r) timer (zip files (map file_of trs)) arena s = Inr res"
    "messages res = talk (o_verbose r) ([nl] @ ''Testing mm malloc'' @ [nl]) @ concat (map (trace_talk (o_verbose r)) files)"
    "errors res = 0" "numcorrect res = length trs"
    "list_all2 (\<lambda>(i, tr) st. trace_stats tr (snd (timer i)) st) (enumerate 0 trs) (mm_stats res)"
    "0 \<le> perfindex res" "perfindex res \<le> 100"
    "70 * (sum_list (map st_util (mm_stats res)) / of_nat (length trs)) \<le> perfindex res"
    using mdriver_scores [OF assms(4-9) len] by blast
  have "driver_main name args t fs lc l libc_timer timer arena s =
      Inr (txt @ init_fsecs_text (o_verbose r) @ talk (o_verbose r) ([nl] @ ''Testing mm malloc'' @ [nl]) @
        concat (map (trace_talk (o_verbose r)) files) @ driver_report r res)"
    using assms(1,2) open_good_files [OF assms(3)] res(1,2) by (simp add: driver_main_def ending_def)
  with res(3-) show ?thesis by blast
qed

text \<open>The run \<^verbatim>\<open>mdriver -V -g -f t.rep\<close>.\<close>

definition graded_opts :: driver_opts where
  "graded_opts = \<lparr>o_verbose = 2, o_tracedir = ''./'', o_file = Some ''t.rep'', o_team_check = True, o_run_libc = False,
     o_autograder = True\<rparr>"

lemma graded_start:
  "driver_start ''mdriver'' [''-V'', ''-g'', ''-f'', ''t.rep''] team =
     Inr (graded_opts, [''t.rep''], ''Team Name:2016-27542'' @ [nl] @ ''Member 1 :HANGQI CUI:2016-27542'' @ [nl])"
  by code_simp

theorem driver_prints_score_witness:
  "\<forall>lc l libc_timer. \<exists>res. driver_main ''mdriver'' [''-V'', ''-g'', ''-f'', ''t.rep''] team [''./t.rep'' \<mapsto> file_of trace_example]
       lc l libc_timer (\<lambda>_. (1, 1)) 4096 mm_start =
     Inr (''Team Name:2016-27542'' @ [nl] @ ''Member 1 :HANGQI CUI:2016-27542'' @ [nl] @
       ''Measuring performance with gettimeofday().'' @ [nl, nl] @ ''Testing mm malloc'' @ [nl] @
       ''Reading tracefile: t.rep'' @ [nl] @ ''Checking mm_malloc for correctness, efficiency, and performance.'' @ [nl] @
       driver_report graded_opts res) \<and> errors res = 0 \<and> numcorrect res = 1"
proof (intro allI)
  fix lc l libc_timer
  have "good_trace trace_example"
    using trace_example_facts trace_example_growth trace_example_ok by (simp add: good_trace_def fits_arena_def MAX_HEAP_def)
  with driver_prints_score [OF graded_start, of "[''./t.rep'' \<mapsto> file_of trace_example]" "[trace_example]" "\<lambda>_. (1, 1)" 4096
      lc l libc_timer mm_start]
  obtain res where res: "driver_main ''mdriver'' [''-V'', ''-g'', ''-f'', ''t.rep''] team [''./t.rep'' \<mapsto> file_of trace_example]
       lc l libc_timer (\<lambda>_. (1, 1)) 4096 mm_start =
     Inr ((''Team Name:2016-27542'' @ [nl] @ ''Member 1 :HANGQI CUI:2016-27542'' @ [nl]) @ init_fsecs_text (o_verbose graded_opts) @
       talk (o_verbose graded_opts) ([nl] @ ''Testing mm malloc'' @ [nl]) @
       concat (map (trace_talk (o_verbose graded_opts)) [''t.rep'']) @ driver_report graded_opts res)"
     "errors res = 0" "numcorrect res = 1"
    by (auto simp: graded_opts_def MAX_HEAP_def MAXLINE_def)
  have v: "o_verbose graded_opts = 2" by (simp add: graded_opts_def)
  show "\<exists>res. driver_main ''mdriver'' [''-V'', ''-g'', ''-f'', ''t.rep''] team [''./t.rep'' \<mapsto> file_of trace_example]
       lc l libc_timer (\<lambda>_. (1, 1)) 4096 mm_start =
     Inr (''Team Name:2016-27542'' @ [nl] @ ''Member 1 :HANGQI CUI:2016-27542'' @ [nl] @
       ''Measuring performance with gettimeofday().'' @ [nl, nl] @ ''Testing mm malloc'' @ [nl] @
       ''Reading tracefile: t.rep'' @ [nl] @ ''Checking mm_malloc for correctness, efficiency, and performance.'' @ [nl] @
       driver_report graded_opts res) \<and> errors res = 0 \<and> numcorrect res = 1"
    by (intro exI [of _ res] conjI res(2,3), subst res(1)) (simp add: v init_fsecs_text_def talk_def trace_talk_def)
qed

end
