(* ===== verification/Jobs.thy ===== *)
theory Jobs
  imports Prelude "HOL-Library.Multiset"
begin

text \<open>
  The job table of the shell (\<^verbatim>\<open>shelllab/tsh.c\<close>): sixteen slots, searched by process id or by job id.
  The shell's global variables are the record \<open>tsh\<close>; its output and the signals it sends are
  recorded in \<open>out\<close> and \<open>sent\<close>. The locale \<open>pid_table\<close> states what the rest of the shell may
  expect of a table indexed by process ids; the interpretation shows it of the code's table.
\<close>

datatype job_state = UNDEF | FG | BG | ST

record job_t =
  j_pid :: int
  j_jid :: int
  j_state :: job_state
  j_cmdline :: string

record tsh =
  jobs :: "job_t list"
  nextjid :: int
  verbose :: bool
  getIntOrStp :: bool
  out :: string
  sent :: "(int \<times> int) list"

definition MAXJOBS :: nat where "MAXJOBS = 16"

definition printf :: "string \<Rightarrow> tsh \<Rightarrow> tsh" where
  "printf msg s = s\<lparr>out := out s @ msg\<rparr>"

subsection \<open>The table\<close>

definition clearjob :: "job_t \<Rightarrow> job_t" where
  "clearjob j = j\<lparr>j_pid := 0, j_jid := 0, j_state := UNDEF, j_cmdline := ''''\<rparr>"

definition initjobs :: "tsh \<Rightarrow> tsh" where
  "initjobs s = s\<lparr>jobs := map clearjob (jobs s)\<rparr>"

definition maxjid :: "job_t list \<Rightarrow> int" where
  "maxjid js = foldl (\<lambda>m j. if j_jid j > m then j_jid j else m) 0 js"

text \<open>The index of the first slot that satisfies a test: the search loops of the file.\<close>

fun first_slot :: "(job_t \<Rightarrow> bool) \<Rightarrow> job_t list \<Rightarrow> nat option" where
  "first_slot P [] = None"
| "first_slot P (j # js) = (if P j then Some 0 else map_option Suc (first_slot P js))"

definition addjob :: "int \<Rightarrow> job_state \<Rightarrow> string \<Rightarrow> tsh \<Rightarrow> bool \<times> tsh" where
  "addjob p st cmd s =
     (if p < 1 then (False, s)
      else case first_slot (\<lambda>j. j_pid j = 0) (jobs s) of
        Some i \<Rightarrow>
          let j = (jobs s ! i)\<lparr>j_pid := p, j_state := st, j_jid := nextjid s, j_cmdline := cmd\<rparr>;
              nj = nextjid s + 1;
              s = s\<lparr>jobs := (jobs s)[i := j], nextjid := (if nj > int MAXJOBS then 1 else nj)\<rparr>
          in (True, if verbose s
                    then printf (''Added job ['' @ show_int (j_jid j) @ ''] '' @ show_int (j_pid j) @ '' '' @ cmd @ [CHR 0x0A]) s
                    else s)
      | None \<Rightarrow> (False, printf (''Tried to create too many jobs'' @ [CHR 0x0A]) s))"

definition deletejob :: "int \<Rightarrow> tsh \<Rightarrow> bool \<times> tsh" where
  "deletejob p s =
     (if p < 1 then (False, s)
      else case first_slot (\<lambda>j. j_pid j = p) (jobs s) of
        Some i \<Rightarrow>
          let js = (jobs s)[i := clearjob (jobs s ! i)]
          in (True, s\<lparr>jobs := js, nextjid := maxjid js + 1\<rparr>)
      | None \<Rightarrow> (False, s))"

definition fgpid :: "tsh \<Rightarrow> int" where
  "fgpid s = (case first_slot (\<lambda>j. j_state j = FG) (jobs s) of Some i \<Rightarrow> j_pid (jobs s ! i) | None \<Rightarrow> 0)"

text \<open>The lookups return a pointer into the table, here the index of the slot.\<close>

definition getjobpid :: "tsh \<Rightarrow> int \<Rightarrow> nat option" where
  "getjobpid s p = (if p < 1 then None else first_slot (\<lambda>j. j_pid j = p) (jobs s))"

definition getjobjid :: "tsh \<Rightarrow> int \<Rightarrow> nat option" where
  "getjobjid s jid = (if jid < 1 then None else first_slot (\<lambda>j. j_jid j = jid) (jobs s))"

definition pid2jid :: "tsh \<Rightarrow> int \<Rightarrow> int" where
  "pid2jid s p =
     (if p < 1 then 0
      else case first_slot (\<lambda>j. j_pid j = p) (jobs s) of Some i \<Rightarrow> j_jid (jobs s ! i) | None \<Rightarrow> 0)"

definition state_name :: "nat \<Rightarrow> job_state \<Rightarrow> string" where
  "state_name i st = (case st of
     BG \<Rightarrow> ''Running '' | FG \<Rightarrow> ''Foreground '' | ST \<Rightarrow> ''Stopped ''
   | UNDEF \<Rightarrow> ''listjobs: Internal error: job['' @ show_int (int i) @ ''].state='' @ show_int 0 @ '' '')"

definition list_line :: "nat \<Rightarrow> job_t \<Rightarrow> string" where
  "list_line i j =
     (if j_pid j \<noteq> 0
      then ''['' @ show_int (j_jid j) @ ''] ('' @ show_int (j_pid j) @ '') '' @ state_name i (j_state j) @ j_cmdline j
      else '''')"

definition listjobs :: "tsh \<Rightarrow> tsh" where
  "listjobs s = printf (concat (map (\<lambda>(i, j). list_line i j) (enumerate 0 (jobs s)))) s"

subsection \<open>Searching\<close>

lemma first_slot_Some:
  "first_slot P js = Some i \<longleftrightarrow> i < length js \<and> P (js ! i) \<and> (\<forall>k < i. \<not> P (js ! k))"
proof (induction js arbitrary: i)
  case (Cons j js)
  show ?case
  proof (cases i)
    case 0
    then show ?thesis by auto
  next
    case (Suc k)
    with Cons.IH [of k] show ?thesis by (auto simp: All_less_Suc2)
  qed
qed simp

lemma first_slot_None: "first_slot P js = None \<longleftrightarrow> (\<forall>j \<in> set js. \<not> P j)"
  by (induction js) auto

lemma first_slot_eq: "list_all2 (\<lambda>j k. P j = P k) js ks \<Longrightarrow> first_slot P js = first_slot P ks"
  by (induction rule: list_all2_induct) auto

lemma first_slot_SomeD:
  assumes "first_slot P js = Some i"
  shows "i < length js" "P (js ! i)" "js ! i \<in> set js"
  using assms by (simp_all add: first_slot_Some)

subsection \<open>Well-formed tables\<close>

definition empty_slot :: "job_t \<Rightarrow> bool" where
  "empty_slot j \<longleftrightarrow> j_pid j = 0 \<and> j_jid j = 0 \<and> j_state j = UNDEF \<and> j_cmdline j = ''''"

definition live_jobs :: "tsh \<Rightarrow> job_t list" where
  "live_jobs s = filter (\<lambda>j. j_pid j \<noteq> 0) (jobs s)"

definition jobs_ok :: "tsh \<Rightarrow> bool" where
  "jobs_ok s \<longleftrightarrow> length (jobs s) = MAXJOBS \<and> 0 < nextjid s \<and>
     (\<forall>j \<in> set (jobs s). empty_slot j \<or> (0 < j_pid j \<and> 0 < j_jid j \<and> j_state j \<noteq> UNDEF)) \<and>
     distinct (map j_pid (live_jobs s))"

definition job_of :: "tsh \<Rightarrow> int \<Rightarrow> job_t option" where
  "job_of s p = map_option (\<lambda>i. jobs s ! i) (getjobpid s p)"

lemma empty_clearjob [simp]: "empty_slot (clearjob j)"
  by (simp add: clearjob_def empty_slot_def)

lemma initjobs_ok: "length (jobs s) = MAXJOBS \<Longrightarrow> 0 < nextjid s \<Longrightarrow> jobs_ok (initjobs s)"
  by (auto simp: jobs_ok_def initjobs_def live_jobs_def clearjob_def filter_empty_conv filter_map empty_slot_def)

text \<open>With distinct process ids a lookup is a statement about the set of jobs.\<close>

lemma job_of_Some:
  assumes "jobs_ok s"
  shows "job_of s p = Some j \<longleftrightarrow> j \<in> set (jobs s) \<and> j_pid j = p \<and> 0 < p"
proof
  assume "job_of s p = Some j"
  then show "j \<in> set (jobs s) \<and> j_pid j = p \<and> 0 < p"
    by (auto simp: job_of_def getjobpid_def dest: first_slot_SomeD split: if_splits)
next
  assume j: "j \<in> set (jobs s) \<and> j_pid j = p \<and> 0 < p"
  then obtain i where i: "first_slot (\<lambda>j. j_pid j = p) (jobs s) = Some i"
    using first_slot_None [of "\<lambda>j. j_pid j = p" "jobs s"] by auto
  then have "jobs s ! i \<in> set (live_jobs s)" "j \<in> set (live_jobs s)" "j_pid (jobs s ! i) = j_pid j"
    using j by (auto simp: live_jobs_def dest: first_slot_SomeD)
  then have "jobs s ! i = j" using assms by (auto simp: jobs_ok_def distinct_map inj_on_def)
  with i j show "job_of s p = Some j" by (simp add: job_of_def getjobpid_def)
qed

lemma job_of_None: "jobs_ok s \<Longrightarrow> job_of s p = None \<longleftrightarrow> p < 1 \<or> (\<forall>j \<in> set (jobs s). j_pid j \<noteq> p)"
  by (auto simp: job_of_def getjobpid_def first_slot_None split: if_splits)

subsection \<open>Adding and deleting\<close>

lemma live_update_empty:
  assumes "i < length js" "j_pid (js ! i) = 0" "j_pid j \<noteq> 0"
  shows "mset (filter (\<lambda>j. j_pid j \<noteq> 0) (js[i := j])) = add_mset j (mset (filter (\<lambda>j. j_pid j \<noteq> 0) js))"
  using assms by (simp add: mset_filter mset_update)

lemma live_update_live:
  assumes "i < length js" "j_pid (js ! i) \<noteq> 0" "j_pid j = 0"
  shows "mset (filter (\<lambda>j. j_pid j \<noteq> 0) (js[i := j])) = mset (filter (\<lambda>j. j_pid j \<noteq> 0) js) - {#js ! i#}"
  using assms by (simp add: mset_filter mset_update)

lemma printf_fields [simp]:
  "jobs (printf m s) = jobs s" "nextjid (printf m s) = nextjid s" "verbose (printf m s) = verbose s"
  "getIntOrStp (printf m s) = getIntOrStp s" "sent (printf m s) = sent s" "out (printf m s) = out s @ m"
  by (simp_all add: printf_def)

definition new_job :: "int \<Rightarrow> job_state \<Rightarrow> string \<Rightarrow> tsh \<Rightarrow> job_t" where
  "new_job p st cmd s = \<lparr>j_pid = p, j_jid = nextjid s, j_state = st, j_cmdline = cmd\<rparr>"

lemma addjob_cases:
  assumes ok: "jobs_ok s" and p: "0 < p"
  shows "(\<exists>s'. addjob p st cmd s = (True, s') \<and> length (jobs s') = MAXJOBS \<and> 0 < nextjid s' \<and>
      set (jobs s') \<subseteq> insert (new_job p st cmd s) (set (jobs s)) \<and>
      mset (live_jobs s') = add_mset (new_job p st cmd s) (mset (live_jobs s)) \<and> length (live_jobs s) < MAXJOBS)
    \<or> (\<exists>s'. addjob p st cmd s = (False, s') \<and> jobs s' = jobs s \<and> nextjid s' = nextjid s \<and> length (live_jobs s) = MAXJOBS)"
proof (cases "first_slot (\<lambda>j. j_pid j = 0) (jobs s)")
  case None
  then have "live_jobs s = jobs s" by (simp add: first_slot_None live_jobs_def)
  with None p ok show ?thesis by (auto simp: addjob_def jobs_ok_def)
next
  case (Some i)
  note i = first_slot_SomeD [OF Some]
  let ?j = "new_job p st cmd s"
  have j: "(jobs s ! i)\<lparr>j_pid := p, j_state := st, j_jid := nextjid s, j_cmdline := cmd\<rparr> = ?j"
    by (cases "jobs s ! i") (simp add: new_job_def)
  let ?s = "s\<lparr>jobs := (jobs s)[i := ?j], nextjid := (if nextjid s + 1 > int MAXJOBS then 1 else nextjid s + 1)\<rparr>"
  have a: "addjob p st cmd s = (True, if verbose ?s
      then printf (''Added job ['' @ show_int (j_jid ?j) @ ''] '' @ show_int (j_pid ?j) @ '' '' @ cmd @ [CHR 0x0A]) ?s
      else ?s)" (is "_ = (True, ?s')")
    using p unfolding addjob_def Some by (simp add: Let_def j)
  have js: "jobs ?s' = (jobs s)[i := ?j]" "nextjid ?s' = nextjid ?s" by simp_all
  have "mset (live_jobs ?s') = add_mset ?j (mset (live_jobs s))"
    unfolding live_jobs_def js(1) using i p by (intro live_update_empty) (simp_all add: new_job_def)
  moreover have "length (live_jobs s) < MAXJOBS"
    using length_filter_less [of "jobs s ! i" "jobs s" "\<lambda>j. j_pid j \<noteq> 0"] i ok
    by (simp add: live_jobs_def jobs_ok_def)
  moreover have "set (jobs ?s') \<subseteq> insert ?j (set (jobs s))" unfolding js by (rule set_update_subset_insert)
  moreover have "length (jobs ?s') = MAXJOBS" "0 < nextjid ?s'" using ok unfolding js by (simp_all add: jobs_ok_def)
  ultimately show ?thesis using a by blast
qed

lemma mset_live_distinct:
  "mset (live_jobs s') = add_mset j (mset (live_jobs s)) \<Longrightarrow>
    distinct (map j_pid (live_jobs s')) \<longleftrightarrow> j_pid j \<notin> j_pid ` set (live_jobs s) \<and> distinct (map j_pid (live_jobs s))"
proof -
  assume "mset (live_jobs s') = add_mset j (mset (live_jobs s))"
  then have "mset (map j_pid (live_jobs s')) = mset (map j_pid (j # live_jobs s))" by simp
  then have "distinct (map j_pid (live_jobs s')) = distinct (map j_pid (j # live_jobs s))"
    by (rule mset_eq_imp_distinct_iff)
  then show ?thesis by simp
qed

lemma live_set: "jobs_ok s \<Longrightarrow> 0 < p \<Longrightarrow> (j \<in> set (jobs s) \<and> j_pid j = p) \<longleftrightarrow> (j \<in> set (live_jobs s) \<and> j_pid j = p)"
  by (auto simp: live_jobs_def)

lemma addjob_ok:
  assumes ok: "jobs_ok s" and p: "job_of s p = None" "st \<noteq> UNDEF" and a: "addjob p st cmd s = (b, s')"
  shows "jobs_ok s'"
proof (cases "0 < p")
  case False
  with a ok show ?thesis by (simp add: addjob_def)
next
  case True
  have fresh: "p \<notin> j_pid ` set (live_jobs s)" using p True job_of_None [OF ok, of p] by (auto simp: live_jobs_def)
  from addjob_cases [OF ok True, of st cmd] show ?thesis
  proof (elim disjE exE conjE)
    fix s'' assume b: "addjob p st cmd s = (True, s'')" "length (jobs s'') = MAXJOBS" "0 < nextjid s''"
      "set (jobs s'') \<subseteq> insert (new_job p st cmd s) (set (jobs s))"
      "mset (live_jobs s'') = add_mset (new_job p st cmd s) (mset (live_jobs s))"
    have "s'' = s'" using a b(1) by simp
    moreover have "distinct (map j_pid (live_jobs s''))"
      using mset_live_distinct [OF b(5)] fresh ok by (simp add: new_job_def jobs_ok_def)
    moreover have "0 < nextjid s" using ok by (simp add: jobs_ok_def)
    ultimately show ?thesis
      using b(2-4) ok True p(2) by (auto simp: jobs_ok_def new_job_def)
  next
    fix s'' assume "addjob p st cmd s = (False, s'')" "jobs s'' = jobs s" "nextjid s'' = nextjid s"
    with a ok show ?thesis by (simp add: jobs_ok_def live_jobs_def)
  qed
qed

text \<open>A lookup after an addition.\<close>

lemma job_of_addjob:
  assumes ok: "jobs_ok s" and p: "job_of s p = None" "st \<noteq> UNDEF" and a: "addjob p st cmd s = (b, s')"
  shows "job_of s' q = (if b \<and> q = p then Some (new_job p st cmd s) else job_of s q)"
    and "b \<longleftrightarrow> 0 < p \<and> length (live_jobs s) < MAXJOBS"
proof -
  note ok' = addjob_ok [OF ok p a]
  have "job_of s' q = (if b \<and> q = p then Some (new_job p st cmd s) else job_of s q) \<and>
     (b \<longleftrightarrow> 0 < p \<and> length (live_jobs s) < MAXJOBS)"
  proof (cases "0 < p")
    case False
    with a show ?thesis by (auto simp: addjob_def)
  next
    case True
    from addjob_cases [OF ok True, of st cmd] show ?thesis
    proof (elim disjE exE conjE)
      fix s'' assume b: "addjob p st cmd s = (True, s'')"
        "mset (live_jobs s'') = add_mset (new_job p st cmd s) (mset (live_jobs s))" "length (live_jobs s) < MAXJOBS"
      have s: "s'' = s'" "b" using a b(1) by simp_all
      have set: "set (live_jobs s') = insert (new_job p st cmd s) (set (live_jobs s))"
        using arg_cong [OF b(2), of set_mset] s(1) by simp
      have fresh: "\<forall>j \<in> set (live_jobs s). j_pid j \<noteq> p"
        using p(1) True job_of_None [OF ok, of p] by (auto simp: live_jobs_def)
      have "job_of s' q = Some j \<longleftrightarrow> (if q = p then Some (new_job p st cmd s) else job_of s q) = Some j" for j
        unfolding job_of_Some [OF ok']
      proof (cases "q = p")
        case True
        then show "(j \<in> set (jobs s') \<and> j_pid j = q \<and> 0 < q) =
            ((if q = p then Some (new_job p st cmd s) else job_of s q) = Some j)"
          using live_set [OF ok', of q j] set \<open>0 < p\<close> fresh by (auto simp: new_job_def)
      next
        case False
        then show "(j \<in> set (jobs s') \<and> j_pid j = q \<and> 0 < q) =
            ((if q = p then Some (new_job p st cmd s) else job_of s q) = Some j)"
          using live_set [OF ok', of q j] live_set [OF ok, of q j] set
          by (auto simp: new_job_def job_of_Some [OF ok])
      qed
      then have "job_of s' q = (if q = p then Some (new_job p st cmd s) else job_of s q)"
        by (metis option.exhaust)
      with s b(3) True show ?thesis by simp
    next
      fix s'' assume "addjob p st cmd s = (False, s'')" "jobs s'' = jobs s" "length (live_jobs s) = MAXJOBS"
      with a True show ?thesis by (auto simp: job_of_def getjobpid_def)
    qed
  qed
  then show "job_of s' q = (if b \<and> q = p then Some (new_job p st cmd s) else job_of s q)"
    and "b \<longleftrightarrow> 0 < p \<and> length (live_jobs s) < MAXJOBS" by simp_all
qed

text \<open>Deletion.\<close>

lemma deletejob_cases:
  assumes ok: "jobs_ok s" and d: "deletejob p s = (b, s')"
  shows "b \<longleftrightarrow> job_of s p \<noteq> None"
    and "\<not> b \<Longrightarrow> s' = s"
    and "b \<Longrightarrow> jobs_ok s' \<and> (\<forall>j. j \<in> set (live_jobs s') \<longleftrightarrow> j \<in> set (live_jobs s) \<and> j_pid j \<noteq> p) \<and>
      nextjid s' = maxjid (jobs s') + 1 \<and> length (live_jobs s') + 1 = length (live_jobs s)"
proof -
  have "(b \<longleftrightarrow> job_of s p \<noteq> None) \<and> (\<not> b \<longrightarrow> s' = s) \<and> (b \<longrightarrow> jobs_ok s' \<and>
      (\<forall>j. j \<in> set (live_jobs s') \<longleftrightarrow> j \<in> set (live_jobs s) \<and> j_pid j \<noteq> p) \<and>
      nextjid s' = maxjid (jobs s') + 1 \<and> length (live_jobs s') + 1 = length (live_jobs s))"
  proof (cases "p < 1")
    case True
    with d show ?thesis by (auto simp: deletejob_def job_of_def getjobpid_def)
  next
    case p: False
    show ?thesis
    proof (cases "first_slot (\<lambda>j. j_pid j = p) (jobs s)")
      case None
      with d p show ?thesis by (auto simp: deletejob_def job_of_def getjobpid_def)
    next
      case (Some i)
      note i = first_slot_SomeD [OF Some]
      let ?js = "(jobs s)[i := clearjob (jobs s ! i)]"
      have s': "b" "s' = s\<lparr>jobs := ?js, nextjid := maxjid ?js + 1\<rparr>"
        using d p by (simp_all add: deletejob_def Some Let_def)
      have ms: "mset (live_jobs s') = mset (live_jobs s) - {#jobs s ! i#}"
        using live_update_live [OF i(1), of "clearjob (jobs s ! i)"] i(2) p
        by (simp only: live_jobs_def s'(2) tsh.simps) (simp add: clearjob_def)
      have mem: "jobs s ! i \<in> set (live_jobs s)" using i p by (simp add: live_jobs_def)
      have dist: "distinct (map j_pid (live_jobs s))" using ok by (simp add: jobs_ok_def)
      then have dl: "distinct (live_jobs s)" by (simp add: distinct_map)
      have set: "j \<in> set (live_jobs s') \<longleftrightarrow> j \<in> set (live_jobs s) \<and> j_pid j \<noteq> p" for j
      proof -
        have "j \<in> set (live_jobs s') \<longleftrightarrow> j \<in># mset (live_jobs s) - {#jobs s ! i#}" using ms by (metis set_mset_mset)
        also have "\<dots> \<longleftrightarrow> j \<in> set (live_jobs s) \<and> j \<noteq> jobs s ! i"
          using dl by (metis mset_remove1 set_mset_mset set_remove1_eq Diff_iff singleton_iff)
        also have "\<dots> \<longleftrightarrow> j \<in> set (live_jobs s) \<and> j_pid j \<noteq> p"
          using dist mem i(2) by (auto simp: distinct_map inj_on_def)
        finally show ?thesis .
      qed
      have "mset (live_jobs s') = mset (remove1 (jobs s ! i) (live_jobs s))" using ms by simp
      then have "mset (map j_pid (live_jobs s')) = mset (map j_pid (remove1 (jobs s ! i) (live_jobs s)))" by simp
      then have "distinct (map j_pid (live_jobs s')) = distinct (map j_pid (remove1 (jobs s ! i) (live_jobs s)))"
        by (rule mset_eq_imp_distinct_iff)
      moreover have "distinct (map j_pid (remove1 (jobs s ! i) (live_jobs s)))"
        using dist by (auto simp: distinct_map intro: inj_on_diff)
      ultimately have dist': "distinct (map j_pid (live_jobs s'))" by simp
      have "length (live_jobs s') = length (live_jobs s) - 1"
        using arg_cong [OF ms, of size] mem by (simp add: size_Diff_singleton)
      then have len: "length (live_jobs s') + 1 = length (live_jobs s)" using mem by (cases "live_jobs s") auto
      have max: "0 \<le> maxjid js" for js
      proof -
        have "m \<le> foldl (\<lambda>m j. if j_jid j > m then j_jid j else m) m js" for m
          by (induction js arbitrary: m) (auto intro: order_trans [OF less_imp_le])
        then show ?thesis by (simp add: maxjid_def)
      qed
      have sub: "set ?js \<subseteq> insert (clearjob (jobs s ! i)) (set (jobs s))" by (rule set_update_subset_insert)
      have "jobs_ok s'"
        unfolding jobs_ok_def
      proof (intro conjI ballI)
        show "length (jobs s') = MAXJOBS" using ok by (simp add: s' jobs_ok_def)
        show "0 < nextjid s'" using max [of ?js] by (simp add: s')
        show "distinct (map j_pid (live_jobs s'))" by (rule dist')
        fix j assume "j \<in> set (jobs s')"
        then have "j \<in> set ?js" by (simp add: s'(2))
        with sub have "j = clearjob (jobs s ! i) \<or> j \<in> set (jobs s)" by blast
        then show "empty_slot j \<or> 0 < j_pid j \<and> 0 < j_jid j \<and> j_state j \<noteq> UNDEF" using ok by (auto simp: jobs_ok_def)
      qed
      moreover have "job_of s p \<noteq> None" using p Some by (simp add: job_of_def getjobpid_def)
      ultimately show ?thesis using s' set len by simp
    qed
  qed
  then show "b \<longleftrightarrow> job_of s p \<noteq> None" "\<not> b \<Longrightarrow> s' = s"
    "b \<Longrightarrow> jobs_ok s' \<and> (\<forall>j. j \<in> set (live_jobs s') \<longleftrightarrow> j \<in> set (live_jobs s) \<and> j_pid j \<noteq> p) \<and>
      nextjid s' = maxjid (jobs s') + 1 \<and> length (live_jobs s') + 1 = length (live_jobs s)" by blast+
qed

lemma job_of_deletejob:
  assumes ok: "jobs_ok s" and d: "deletejob p s = (b, s')"
  shows "job_of s' q = (if q = p then None else job_of s q)" "jobs_ok s'"
proof -
  have "jobs_ok s' \<and> job_of s' q = (if q = p then None else job_of s q)"
  proof (cases b)
    case True
    note D = deletejob_cases(3) [OF ok d True]
    have "job_of s' q = Some j \<longleftrightarrow> (if q = p then None else job_of s q) = Some j" for j
    proof (cases "0 < q")
      case True
      with D live_set [of s' q j] live_set [OF ok, of q j] show ?thesis
        by (auto simp: job_of_Some [OF ok] job_of_Some [OF conjunct1 [OF D]])
    qed (simp add: job_of_def getjobpid_def)
    then have "job_of s' q = (if q = p then None else job_of s q)" by (metis option.exhaust)
    with D show ?thesis by simp
  next
    case False
    with deletejob_cases(1,2) [OF ok d] ok show ?thesis by auto
  qed
  then show "job_of s' q = (if q = p then None else job_of s q)" "jobs_ok s'" by simp_all
qed

subsection \<open>The table as an interface\<close>

text \<open>What the shell relies on: a table with an invariant and a lookup by process id, where an
  addition and a deletion change the entry of one process only.\<close>

locale pid_table =
  fixes ok :: "'s \<Rightarrow> bool"
    and find :: "'s \<Rightarrow> int \<Rightarrow> job_t option"
    and add :: "int \<Rightarrow> job_state \<Rightarrow> string \<Rightarrow> 's \<Rightarrow> bool \<times> 's"
    and del :: "int \<Rightarrow> 's \<Rightarrow> bool \<times> 's"
  assumes add_ok: "ok s \<Longrightarrow> find s p = None \<Longrightarrow> st \<noteq> UNDEF \<Longrightarrow> ok (snd (add p st c s))"
    and del_ok: "ok s \<Longrightarrow> ok (snd (del p s))"
    and add_other: "ok s \<Longrightarrow> find s p = None \<Longrightarrow> st \<noteq> UNDEF \<Longrightarrow> q \<noteq> p \<Longrightarrow> find (snd (add p st c s)) q = find s q"
    and add_same: "ok s \<Longrightarrow> find s p = None \<Longrightarrow> st \<noteq> UNDEF \<Longrightarrow> fst (add p st c s) \<Longrightarrow>
      \<exists>j. find (snd (add p st c s)) p = Some j \<and> j_pid j = p \<and> j_state j = st \<and> j_cmdline j = c"
    and add_full: "ok s \<Longrightarrow> find s p = None \<Longrightarrow> st \<noteq> UNDEF \<Longrightarrow> \<not> fst (add p st c s) \<Longrightarrow> find (snd (add p st c s)) p = None"
    and del_other: "ok s \<Longrightarrow> q \<noteq> p \<Longrightarrow> find (snd (del p s)) q = find s q"
    and del_same: "ok s \<Longrightarrow> find (snd (del p s)) p = None"

datatype job_op = AddJob int job_state string | DelJob int

context pid_table
begin

text \<open>A script of operations; an addition is only asked for a process that is not in the table, as
  \<^verbatim>\<open>fork\<close> guarantees.\<close>

fun run_op :: "job_op \<Rightarrow> 's \<Rightarrow> 's" where
  "run_op (AddJob p st c) s = (if find s p = None \<and> st \<noteq> UNDEF then snd (add p st c s) else s)"
| "run_op (DelJob p) s = snd (del p s)"

fun op_pid :: "job_op \<Rightarrow> int" where
  "op_pid (AddJob p st c) = p"
| "op_pid (DelJob p) = p"

lemma run_ok: "ok s \<Longrightarrow> ok (fold run_op ops s)"
proof (induction ops arbitrary: s)
  case (Cons op ops)
  then show ?case by (cases op) (auto simp: add_ok del_ok)
qed simp

lemma run_other: "ok s \<Longrightarrow> p \<notin> op_pid ` set ops \<Longrightarrow> find (fold run_op ops s) p = find s p"
proof (induction ops arbitrary: s)
  case (Cons op ops)
  have "find (run_op op s) p = find s p"
    using Cons.prems add_other [of s "op_pid op"] del_other [of s p "op_pid op"] by (cases op) auto
  moreover have "ok (run_op op s)" using run_ok [of s "[op]"] Cons.prems by simp
  ultimately show ?case using Cons by simp
qed simp

text \<open>A job that was added is found until it is deleted; a deleted one is not.\<close>

lemma added_stays:
  assumes "ok s" "find s p = None" "st \<noteq> UNDEF" "fst (add p st c s)" "p \<notin> op_pid ` set ops"
  shows "\<exists>j. find (fold run_op ops (snd (add p st c s))) p = Some j \<and> j_pid j = p \<and> j_state j = st \<and> j_cmdline j = c"
  using run_other [OF add_ok [OF assms(1-3)] assms(5), of c] add_same [OF assms(1-4)] by simp

lemma deleted_gone:
  assumes "ok s" "p \<notin> op_pid ` set ops"
  shows "find (fold run_op ops (snd (del p s))) p = None"
  using run_other [OF del_ok [OF assms(1)] assms(2)] del_same [OF assms(1)] by simp

end

interpretation jt: pid_table jobs_ok job_of addjob deletejob
proof
  fix s p st c q assume a: "jobs_ok s" "job_of s p = None" "st \<noteq> UNDEF"
  obtain b s' where e: "addjob p st c s = (b, s')" by fastforce
  note J = job_of_addjob [OF a e]
  show "jobs_ok (snd (addjob p st c s))" using addjob_ok [OF a e] by (simp add: e)
  show "job_of (snd (addjob p st c s)) q = job_of s q" if "q \<noteq> p" using J(1) that by (simp add: e)
  show "\<exists>j. job_of (snd (addjob p st c s)) p = Some j \<and> j_pid j = p \<and> j_state j = st \<and> j_cmdline j = c"
    if "fst (addjob p st c s)" using J(1) that by (simp add: e new_job_def)
  show "job_of (snd (addjob p st c s)) p = None" if "\<not> fst (addjob p st c s)" using J(1) that a(2) by (simp add: e)
next
  fix s p q assume a: "jobs_ok s"
  obtain b s' where e: "deletejob p s = (b, s')" by fastforce
  note J = job_of_deletejob [OF a e]
  show "jobs_ok (snd (deletejob p s))" "job_of (snd (deletejob p s)) p = None" using J by (simp_all add: e)
  show "job_of (snd (deletejob p s)) q = job_of s q" if "q \<noteq> p" using J(1) that by (simp add: e)
qed

end
