(* ===== verification/Parseline.thy ===== *)
theory Parseline
  imports Prelude
begin

text \<open>
  The command-line tokeniser of the shell (\<^verbatim>\<open>parseline\<close> in \<^verbatim>\<open>shelllab/tsh.c\<close>). A C string is a list of
  characters without its final NUL; \<open>split_at\<close> is \<^verbatim>\<open>strchr\<close> followed by the overwrite of the
  delimiter. Accesses outside a C array are the error \<open>OutOfBounds\<close>.
\<close>

datatype bounds_error = OutOfBounds

definition MAXLINE :: nat where "MAXLINE = 1024"
definition MAXARGS :: nat where "MAXARGS = 128"

abbreviation quote_char :: char where "quote_char \<equiv> CHR 0x27"
abbreviation newline :: char where "newline \<equiv> CHR 0x0A"

fun split_at :: "char \<Rightarrow> string \<Rightarrow> (string \<times> string) option" where
  "split_at d [] = None"
| "split_at d (c # cs) =
     (if c = d then Some ([], cs) else map_option (\<lambda>(tok, rest). (c # tok, rest)) (split_at d cs))"

definition skip_spaces :: "string \<Rightarrow> string" where
  "skip_spaces = dropWhile (\<lambda>c. c = CHR '' '')"

definition next_token :: "string \<Rightarrow> (string \<times> string) option" where
  "next_token buf =
     (case buf of
        [] \<Rightarrow> None
      | c # cs \<Rightarrow> if c = quote_char then split_at quote_char cs else split_at (CHR '' '') buf)"

lemma split_at_length: "split_at d cs = Some (tok, rest) \<Longrightarrow> length rest < length cs"
  by (induction cs arbitrary: tok) (auto split: if_splits intro: less_SucI)

lemma next_token_length: "next_token buf = Some (tok, rest) \<Longrightarrow> length (skip_spaces rest) < length buf"
proof -
  assume "next_token buf = Some (tok, rest)"
  then have "length rest < length buf"
    by (auto simp: next_token_def dest!: split_at_length split: list.splits if_splits)
  moreover have "length (skip_spaces rest) \<le> length rest" by (simp add: skip_spaces_def length_dropWhile_le)
  ultimately show ?thesis by simp
qed

function parse_args :: "string \<Rightarrow> string list" where
  "parse_args buf =
     (case next_token buf of
        None \<Rightarrow> []
      | Some (tok, rest) \<Rightarrow> tok # parse_args (skip_spaces rest))"
  by pat_completeness auto
termination
  by (relation "measure length") (auto dest: next_token_length)

declare parse_args.simps [simp del]

definition parseline :: "string \<Rightarrow> bounds_error + (bool \<times> string list)" where
  "parseline cmdline =
     (if cmdline = [] \<or> length cmdline \<ge> MAXLINE then Inl OutOfBounds
      else
        let buf = skip_spaces (butlast cmdline @ '' '');
            argv = parse_args buf
        in if length argv \<ge> MAXARGS then Inl OutOfBounds
           else if argv = [] then Inr (True, [])
           else if last argv \<noteq> [] \<and> hd (last argv) = CHR ''&'' then Inr (True, butlast argv)
           else Inr (False, argv))"

subsection \<open>Round trip\<close>

text \<open>How a user writes an argument: in quotes when it is empty or holds a space.\<close>

definition render :: "string \<Rightarrow> string" where
  "render w = (if w = [] \<or> CHR '' '' \<in> set w then quote_char # w @ [quote_char] else w)"

definition words_line :: "string list \<Rightarrow> string" where
  "words_line ws = concat (map (\<lambda>w. render w @ '' '') ws)"

definition command_line :: "string list \<Rightarrow> string" where
  "command_line ws = butlast (words_line ws) @ [newline]"

lemma split_at_first: "d \<notin> set tok \<Longrightarrow> split_at d (tok @ d # rest) = Some (tok, rest)"
  by (induction tok) auto

lemma skip_space [simp]: "skip_spaces (CHR '' '' # r) = skip_spaces r"
  by (simp add: skip_spaces_def)

lemma skip_other: "c \<noteq> CHR '' '' \<Longrightarrow> skip_spaces (c # r) = c # r"
  by (simp add: skip_spaces_def)

lemma parse_render:
  assumes "quote_char \<notin> set w"
  shows "parse_args (skip_spaces (render w @ CHR '' '' # r)) = w # parse_args (skip_spaces r)"
proof (cases "w = [] \<or> CHR '' '' \<in> set w")
  case True
  then have "skip_spaces (render w @ CHR '' '' # r) = quote_char # w @ quote_char # CHR '' '' # r"
    by (simp add: render_def skip_other)
  moreover have "next_token (quote_char # w @ quote_char # CHR '' '' # r) = Some (w, CHR '' '' # r)"
    using split_at_first [OF assms] by (simp add: next_token_def)
  ultimately show ?thesis by (simp add: parse_args.simps [of "quote_char # w @ quote_char # CHR '' '' # r"])
next
  case False
  then obtain c cs where w: "w = c # cs" "c \<noteq> CHR '' ''" "c \<noteq> quote_char" using assms by (cases w) auto
  then have "skip_spaces (render w @ CHR '' '' # r) = w @ CHR '' '' # r"
    using False by (simp add: render_def skip_other)
  moreover have "next_token (w @ CHR '' '' # r) = Some (w, r)"
    using split_at_first [of "CHR '' ''" w r] False w by (simp add: next_token_def)
  ultimately show ?thesis by (simp add: parse_args.simps [of "w @ CHR '' '' # r"])
qed

lemma parse_words:
  "\<forall>w \<in> set ws. quote_char \<notin> set w \<Longrightarrow> parse_args (skip_spaces (words_line ws)) = ws"
proof (induction ws)
  case Nil
  show ?case by (simp add: words_line_def skip_spaces_def parse_args.simps [of "[]"] next_token_def)
next
  case (Cons w ws)
  have "words_line (w # ws) = render w @ CHR '' '' # words_line ws" by (simp add: words_line_def)
  with Cons parse_render [of w "words_line ws"] show ?case by simp
qed

lemma words_line_last: "ws \<noteq> [] \<Longrightarrow> words_line ws \<noteq> [] \<and> last (words_line ws) = CHR '' ''"
  by (induction ws) (auto simp: words_line_def)

lemma command_line_buffer: "ws \<noteq> [] \<Longrightarrow> butlast (command_line ws) @ '' '' = words_line ws"
  using words_line_last [of ws] append_butlast_last_id [of "words_line ws"] by (simp add: command_line_def butlast_append)

end
