(* ===== verification/Shell.thy ===== *)
theory Shell
  imports Jobs Parseline
begin

text \<open>
  The shell itself (\<^verbatim>\<open>shelllab/tsh.c\<close>): \<open>eval\<close>, the built-in commands, \<open>waitfg\<close> and the signal
  handlers, on the state \<open>tsh\<close>. What the kernel answers is an input: the process id \<^verbatim>\<open>fork\<close>
  returns, whether a \<^verbatim>\<open>kill\<close> succeeds, what \<^verbatim>\<open>waitpid\<close> reports, and the sequence of
  signals that arrive while the shell waits. \<open>sent\<close> records every \<^verbatim>\<open>kill\<close>. The code indexes
  \<^verbatim>\<open>jobs\<close> with \<^verbatim>\<open>jid - 1\<close>; outside the sixteen slots that is the stop \<open>Fault\<close>.

  SIGCHLD is blocked from before \<^verbatim>\<open>fork\<close> until after \<^verbatim>\<open>addjob\<close>, so \<open>eval\<close> handles no
  event in between. \<^verbatim>\<open>strtol\<close> clamps what \<^verbatim>\<open>atoi\<close> reads, see \<open>atoi\<close>.
\<close>

datatype wstatus = WExited int | WSignaled int | WStopped int

datatype event = Sigchld "(int \<times> wstatus) list" | Sigint | Sigtstp | Sigquit

datatype stop =
    ShellExit int tsh
  | Fault            \<comment> \<open>an access outside an array\<close>
  | Waiting          \<comment> \<open>still in the busy loop when the events have run out\<close>

record os =
  fork_result :: int
  kill_ok :: "int \<Rightarrow> int \<Rightarrow> bool"
  exec_ok :: "string list \<Rightarrow> bool"

definition SIGINT :: int where "SIGINT = 2"
definition SIGCONT :: int where "SIGCONT = 18"
definition SIGTSTP :: int where "SIGTSTP = 20"

definition kill :: "os \<Rightarrow> int \<Rightarrow> int \<Rightarrow> tsh \<Rightarrow> bool \<times> tsh" where
  "kill os target sig s = (kill_ok os target sig, s\<lparr>sent := sent s @ [(target, sig)]\<rparr>)"

text \<open>\<^verbatim>\<open>jobs[jid-1]\<close>, and a store to its state.\<close>

definition job_at :: "int \<Rightarrow> tsh \<Rightarrow> stop + job_t" where
  "job_at jid s = (if 1 \<le> jid \<and> jid \<le> int (length (jobs s)) then Inr (jobs s ! nat (jid - 1)) else Inl Fault)"

definition set_state_at :: "int \<Rightarrow> job_state \<Rightarrow> tsh \<Rightarrow> stop + tsh" where
  "set_state_at jid st s =
     (if 1 \<le> jid \<and> jid \<le> int (length (jobs s))
      then Inr (s\<lparr>jobs := (jobs s)[nat (jid - 1) := (jobs s ! nat (jid - 1))\<lparr>j_state := st\<rparr>]\<rparr>)
      else Inl Fault)"

subsection \<open>Signal handlers\<close>

text \<open>The loop of \<open>sigchld_handler\<close> over what \<^verbatim>\<open>waitpid\<close> reports, up to its first result that is not
  a process.\<close>

fun reap_loop :: "int \<Rightarrow> (int \<times> wstatus) list \<Rightarrow> tsh \<Rightarrow> stop + tsh" where
  "reap_loop foregroundPid [] s = Inr s"
| "reap_loop foregroundPid ((p, status) # rest) s =
     (if p \<le> 0 then Inr s
      else
        let jid = pid2jid s p in
        and_then (job_at jid s) (\<lambda>j.
          let s = (if j_state j = FG then s\<lparr>getIntOrStp := True\<rparr> else s) in
          and_then
            (case status of
               WStopped sig \<Rightarrow>
                 set_state_at jid ST
                   (printf (''Job ['' @ show_int (pid2jid s p) @ ''] ('' @ show_int p @ '') stopped by signal ''
                      @ show_int sig @ [newline]) s)
             | WSignaled sig \<Rightarrow>
                 Inr (snd (deletejob foregroundPid
                   (printf (''Job ['' @ show_int (pid2jid s p) @ ''] ('' @ show_int p @ '') terminated by signal ''
                      @ show_int SIGINT @ [newline]) s)))
             | WExited c \<Rightarrow> Inr (snd (deletejob foregroundPid s)))
            (reap_loop foregroundPid rest)))"

definition sigchld_handler :: "(int \<times> wstatus) list \<Rightarrow> tsh \<Rightarrow> stop + tsh" where
  "sigchld_handler reports s = reap_loop (fgpid s) reports (s\<lparr>getIntOrStp := False\<rparr>)"

definition esc :: string where "esc = [CHR 0x1B]"

definition sigint_handler :: "os \<Rightarrow> tsh \<Rightarrow> stop + tsh" where
  "sigint_handler os s =
     (let p = fgpid s;
          (ok, s) = kill os (- p) SIGINT s
      in if \<not> ok
         then Inr (printf (esc @ ''[0;32;31mkill ('' @ show_int p @ '') error in SIGINT'' @ esc @ ''[0m'' @ [newline]) s)
         else Inr s)"

definition sigtstp_handler :: "os \<Rightarrow> tsh \<Rightarrow> stop + tsh" where
  "sigtstp_handler os s =
     (let p = fgpid s;
          (ok, s) = kill os (- p) SIGTSTP s
      in if \<not> ok
         then Inr (printf (esc @ ''[0;32;31mkill error in SIGSTSP'' @ esc @ ''[0m'' @ [newline]) s)
         else and_then (set_state_at (pid2jid s p) ST s) (\<lambda>s. Inr (s\<lparr>getIntOrStp := True\<rparr>)))"

definition sigquit_handler :: "tsh \<Rightarrow> stop + tsh" where
  "sigquit_handler s =
     Inl (ShellExit 1 (printf (''Terminating after receipt of SIGQUIT signal'' @ [newline]) s))"

fun handle :: "os \<Rightarrow> event \<Rightarrow> tsh \<Rightarrow> stop + tsh" where
  "handle os (Sigchld reports) s = sigchld_handler reports s"
| "handle os Sigint s = sigint_handler os s"
| "handle os Sigtstp s = sigtstp_handler os s"
| "handle os Sigquit s = sigquit_handler s"

subsection \<open>Waiting for the foreground job\<close>

text \<open>Every turn of the busy loop lets one pending signal in.\<close>

fun wait_loop :: "os \<Rightarrow> int \<Rightarrow> event list \<Rightarrow> tsh \<Rightarrow> stop + (event list \<times> tsh)" where
  "wait_loop os p [] s = (if p = fgpid s then Inl Waiting else Inr ([], s))"
| "wait_loop os p (e # es) s =
     (if p = fgpid s then and_then (handle os e s) (wait_loop os p es) else Inr (e # es, s))"

definition waitfg :: "os \<Rightarrow> int \<Rightarrow> event list \<Rightarrow> tsh \<Rightarrow> stop + (event list \<times> tsh)" where
  "waitfg os p es s = wait_loop os p es (s\<lparr>getIntOrStp := False\<rparr>)"

subsection \<open>Built-in commands\<close>

text \<open>The job a \<open>bg\<close>/\<open>fg\<close> argument names: its \<^verbatim>\<open>jid\<close> and \<^verbatim>\<open>pid\<close>, or the message printed. The first
  character of an empty argument is the NUL that ends it.\<close>

definition first_char :: "string \<Rightarrow> char" where
  "first_char w = (case w of [] \<Rightarrow> CHR 0x00 | c # _ \<Rightarrow> c)"

definition bgfg_target :: "string \<Rightarrow> string \<Rightarrow> tsh \<Rightarrow> stop + (string + int \<times> int)" where
  "bgfg_target cmd arg s =
     (if first_char arg \<noteq> CHR ''%'' \<and> (first_char arg > CHR ''9'' \<or> first_char arg < CHR ''0'')
      then Inr (Inl (cmd @ '': argument must be a pid or %jobid'' @ [newline]))
      else if first_char arg = CHR ''%'' then
        let jid = atoi (tl arg) in
        case getjobjid s jid of
          None \<Rightarrow> Inr (Inl (arg @ '': No such job'' @ [newline]))
        | Some _ \<Rightarrow> and_then (job_at jid s) (\<lambda>j. Inr (Inr (jid, j_pid j)))
      else
        let str = takeWhile is_digit arg;
            p = atoi str
        in case getjobpid s p of
             None \<Rightarrow> Inr (Inl (''('' @ str @ ''): No such process'' @ [newline]))
           | Some _ \<Rightarrow> Inr (Inr (pid2jid s p, p)))"

definition do_bgfg :: "os \<Rightarrow> event list \<Rightarrow> string list \<Rightarrow> tsh \<Rightarrow> stop + (event list \<times> tsh)" where
  "do_bgfg os es argv s =
     (case argv of
        [cmd] \<Rightarrow> Inr (es, printf (cmd @ '' command requires PID or %jobid argument'' @ [newline]) s)
      | cmd # arg # _ \<Rightarrow>
          and_then (bgfg_target cmd arg s) (\<lambda>t.
            case t of
              Inl msg \<Rightarrow> Inr (es, printf msg s)
            | Inr (jid, p) \<Rightarrow>
                if cmd = ''bg'' then
                  let (ok, s) = kill os (- p) SIGCONT s in
                  if \<not> ok
                  then Inr (es, printf (esc @ ''[0;32;31mkill error in SIGCONT to bg'' @ esc @ ''[0m'' @ [newline]) s)
                  else and_then (set_state_at jid BG s) (\<lambda>s.
                       and_then (job_at jid s) (\<lambda>j.
                         Inr (es, printf (''['' @ show_int jid @ ''] ('' @ show_int p @ '') '' @ j_cmdline j) s)))
                else
                  let (ok, s) = kill os (- p) SIGCONT s in
                  if \<not> ok
                  then Inr (es, printf (esc @ ''[0;32;31mkill error in SIGCONT to fg'' @ esc @ ''[0m'' @ [newline]) s)
                  else and_then (set_state_at jid FG s) (waitfg os p es))
      | [] \<Rightarrow> Inl Fault)"

text \<open>\<open>None\<close> is the result 0, "not a built-in command".\<close>

definition builtin_cmd :: "os \<Rightarrow> event list \<Rightarrow> string list \<Rightarrow> tsh \<Rightarrow> (stop + (event list \<times> tsh)) option" where
  "builtin_cmd os es argv s =
     (if hd argv = ''quit'' then Some (Inl (ShellExit 0 s))
      else if hd argv = ''jobs'' then Some (Inr (es, listjobs s))
      else if hd argv = ''bg'' \<or> hd argv = ''fg'' then Some (do_bgfg os es argv s)
      else None)"

subsection \<open>Evaluating a command line\<close>

text \<open>The child between \<^verbatim>\<open>fork\<close> and \<^verbatim>\<open>execve\<close>: what it prints before it exits when the program
  cannot be run.\<close>

definition child_output :: "os \<Rightarrow> string list \<Rightarrow> string option" where
  "child_output os argv = (if exec_ok os argv then None else Some (hd argv @ '': Command not found'' @ [newline]))"

definition eval :: "os \<Rightarrow> event list \<Rightarrow> string \<Rightarrow> tsh \<Rightarrow> stop + (event list \<times> tsh)" where
  "eval os es cmdline s =
     (case parseline cmdline of
        Inl _ \<Rightarrow> Inl Fault
      | Inr (fOrb, argv) \<Rightarrow>
          if argv = [] then Inr (es, s)
          else case builtin_cmd os es argv s of
            Some r \<Rightarrow> r
          | None \<Rightarrow>
              let p = fork_result os in
              if fOrb then
                let s = snd (addjob p BG cmdline s);
                    jid = pid2jid s p
                in Inr (es, printf (''['' @ show_int jid @ ''] ('' @ show_int p @ '') '' @ cmdline) s)
              else
                let s = snd (addjob p FG cmdline s)
                in waitfg os p es s)"

text \<open>The read/eval loop of \<^verbatim>\<open>main\<close>: a prompt unless it is switched off, a line, its evaluation;
  end of file exits. Each line comes with the kernel's answers and the signals that arrive from its
  evaluation on; those that the evaluation has not waited for are handled before the next line.\<close>

fun deliver :: "os \<Rightarrow> event list \<Rightarrow> tsh \<Rightarrow> stop + tsh" where
  "deliver os [] s = Inr s"
| "deliver os (e # es) s = and_then (handle os e s) (deliver os es)"

fun main_loop :: "bool \<Rightarrow> (os \<times> event list \<times> string) list \<Rightarrow> tsh \<Rightarrow> stop + tsh" where
  "main_loop emit_prompt [] s = Inl (ShellExit 0 (if emit_prompt then printf ''tsh> '' s else s))"
| "main_loop emit_prompt ((os, es, cmdline) # rest) s =
     (let s = (if emit_prompt then printf ''tsh> '' s else s) in
      and_then (eval os es cmdline s) (\<lambda>(es, s).
        and_then (deliver os es s) (main_loop emit_prompt rest)))"

end
