(* ===== verification/ShellProps.thy ===== *)
theory ShellProps
  imports Shell
begin

text \<open>
  What the shell's components guarantee: the job table keeps every entry until it is deleted, the
  tokeniser inverts the way arguments are written, \<open>waitfg\<close> ends when the foreground job does,
  \<open>bg\<close> and \<open>fg\<close> act on the named job as long as slots and job ids agree. The cases in which
  the code does something else (a background child that ends, a reused slot, no foreground job,
  a long argument list) are stated too.
\<close>

definition no_job :: job_t where
  "no_job = \<lparr>j_pid = 0, j_jid = 0, j_state = UNDEF, j_cmdline = ''''\<rparr>"

definition tsh0 :: tsh where
  "tsh0 = \<lparr>jobs = replicate MAXJOBS no_job, nextjid = 1, verbose = False, getIntOrStp = False, out = '''', sent = []\<rparr>"

lemma tsh0_fields: "nextjid tsh0 = 1" "verbose tsh0 = False" "out tsh0 = ''''" "sent tsh0 = []"
  by (simp_all add: tsh0_def)

lemma tsh0_ok: "jobs_ok tsh0"
  by (auto simp: jobs_ok_def tsh0_def live_jobs_def no_job_def empty_slot_def)

lemma tsh0_empty: "job_of tsh0 p = None"
  using job_of_None [OF tsh0_ok, of p] by (auto simp: tsh0_def no_job_def)

subsection \<open>The job table\<close>

text \<open>A job that \<^verbatim>\<open>addjob\<close> accepted is found by its process id, with its state and command line,
  through any later sequence of additions and deletions of other processes.\<close>

lemma added_job_stays:
  assumes "jobs_ok s" "job_of s p = None" "st \<noteq> UNDEF" "fst (addjob p st c s)" "p \<notin> jt.op_pid ` set ops"
  shows "\<exists>j. job_of (fold jt.run_op ops (snd (addjob p st c s))) p = Some j \<and>
    j_pid j = p \<and> j_state j = st \<and> j_cmdline j = c"
  using assms by (rule jt.added_stays)

lemma tsh0_add: "0 < p \<Longrightarrow> fst (addjob p BG c tsh0)"
proof -
  assume p: "0 < p"
  obtain b s' where e: "addjob p BG c tsh0 = (b, s')" by fastforce
  have "length (live_jobs tsh0) < MAXJOBS" by (simp add: live_jobs_def tsh0_def no_job_def MAXJOBS_def)
  with job_of_addjob(2) [OF tsh0_ok tsh0_empty _ e] p e show ?thesis by simp
qed

lemma added_job_stays_witness:
  "\<exists>j. job_of (fold jt.run_op [AddJob 200 FG ''fg'', DelJob 200] (snd (addjob 100 BG ''bg'' tsh0))) 100 = Some j \<and>
    j_state j = BG"
  using added_job_stays [OF tsh0_ok tsh0_empty, of BG 100 "''bg''" "[AddJob 200 FG ''fg'', DelJob 200]"]
    tsh0_add [of 100] by auto

text \<open>C9. \<^verbatim>\<open>addjob\<close> of a process that is not in the table succeeds exactly when the process id is
  positive and one of the sixteen slots is free; it keeps the table well formed, with distinct
  process ids, and changes no other process's entry. \<^verbatim>\<open>deletejob\<close> removes exactly the entry of its
  process.\<close>

theorem job_table_correct:
  assumes "jobs_ok s" "job_of s p = None" "st \<noteq> UNDEF" "addjob p st c s = (b, s')" "deletejob d s = (b2, s2)"
  shows "jobs_ok s' \<and> (b \<longleftrightarrow> 0 < p \<and> length (live_jobs s) < MAXJOBS) \<and>
    job_of s' = (if b then (job_of s)(p \<mapsto> new_job p st c s) else job_of s) \<and>
    jobs_ok s2 \<and> (b2 \<longleftrightarrow> job_of s d \<noteq> None) \<and> job_of s2 = (job_of s)(d := None)"
proof -
  note a = job_of_addjob [OF assms(1-4)] and ok = addjob_ok [OF assms(1-4)]
  note d = job_of_deletejob [OF assms(1,5)] deletejob_cases(1) [OF assms(1,5)]
  have "job_of s' = (if b then (job_of s)(p \<mapsto> new_job p st c s) else job_of s)"
    using a(1) by (auto simp: fun_eq_iff)
  moreover have "job_of s2 = (job_of s)(d := None)" using d(1) by (auto simp: fun_eq_iff)
  ultimately show ?thesis using a(2) ok d(2,3) by simp
qed

theorem job_table_correct_witness:
  "jobs_ok (snd (addjob 100 BG ''a'' tsh0)) \<and>
   job_of (snd (addjob 100 BG ''a'' tsh0)) = (job_of tsh0)(100 \<mapsto> new_job 100 BG ''a'' tsh0)"
proof -
  obtain b s' where e: "addjob 100 BG ''a'' tsh0 = (b, s')" by fastforce
  obtain b2 s2 where e2: "deletejob 100 tsh0 = (b2, s2)" by fastforce
  have "b" using tsh0_add [of 100 "''a''"] e by simp
  with job_table_correct [OF tsh0_ok tsh0_empty _ e e2] show ?thesis by (simp add: e)
qed

text \<open>The shell's history of job ids: after sixteen jobs the counter restarts at 1, a deletion sets it
  to the largest id plus one.\<close>

definition jid_history :: "tsh" where
  "jid_history =
     snd (addjob 121 BG ''z'' (snd (addjob 120 BG ''y'' (snd (deletejob 106 (snd (deletejob 105
       (fold (\<lambda>p s. snd (addjob p BG ''x'' s)) [101, 102, 103, 104, 105, 106, 107, 108, 109, 110, 111, 112, 113, 114, 115, 116]
         tsh0))))))))"

text \<open>Job ids are neither unique nor bounded by the table's size: sixteen additions, two deletions and
  two more additions leave two jobs with the id 1 and one with the id 17, for which there is no
  slot \<^verbatim>\<open>jobs[jid-1]\<close>.\<close>

lemma job_ids_collide:
  "map j_jid (jobs jid_history) = [1, 2, 3, 4, 17, 1, 7, 8, 9, 10, 11, 12, 13, 14, 15, 16] \<and>
   job_at 17 jid_history = Inl Fault"
  by code_simp

subsection \<open>The tokeniser\<close>

lemma parseline_line:
  assumes "ws \<noteq> []" "\<forall>w \<in> set ws. quote_char \<notin> set w" "length (command_line ws) < 1024"
  shows "parseline (command_line ws) =
    (if 128 \<le> length ws then Inl OutOfBounds
     else if first_char (last ws) = CHR ''&'' then Inr (True, butlast ws)
     else Inr (False, ws))"
proof -
  have "command_line ws \<noteq> []" by (simp add: command_line_def)
  with assms parse_words [OF assms(2)] command_line_buffer [OF assms(1)] show ?thesis
    by (auto simp: parseline_def MAXLINE_def MAXARGS_def Let_def first_char_def split: list.splits)
qed

text \<open>C11. \<^verbatim>\<open>parseline\<close> inverts the writing of a command line: arguments without quote characters, empty ones
  and ones with spaces in quotes, come back unchanged; a last argument that starts with an
  ampersand is taken off and makes the job a background job; 128 arguments or more overrun
  \<^verbatim>\<open>argv\<close>.\<close>

theorem parseline_command_line:
  assumes "ws \<noteq> []" "\<forall>w \<in> set ws. quote_char \<notin> set w" "length (command_line ws) < 1024"
  shows "parseline (command_line ws) =
    (if 128 \<le> length ws then Inl OutOfBounds
     else if first_char (last ws) = CHR ''&'' then Inr (True, butlast ws)
     else Inr (False, ws))"
  using assms by (rule parseline_line)

theorem parseline_command_line_witness:
  "parseline (command_line [''/bin/echo'', ''a b'', '''', ''&'']) = Inr (True, [''/bin/echo'', ''a b'', ''''])"
  using parseline_command_line [of "[''/bin/echo'', ''a b'', '''', ''&'']"]
  by (simp add: command_line_def words_line_def render_def first_char_def)

text \<open>A line of 128 one-letter words, 256 characters with its spaces, fits in the shell's line buffer and
  makes \<^verbatim>\<open>parseline\<close> write past the end of \<^verbatim>\<open>argv\<close>.\<close>

lemma parseline_overruns_argv:
  "length (command_line (replicate 128 ''a'')) < 1024 \<and> eval os es (command_line (replicate 128 ''a'')) s = Inl Fault"
proof -
  have len: "length (words_line (replicate n ''a'')) = 2 * n" for n
    by (induction n) (simp_all add: words_line_def render_def)
  have l: "length (command_line (replicate 128 ''a'')) = 256" using len [of 128] by (simp add: command_line_def)
  have "parseline (command_line (replicate 128 ''a'')) = Inl OutOfBounds"
    using parseline_line [of "replicate 128 ''a''"] l by simp
  with l show ?thesis by (simp add: eval_def)
qed

subsection \<open>Children that end or stop\<close>

lemma fgpid_job:
  assumes "jobs_ok s" "fgpid s = p" "p \<noteq> 0"
  shows "\<exists>j. job_of s p = Some j \<and> j_state j = FG"
proof -
  from assms(2,3) obtain i where i: "first_slot (\<lambda>j. j_state j = FG) (jobs s) = Some i" "j_pid (jobs s ! i) = p"
    by (auto simp: fgpid_def split: option.splits)
  note d = first_slot_SomeD [OF i(1)]
  have "0 < p" using assms(1,3) d i(2) by (force simp: jobs_ok_def empty_slot_def)
  with d i(2) job_of_Some [OF assms(1), of p "jobs s ! i"] show ?thesis by auto
qed

lemma pid2jid_job: "job_of s p = Some j \<Longrightarrow> pid2jid s p = j_jid j"
  by (auto simp: job_of_def getjobpid_def pid2jid_def split: if_splits)

lemma state_fields [simp]:
  "jobs (s\<lparr>getIntOrStp := b\<rparr>) = jobs s" "fgpid (s\<lparr>getIntOrStp := b\<rparr>) = fgpid s"
  "fgpid (printf m s) = fgpid s" "job_of (s\<lparr>getIntOrStp := b\<rparr>) = job_of s" "job_of (printf m s) = job_of s"
  "jobs_ok (s\<lparr>getIntOrStp := b\<rparr>) = jobs_ok s" "jobs_ok (printf m s) = jobs_ok s"
  "pid2jid (s\<lparr>sent := x\<rparr>) p = pid2jid s p"
  "pid2jid (s\<lparr>getIntOrStp := b\<rparr>) p = pid2jid s p" "pid2jid (printf m s) p = pid2jid s p"
  "job_at k (s\<lparr>getIntOrStp := b\<rparr>) = job_at k s" "job_at k (printf m s) = job_at k s"
  by (simp_all add: fgpid_def fun_eq_iff job_of_def getjobpid_def jobs_ok_def live_jobs_def pid2jid_def job_at_def cong: option.case_cong)

definition ended :: "wstatus \<Rightarrow> bool" where
  "ended st \<longleftrightarrow> (\<forall>sig. st \<noteq> WStopped sig)"

text \<open>What the handler does with one report of a child that has ended.\<close>

lemma reap_ended:
  assumes ok: "jobs_ok s" and p: "job_of s p = Some j" "j_jid j \<le> 16" and st: "ended st"
  shows "\<exists>s'. sigchld_handler [(p, st)] s = Inr s' \<and> jobs_ok s' \<and> job_of s' = (job_of s)(fgpid s := None)"
proof -
  have j: "j \<in> set (jobs s)" "j_pid j = p" "0 < p" using p(1) job_of_Some [OF ok] by auto
  then have jid: "1 \<le> j_jid j" using ok by (auto simp: jobs_ok_def empty_slot_def)
  have at: "job_at (j_jid j) s = Inr (jobs s ! nat (j_jid j - 1))"
    using jid p(2) ok by (simp add: job_at_def jobs_ok_def MAXJOBS_def)
  have del: "jobs_ok (snd (deletejob f t)) \<and> job_of (snd (deletejob f t)) = (job_of s)(f := None)"
    if "jobs_ok t" "\<And>q. job_of t q = job_of s q" for f t
    using job_of_deletejob [OF that(1), of f] that(2) by (cases "deletejob f t") (auto simp: fun_eq_iff)
  let ?s0 = "s\<lparr>getIntOrStp := False\<rparr>"
  let ?s1 = "if j_state (jobs s ! nat (j_jid j - 1)) = FG then ?s0\<lparr>getIntOrStp := True\<rparr> else ?s0"
  have s1: "jobs_ok ?s1" "job_of ?s1 q = job_of s q" "pid2jid ?s1 p = j_jid j" for q
    using ok pid2jid_job [OF p(1)] by (simp_all split: if_split)
  have run: "sigchld_handler [(p, st)] s = and_then
      (case st of WStopped sig \<Rightarrow> set_state_at (j_jid j) ST
           (printf (''Job ['' @ show_int (j_jid j) @ ''] ('' @ show_int p @ '') stopped by signal '' @ show_int sig @ [newline]) ?s1)
       | WSignaled sig \<Rightarrow> Inr (snd (deletejob (fgpid s)
           (printf (''Job ['' @ show_int (j_jid j) @ ''] ('' @ show_int p @ '') terminated by signal '' @ show_int SIGINT @ [newline]) ?s1)))
       | WExited c \<Rightarrow> Inr (snd (deletejob (fgpid s) ?s1))) Inr"
    unfolding sigchld_handler_def reap_loop.simps Let_def state_fields pid2jid_job [OF p(1)] at and_then_simps s1(3)
    using j(3) by simp
  show ?thesis
  proof (cases st)
    case (WExited c)
    with run del [OF s1(1,2), of "fgpid s"] show ?thesis by simp
  next
    case (WSignaled sig)
    with run del [of "printf m ?s1" "fgpid s" for m] s1(1,2) show ?thesis by simp
  qed (use st in \<open>simp add: ended_def\<close>)
qed

text \<open>C13. When the foreground job is the child that has ended, \<^verbatim>\<open>sigchld_handler\<close> removes exactly its entry,
  and the shell stops waiting.\<close>

theorem sigchld_foreground:
  assumes "jobs_ok s" "fgpid s = p" "job_of s p = Some j" "j_jid j \<le> 16" "ended st"
  shows "\<exists>s'. sigchld_handler [(p, st)] s = Inr s' \<and> jobs_ok s' \<and> job_of s' = (job_of s)(p := None) \<and>
    (\<exists>s''. waitfg os p [Sigchld [(p, st)]] s = Inr ([], s'') \<and> job_of s'' p = None)"
proof -
  from reap_ended [OF assms(1,3,4,5)] assms(2) obtain s' where
    s': "sigchld_handler [(p, st)] s = Inr s'" "jobs_ok s'" "job_of s' = (job_of s)(p := None)" by auto
  let ?t = "s\<lparr>getIntOrStp := False\<rparr>"
  have "job_of ?t p = Some j" "jobs_ok ?t" "fgpid ?t = p" using assms by simp_all
  from reap_ended [OF this(2,1) assms(4,5)] this(3) obtain s'' where
    s'': "sigchld_handler [(p, st)] ?t = Inr s''" "jobs_ok s''" "job_of s'' p = None" by auto
  have "0 < p" using assms(1,3) job_of_Some by auto
  then have "p \<noteq> fgpid s''" using fgpid_job [OF s''(2), of p] s''(3) by auto
  then have "waitfg os p [Sigchld [(p, st)]] s = Inr ([], s'')"
    using s''(1) assms(2) by (simp add: waitfg_def)
  with s' s''(3) show ?thesis by auto
qed

definition os_ok :: "int \<Rightarrow> os" where
  "os_ok p = \<lparr>fork_result = p, kill_ok = \<lambda>_ _. True, exec_ok = \<lambda>_. True\<rparr>"

definition tsh_fg :: tsh where
  "tsh_fg = snd (addjob 200 FG ''fg'' (snd (addjob 100 BG ''bg'' tsh0)))"

lemma tsh_fg_props:
  "job_of tsh_fg 100 = Some \<lparr>j_pid = 100, j_jid = 1, j_state = BG, j_cmdline = ''bg''\<rparr>"
  "job_of tsh_fg 200 = Some \<lparr>j_pid = 200, j_jid = 2, j_state = FG, j_cmdline = ''fg''\<rparr>"
  "fgpid tsh_fg = 200"
  by code_simp+

lemma tsh_fg_ok: "jobs_ok tsh_fg"
proof -
  let ?s = "snd (addjob 100 BG ''bg'' tsh0)"
  have "jobs_ok ?s" using jt.add_ok [OF tsh0_ok tsh0_empty] by simp
  moreover have "job_of ?s 200 = None" by code_simp
  ultimately show ?thesis unfolding tsh_fg_def by (rule jt.add_ok) simp
qed

theorem sigchld_foreground_witness:
  "\<exists>s'. sigchld_handler [(200, WExited 0)] tsh_fg = Inr s' \<and> job_of s' 200 = None \<and> job_of s' 100 \<noteq> None"
  using sigchld_foreground [OF tsh_fg_ok tsh_fg_props(3,2), of "WExited 0" "os_ok 1"] tsh_fg_props(1) by (auto simp: ended_def)

text \<open>C14. When a background child ends while there is a foreground job, \<^verbatim>\<open>sigchld_handler\<close> removes the
  foreground job's entry and keeps the one of the child that has ended; without a foreground job it
  removes nothing.\<close>

theorem sigchld_background:
  assumes "jobs_ok s" "job_of s p = Some j" "j_jid j \<le> 16" "ended st" "fgpid s \<noteq> p"
  shows "\<exists>s'. sigchld_handler [(p, st)] s = Inr s' \<and> job_of s' p = Some j \<and>
    (if fgpid s = 0 then job_of s' = job_of s else job_of s' (fgpid s) = None)"
proof -
  from reap_ended [OF assms(1-4)] obtain s' where
    s': "sigchld_handler [(p, st)] s = Inr s'" "job_of s' = (job_of s)(fgpid s := None)" by blast
  have "job_of s 0 = None" by (simp add: job_of_def getjobpid_def)
  with s' assms(2,5) show ?thesis by (auto simp: fun_eq_iff)
qed

theorem sigchld_background_witness:
  "\<exists>s'. sigchld_handler [(100, WExited 0)] tsh_fg = Inr s' \<and> job_of s' 100 \<noteq> None \<and> job_of s' 200 = None"
  using sigchld_background [OF tsh_fg_ok tsh_fg_props(1), of "WExited 0"] tsh_fg_props(3) by (auto simp: ended_def)

subsection \<open>bg and fg\<close>

text \<open>The table as the code assumes it: the job in slot \<open>i\<close> has the id \<open>i + 1\<close>.\<close>

definition aligned :: "tsh \<Rightarrow> bool" where
  "aligned s \<longleftrightarrow> (\<forall>i < length (jobs s). j_pid (jobs s ! i) \<noteq> 0 \<longrightarrow> j_jid (jobs s ! i) = int i + 1)"

lemma aligned_job:
  assumes ok: "jobs_ok s" and al: "aligned s" and j: "job_of s p = Some j"
  shows "1 \<le> j_jid j" "j_jid j \<le> 16" "jobs s ! nat (j_jid j - 1) = j" "0 < p" "j_pid j = p"
    "getjobjid s (j_jid j) = Some (nat (j_jid j - 1))" "getjobpid s p = Some (nat (j_jid j - 1))"
proof -
  from j obtain i where i: "getjobpid s p = Some i" "jobs s ! i = j" by (auto simp: job_of_def)
  then have f: "first_slot (\<lambda>j. j_pid j = p) (jobs s) = Some i" by (auto simp: getjobpid_def split: if_splits)
  note d = first_slot_SomeD [OF f]
  show p: "0 < p" "j_pid j = p" using i(1) d(2) i(2) by (auto simp: getjobpid_def split: if_splits)
  have jid: "j_jid j = int i + 1" using al d(1,2) p i(2) by (auto simp: aligned_def)
  show "1 \<le> j_jid j" "j_jid j \<le> 16" using jid d(1) ok by (simp_all add: jobs_ok_def MAXJOBS_def)
  show "jobs s ! nat (j_jid j - 1) = j" "getjobpid s p = Some (nat (j_jid j - 1))" using i by (simp_all add: jid)
  have "j_jid (jobs s ! k) \<noteq> j_jid j" if "k < i" for k
  proof (cases "j_pid (jobs s ! k) = 0")
    case True
    then have "empty_slot (jobs s ! k)" using ok that d(1) by (auto simp: jobs_ok_def)
    then show ?thesis using jid by (simp add: empty_slot_def)
  next
    case False
    then show ?thesis using al that d(1) jid by (simp add: aligned_def)
  qed
  then show "getjobjid s (j_jid j) = Some (nat (j_jid j - 1))"
    using d(1) i(2) jid by (simp add: getjobjid_def first_slot_Some)
qed

text \<open>How a user names a job: by its id or by its process.\<close>

definition job_name :: "bool \<Rightarrow> job_t \<Rightarrow> string" where
  "job_name by_jid j = (if by_jid then CHR ''%'' # show_int (j_jid j) else show_int (j_pid j))"

lemma digits_show: "0 \<le> i \<Longrightarrow> takeWhile is_digit (show_int i) = show_int i"
  using show_nat_digits [of _ "nat i"] by (simp add: show_int_def takeWhile_eq_all_conv)

lemma first_digit: "0 \<le> i \<Longrightarrow> is_digit (first_char (show_int i))"
  using show_nat_digits [of _ "nat i"] by (cases "show_nat (nat i)") (auto simp: show_int_def first_char_def)

lemma digit_not: "is_digit c \<Longrightarrow> \<not> (c > CHR ''9'') \<and> \<not> (c < CHR ''0'') \<and> c \<noteq> CHR ''%''"
  by (auto simp: is_digit_def)

lemma bgfg_target_job:
  assumes ok: "jobs_ok s" and al: "aligned s" and j: "job_of s p = Some j" and p: "p \<le> 2147483647"
  shows "bgfg_target cmd (job_name by_jid j) s = Inr (Inr (j_jid j, p))"
proof -
  note A = aligned_job [OF ok al j]
  have at: "job_at (j_jid j) s = Inr j" using A(1-3) ok by (simp add: job_at_def jobs_ok_def MAXJOBS_def)
  show ?thesis
  proof (cases by_jid)
    case True
    have "atoi (show_int (j_jid j)) = j_jid j" using atoi_show_int [of "j_jid j" "[]"] A(1,2) by simp
    with True A at show ?thesis by (simp add: bgfg_target_def job_name_def first_char_def Let_def)
  next
    case False
    have "atoi (show_int p) = p" using atoi_show_int [of p "[]"] A(4) p by simp
    moreover have tw: "takeWhile is_digit (show_int p) = show_int p" using digits_show [of p] A(4) by simp
    moreover note digit_not [OF first_digit [of p]]
    ultimately show ?thesis using False A pid2jid_job [OF j]
      unfolding bgfg_target_def job_name_def Let_def by (simp only: tw if_False) simp
  qed
qed

text \<open>C15. While slots and job ids agree, \<^verbatim>\<open>bg\<close> with the id or the process id of a job sends SIGCONT to its
  process group, marks this job as running in the background and no other, and prints its line.\<close>

theorem bg_named_job:
  assumes "jobs_ok s" "aligned s" "job_of s p = Some j" "p \<le> 2147483647" "kill_ok os (- p) SIGCONT"
  shows "\<exists>s'. do_bgfg os es [''bg'', job_name by_jid j] s = Inr (es, s') \<and>
    sent s' = sent s @ [(- p, SIGCONT)] \<and> job_of s' = (job_of s)(p \<mapsto> j\<lparr>j_state := BG\<rparr>) \<and>
    out s' = out s @ ''['' @ show_int (j_jid j) @ ''] ('' @ show_int p @ '') '' @ j_cmdline j"
proof -
  note A = aligned_job [OF assms(1-3)] and T = bgfg_target_job [OF assms(1-4)]
  let ?i = "nat (j_jid j - 1)"
  have len: "length (jobs s) = 16" using assms(1) by (simp add: jobs_ok_def MAXJOBS_def)
  have i: "?i < length (jobs s)" using A(1,2) len by simp
  define s1 where "s1 = s\<lparr>sent := sent s @ [(- p, SIGCONT)], jobs := (jobs s)[?i := j\<lparr>j_state := BG\<rparr>]\<rparr>"
  let ?s' = "printf (''['' @ show_int (j_jid j) @ ''] ('' @ show_int p @ '') '' @ j_cmdline j) s1"
  have "do_bgfg os es [''bg'', job_name by_jid j] s = Inr (es, ?s')"
    using A(1-3) len assms(5) by (simp add: do_bgfg_def T kill_def set_state_at_def job_at_def s1_def)
  moreover have "job_of ?s' q = ((job_of s)(p \<mapsto> j\<lparr>j_state := BG\<rparr>)) q" for q
  proof -
    have pid: "j_pid ((jobs s)[?i := j\<lparr>j_state := BG\<rparr>] ! k) = j_pid (jobs s ! k)" for k
      using A(3) i by (cases "k = ?i") simp_all
    then have fs: "first_slot (\<lambda>j. j_pid j = q) ((jobs s)[?i := j\<lparr>j_state := BG\<rparr>]) = first_slot (\<lambda>j. j_pid j = q) (jobs s)"
      by (intro first_slot_eq) (simp add: list_all2_conv_all_nth)
    show ?thesis
    proof (cases "q = p")
      case True
      then show ?thesis using A(7) i fs by (simp add: job_of_def getjobpid_def s1_def split: if_splits)
    next
      case False
      have "k \<noteq> ?i" if "first_slot (\<lambda>j. j_pid j = q) (jobs s) = Some k" for k
        using first_slot_SomeD(2) [OF that] A(3,5) False by auto
      with False fs show ?thesis
        by (auto simp: job_of_def getjobpid_def s1_def map_option_case split: option.split)
    qed
  qed
  ultimately show ?thesis by (intro exI [of _ ?s'] conjI ext) (simp_all add: s1_def)
qed

lemma tsh_fg_aligned: "aligned tsh_fg"
proof -
  have "\<forall>i \<in> {0 ..< length (jobs tsh_fg)}. j_pid (jobs tsh_fg ! i) \<noteq> 0 \<longrightarrow> j_jid (jobs tsh_fg ! i) = int i + 1"
    by code_simp
  then show ?thesis by (simp add: aligned_def)
qed

theorem bg_named_job_witness:
  "\<exists>s'. do_bgfg (os_ok 1) [] [''bg'', job_name True \<lparr>j_pid = 100, j_jid = 1, j_state = BG, j_cmdline = ''bg''\<rparr>] tsh_fg = Inr ([], s') \<and>
    sent s' = sent tsh_fg @ [(- 100, SIGCONT)]"
  using bg_named_job [OF tsh_fg_ok tsh_fg_aligned tsh_fg_props(1), of "os_ok 1" "[]" True] by (auto simp: os_ok_def)

definition reuse_session :: "(os \<times> event list \<times> string) list" where
  "reuse_session =
     [(os_ok 100, [], ''a &'' @ [newline]), (os_ok 200, [], ''b &'' @ [newline]),
      (os_ok 1, [Sigchld [(100, WExited 0)]], ''fg %1'' @ [newline]),
      (os_ok 300, [], ''c &'' @ [newline]), (os_ok 1, [], ''bg %3'' @ [newline])]"

definition final_state :: "stop + tsh \<Rightarrow> tsh option" where
  "final_state r = (case r of Inl (ShellExit c s) \<Rightarrow> Some s | _ \<Rightarrow> None)"

text \<open>A session in which slots and job ids come apart: two background jobs, the first brought to the
  foreground and ended, a third one that reuses its slot but gets the id 3. Then \<^verbatim>\<open>bg %3\<close> sends
  SIGCONT to process group 0 and marks the empty third slot; job 3 gets no signal.\<close>

lemma bg_reused_slot:
  "map_option (\<lambda>s. (sent s, map (\<lambda>j. (j_pid j, j_jid j)) (take 3 (jobs s)), j_state (jobs s ! 2)))
     (final_state (main_loop False reuse_session tsh0)) =
   Some ([(- 100, SIGCONT), (0, SIGCONT)], [(300, 3), (200, 2), (0, 0)], BG)"
  by code_simp

subsection \<open>Signals from the keyboard\<close>

text \<open>Control-C and control-Z are passed to the process group of the foreground job, and to no other
  process; control-Z marks this job as stopped.\<close>

lemma keyboard_signals:
  assumes "jobs_ok s" "aligned s" "fgpid s = p" "p \<noteq> 0" "kill_ok os (- p) SIGINT" "kill_ok os (- p) SIGTSTP"
  shows "(\<exists>s'. sigint_handler os s = Inr s' \<and> sent s' = sent s @ [(- p, SIGINT)] \<and> jobs s' = jobs s) \<and>
    (\<exists>s' j. sigtstp_handler os s = Inr s' \<and> sent s' = sent s @ [(- p, SIGTSTP)] \<and> job_of s p = Some j \<and>
       jobs s' = (jobs s)[nat (j_jid j - 1) := j\<lparr>j_state := ST\<rparr>])"
proof -
  from fgpid_job [OF assms(1,3,4)] obtain j where j: "job_of s p = Some j" by blast
  note A = aligned_job [OF assms(1,2) j]
  have pj: "pid2jid (s\<lparr>sent := sent s @ x\<rparr>) p = j_jid j" for x using pid2jid_job [OF j] by simp
  have "length (jobs s) = 16" using assms(1) by (simp add: jobs_ok_def MAXJOBS_def)
  with assms(3,5,6) A(1-3) j pj show ?thesis
    by (simp add: sigint_handler_def sigtstp_handler_def kill_def Let_def set_state_at_def)
qed

lemma keyboard_signals_witness:
  "(\<exists>s'. sigint_handler (os_ok 1) tsh_fg = Inr s' \<and> sent s' = sent tsh_fg @ [(- 200, SIGINT)]) \<and>
   (\<exists>s'. sigtstp_handler (os_ok 1) tsh_fg = Inr s' \<and> sent s' = sent tsh_fg @ [(- 200, SIGTSTP)])"
  using keyboard_signals [OF tsh_fg_ok tsh_fg_aligned tsh_fg_props(3), of "os_ok 1"] by (auto simp: os_ok_def)

text \<open>Without a foreground job control-Z signals the shell's own process group and then writes the state
  of the job before the first slot.\<close>

lemma sigtstp_no_foreground:
  assumes "fgpid s = 0" "kill_ok os 0 SIGTSTP"
  shows "sigtstp_handler os s = Inl Fault \<and> kill os (- fgpid s) SIGTSTP s = (True, s\<lparr>sent := sent s @ [(0, SIGTSTP)]\<rparr>)"
  using assms by (simp add: sigtstp_handler_def kill_def Let_def set_state_at_def pid2jid_def)

lemma sigtstp_no_foreground_witness:
  "sigtstp_handler (os_ok 1) tsh0 = Inl Fault"
proof -
  have "fgpid tsh0 = 0" by code_simp
  with sigtstp_no_foreground [of tsh0 "os_ok 1"] show ?thesis by (simp add: os_ok_def)
qed

subsection \<open>Evaluating a command\<close>

text \<open>A command the shell does not run itself, written with its arguments.\<close>

definition external :: "string list \<Rightarrow> bool" where
  "external ws \<longleftrightarrow> ws \<noteq> [] \<and> hd ws \<notin> {''quit'', ''jobs'', ''bg'', ''fg''} \<and> length ws < 127 \<and>
     (\<forall>w \<in> set ws. quote_char \<notin> set w) \<and> length (command_line (ws @ [''&''])) < 1024"

lemma external_parse:
  assumes "external ws"
  shows "parseline (command_line (ws @ [''&''])) = Inr (True, ws)"
    and "first_char (last ws) \<noteq> CHR ''&'' \<Longrightarrow> parseline (command_line ws) = Inr (False, ws)"
proof -
  have w: "ws \<noteq> []" "\<forall>w \<in> set ws. quote_char \<notin> set w" "length ws < 127" "length (command_line (ws @ [''&''])) < 1024"
    using assms by (simp_all add: external_def)
  have "length (command_line ws) \<le> length (command_line (ws @ [''&'']))"
    by (simp add: command_line_def words_line_def)
  then have l: "length (command_line ws) < 1024" using w(4) by simp
  show "parseline (command_line (ws @ [''&''])) = Inr (True, ws)"
    using parseline_line [of "ws @ [''&'']"] w by (simp add: first_char_def)
  show "parseline (command_line ws) = Inr (False, ws)" if "first_char (last ws) \<noteq> CHR ''&''"
    using parseline_line [OF w(1,2) l] w(3) that by simp
qed

lemma external_not_builtin: "external ws \<Longrightarrow> builtin_cmd os es ws s = None"
  by (auto simp: builtin_cmd_def external_def)

lemma add_accepted:
  assumes "jobs_ok s" "job_of s p = None" "0 < p" "length (live_jobs s) < MAXJOBS" "st \<noteq> UNDEF"
  shows "fst (addjob p st c s)" "jobs_ok (snd (addjob p st c s))"
    "job_of (snd (addjob p st c s)) = (job_of s)(p \<mapsto> new_job p st c s)"
    "verbose s = False \<Longrightarrow> out (snd (addjob p st c s)) = out s"
proof -
  obtain b s' where e: "addjob p st c s = (b, s')" by fastforce
  note a = job_of_addjob [OF assms(1,2,5) e]
  show "fst (addjob p st c s)" "jobs_ok (snd (addjob p st c s))"
    using a(2) assms(3,4) addjob_ok [OF assms(1,2,5) e] by (simp_all add: e)
  then show "job_of (snd (addjob p st c s)) = (job_of s)(p \<mapsto> new_job p st c s)"
    using a(1) by (auto simp: e fun_eq_iff)
  show "verbose s = False \<Longrightarrow> out (snd (addjob p st c s)) = out s"
    using \<open>fst (addjob p st c s)\<close> by (auto simp: addjob_def Let_def split: option.splits if_splits)
qed

text \<open>C19. A command line that ends in an ampersand starts a background job: the shell does not wait, the new
  process is in the table with the line that was typed, no other entry changes, and the job's
  number, process id and line are printed.\<close>

theorem eval_background:
  assumes "external ws" "jobs_ok s" "job_of s (fork_result os) = None" "0 < fork_result os"
    "length (live_jobs s) < MAXJOBS" "\<not> verbose s"
  shows "\<exists>s'. eval os es (command_line (ws @ [''&''])) s = Inr (es, s') \<and> jobs_ok s' \<and>
    job_of s' = (job_of s)(fork_result os \<mapsto> new_job (fork_result os) BG (command_line (ws @ [''&''])) s) \<and>
    out s' = out s @ ''['' @ show_int (nextjid s) @ ''] ('' @ show_int (fork_result os) @ '') '' @ command_line (ws @ [''&''])"
proof -
  let ?p = "fork_result os" and ?c = "command_line (ws @ [''&''])"
  let ?s = "snd (addjob ?p BG ?c s)"
  note a = add_accepted [OF assms(2-5), of BG ?c]
  have "ws \<noteq> []" using assms(1) by (simp add: external_def)
  then have "eval os es ?c s = Inr (es, printf (''['' @ show_int (pid2jid ?s ?p) @ ''] ('' @ show_int ?p @ '') '' @ ?c) ?s)"
    by (simp add: eval_def external_parse(1) [OF assms(1)] external_not_builtin [OF assms(1)] Let_def)
  moreover have "pid2jid ?s ?p = nextjid s"
    using pid2jid_job [of ?s ?p "new_job ?p BG ?c s"] a(3) by (simp add: new_job_def)
  ultimately show ?thesis using a(2-4) assms(6) by simp
qed

theorem eval_background_witness:
  "\<exists>s'. eval (os_ok 100) [] (command_line [''sleep'', ''5'', ''&'']) tsh0 = Inr ([], s') \<and>
    job_of s' 100 = Some (new_job 100 BG (command_line [''sleep'', ''5'', ''&'']) tsh0) \<and>
    out s' = ''[1] (100) '' @ command_line [''sleep'', ''5'', ''&'']"
proof -
  have "external [''sleep'', ''5'']" "length (live_jobs tsh0) < MAXJOBS" by code_simp+
  moreover have "show_int 1 = ''1''" "show_int 100 = ''100''" by code_simp+
  ultimately show ?thesis
    using eval_background [OF _ tsh0_ok tsh0_empty, of "[''sleep'', ''5'']" "os_ok 100" "[]"]
    by (auto simp: os_ok_def tsh0_fields)
qed

text \<open>A command line without an ampersand runs in the foreground: when the events that arrive begin with the
  end of this child, the shell returns to its prompt with the job table it had before.\<close>

lemma eval_foreground:
  assumes "external ws" "first_char (last ws) \<noteq> CHR ''&''" "jobs_ok s" "job_of s (fork_result os) = None"
    "0 < fork_result os" "length (live_jobs s) < MAXJOBS" "fgpid s = 0" "nextjid s \<le> 16" "ended st"
  shows "\<exists>s'. eval os (Sigchld [(fork_result os, st)] # es) (command_line ws) s = Inr (es, s') \<and> jobs_ok s' \<and>
    job_of s' = job_of s"
proof -
  let ?p = "fork_result os" and ?c = "command_line ws"
  define s1 where "s1 = (snd (addjob ?p FG ?c s))\<lparr>getIntOrStp := False\<rparr>"
  note a = add_accepted [OF assms(3-6), of FG ?c]
  have s1: "jobs_ok s1" "job_of s1 = (job_of s)(?p \<mapsto> new_job ?p FG ?c s)"
    using a by (simp_all add: s1_def fun_eq_iff)
  have fg: "fgpid s1 = ?p"
  proof -
    have "job_of s1 ?p = Some (new_job ?p FG ?c s)" using s1(2) by simp
    then have "new_job ?p FG ?c s \<in> set (jobs s1)" using job_of_Some [OF s1(1)] by blast
    then obtain i where i: "first_slot (\<lambda>j. j_state j = FG) (jobs s1) = Some i"
      using first_slot_None [of "\<lambda>j. j_state j = FG" "jobs s1"] by (force simp: new_job_def)
    note d = first_slot_SomeD [OF i]
    let ?j = "jobs s1 ! i"
    have "0 < j_pid ?j" using s1(1) d by (force simp: jobs_ok_def empty_slot_def)
    then have f: "job_of s1 (j_pid ?j) = Some ?j" using d(3) job_of_Some [OF s1(1)] by simp
    have "j_pid ?j = ?p"
    proof (rule ccontr)
      assume n: "j_pid ?j \<noteq> ?p"
      with f s1(2) have "job_of s (j_pid ?j) = Some ?j" by simp
      then have "?j \<in> set (jobs s)" using job_of_Some [OF assms(3)] by blast
      with d(2) obtain k where k: "first_slot (\<lambda>j. j_state j = FG) (jobs s) = Some k"
        using first_slot_None [of "\<lambda>j. j_state j = FG" "jobs s"] by force
      note dk = first_slot_SomeD [OF k]
      have "0 < j_pid (jobs s ! k)" using assms(3) dk by (force simp: jobs_ok_def empty_slot_def)
      then show False using assms(7) k by (simp add: fgpid_def)
    qed
    with i show ?thesis by (simp add: fgpid_def)
  qed
  have j: "job_of s1 ?p = Some (new_job ?p FG ?c s)" "j_jid (new_job ?p FG ?c s) \<le> 16"
    using s1(2) assms(8) by (simp_all add: new_job_def)
  from reap_ended [OF s1(1) j assms(9)] fg obtain s' where
    s': "sigchld_handler [(?p, st)] s1 = Inr s'" "jobs_ok s'" "job_of s' = (job_of s1)(?p := None)" by auto
  have "job_of s' = job_of s" using s'(3) s1(2) assms(4) by (auto simp: fun_eq_iff)
  moreover have "fgpid s' \<noteq> ?p" using fgpid_job [OF s'(2), of ?p] s'(3) assms(5) by auto
  moreover have "ws \<noteq> []" using assms(1) by (simp add: external_def)
  ultimately have "eval os (Sigchld [(?p, st)] # es) ?c s = Inr (es, s')"
    using fg s'(1)
    by (cases es) (simp_all add: eval_def external_parse(2) [OF assms(1,2)] external_not_builtin [OF assms(1)]
        Let_def waitfg_def s1_def)
  with s'(2) \<open>job_of s' = job_of s\<close> show ?thesis by blast
qed

lemma eval_foreground_witness:
  "\<exists>s'. eval (os_ok 100) [Sigchld [(100, WExited 0)]] (command_line [''/bin/ls'', ''-l'']) tsh0 = Inr ([], s') \<and>
    job_of s' = job_of tsh0"
proof -
  have "external [''/bin/ls'', ''-l'']" "length (live_jobs tsh0) < MAXJOBS" "fgpid tsh0 = 0" by code_simp+
  then show ?thesis
    using eval_foreground [OF _ _ tsh0_ok tsh0_empty, of "[''/bin/ls'', ''-l'']" "os_ok 100" "WExited 0" "[]"]
    by (auto simp: os_ok_def tsh0_fields ended_def first_char_def)
qed

end
