(* ===== verification/ShellMain.thy ===== *)
theory ShellMain
  imports ShellProps Getopt
begin

text \<open>
  \<^verbatim>\<open>main\<close> of \<^verbatim>\<open>shelllab/tsh.c\<close>: the options, the installation of the signal handlers, the reading of
  lines with \<^verbatim>\<open>fgets\<close> and the error routines. Standard input is the list of the characters that can
  still be read, with a flag that says whether reading ends in an error. The kernel's answers to
  the evaluation of the \<open>i\<close>-th line and the signals that arrive from then on are given by \<open>kernel i\<close>.
  Standard error is redirected to standard output, so \<open>out\<close> has both.
\<close>

datatype handler = Sigint_handler | Sigtstp_handler | Sigchld_handler | Sigquit_handler

definition SIGQUIT :: int where "SIGQUIT = 3"
definition SIGCHLD :: int where "SIGCHLD = 17"

record tsh_env =
  tsh_args :: "string list"              \<comment> \<open>\<^verbatim>\<open>argv\<close> without the program's name\<close>
  tsh_name :: string
  sigaction_ok :: "int \<Rightarrow> bool"
  strerror_text :: string                \<comment> \<open>of the error of a failed \<^verbatim>\<open>sigaction\<close>\<close>
  kernel :: "nat \<Rightarrow> os \<times> event list"
  input_fails :: bool                    \<comment> \<open>whether standard input ends with an error\<close>

subsection \<open>Error routines and signals\<close>

definition tsh_usage :: "tsh \<Rightarrow> stop" where
  "tsh_usage s = ShellExit 1 (printf
     (''Usage: shell [-hvp]'' @ [newline] @
      ''   -h   print this message'' @ [newline] @
      ''   -v   print additional diagnostic information'' @ [newline] @
      ''   -p   do not emit a command prompt'' @ [newline]) s)"

definition unix_error :: "string \<Rightarrow> string \<Rightarrow> tsh \<Rightarrow> stop" where
  "unix_error msg err s = ShellExit 1 (printf (msg @ '': '' @ err @ [newline]) s)"

definition app_error :: "string \<Rightarrow> tsh \<Rightarrow> stop" where
  "app_error msg s = ShellExit 1 (printf (msg @ [newline]) s)"

definition install_handler ::
    "tsh_env \<Rightarrow> int \<Rightarrow> handler \<Rightarrow> (int \<rightharpoonup> handler) \<times> tsh \<Rightarrow> stop + ((int \<rightharpoonup> handler) \<times> tsh)" where
  "install_handler env signum h = (\<lambda>(tab, s).
     if sigaction_ok env signum then Inr (tab(signum \<mapsto> h), s)
     else Inl (unix_error ''Signal error'' (strerror_text env) s))"

text \<open>A signal runs the handler that the table has for its number: \<open>handled_as\<close> is the event whose treatment by
  \<open>handle\<close> is that of the handler. The loop of \<open>main\<close> is reached with all four handlers installed, so the default
  actions of the signals do not matter to it; a signal without a handler has none here.\<close>

fun signum_of :: "event \<Rightarrow> int" where
  "signum_of (Sigchld reports) = SIGCHLD"
| "signum_of Sigint = SIGINT"
| "signum_of Sigtstp = SIGTSTP"
| "signum_of Sigquit = SIGQUIT"

definition reports_of :: "event \<Rightarrow> (int \<times> wstatus) list" where
  "reports_of e = (case e of Sigchld reports \<Rightarrow> reports | _ \<Rightarrow> [])"

fun handled_as :: "handler \<Rightarrow> event \<Rightarrow> event" where
  "handled_as Sigint_handler e = Sigint"
| "handled_as Sigtstp_handler e = Sigtstp"
| "handled_as Sigchld_handler e = Sigchld (reports_of e)"
| "handled_as Sigquit_handler e = Sigquit"

definition dispatched :: "(int \<rightharpoonup> handler) \<Rightarrow> event list \<Rightarrow> event list" where
  "dispatched tab es = List.map_filter (\<lambda>e. map_option (\<lambda>h. handled_as h e) (tab (signum_of e))) es"

subsection \<open>Options\<close>

fun tsh_options :: "string \<Rightarrow> opt list \<Rightarrow> bool \<Rightarrow> tsh \<Rightarrow> stop + (bool \<times> tsh)" where
  "tsh_options name [] emit_prompt s = Inr (emit_prompt, s)"
| "tsh_options name (p # ps) emit_prompt s =
     (case p of
        Opt c a \<Rightarrow>
          if c = CHR ''h'' then Inl (tsh_usage s)
          else if c = CHR ''v'' then tsh_options name ps emit_prompt (s\<lparr>verbose := True\<rparr>)
          else if c = CHR ''p'' then tsh_options name ps False s
          else Inl (tsh_usage s)
      | _ \<Rightarrow> Inl (tsh_usage (printf (getopt_message name p) s)))"

subsection \<open>Reading lines\<close>

text \<open>\<^verbatim>\<open>fgets\<close> with room for \<open>n\<close> characters: what it stores, what is left, and whether it ran into the end of
  the input.\<close>

fun fgets :: "nat \<Rightarrow> string \<Rightarrow> string \<times> string \<times> bool" where
  "fgets 0 inp = ([], inp, False)"
| "fgets (Suc n) [] = ([], [], True)"
| "fgets (Suc n) (c # cs) =
     (if c = newline then ([c], cs, False)
      else case fgets n cs of (line, rest, at_end) \<Rightarrow> (c # line, rest, at_end))"

lemma fgets_append: "fgets n inp = (line, rest, e) \<Longrightarrow> inp = line @ rest"
  by (induction n inp arbitrary: line rest e rule: fgets.induct) (auto split: if_splits prod.splits)

lemma fgets_length: "fgets n inp = (line, rest, e) \<Longrightarrow> length line \<le> n"
  by (induction n inp arbitrary: line rest e rule: fgets.induct) (auto split: if_splits prod.splits)

lemma fgets_nonempty: "fgets n inp = (line, rest, False) \<Longrightarrow> 0 < n \<Longrightarrow> line \<noteq> []"
  by (cases n; cases inp) (auto split: if_splits prod.splits)

lemma fgets_shorter: "fgets n inp = (line, rest, False) \<Longrightarrow> 0 < n \<Longrightarrow> length rest < length inp"
  using fgets_append [of n inp line rest False] fgets_nonempty [of n inp line rest] by simp

text \<open>The array read as a string ends at its first NUL.\<close>

definition c_string :: "string \<Rightarrow> string" where
  "c_string = takeWhile (\<lambda>c. c \<noteq> CHR 0x00)"

definition line_room :: nat where "line_room = Parseline.MAXLINE - 1"

subsection \<open>The loop and main\<close>

function tsh_loop :: "tsh_env \<Rightarrow> (int \<rightharpoonup> handler) \<Rightarrow> bool \<Rightarrow> nat \<Rightarrow> string \<Rightarrow> tsh \<Rightarrow> stop" where
  "tsh_loop env tab emit_prompt i inp s0 =
     (let s = (if emit_prompt then printf ''tsh> '' s0 else s0) in
      case fgets line_room inp of
        (line, rest, True) \<Rightarrow> if input_fails env then app_error ''fgets error'' s else ShellExit 0 s
      | (line, rest, False) \<Rightarrow>
          (case and_then (eval (fst (kernel env i)) (dispatched tab (snd (kernel env i))) (c_string line) s) (\<lambda>(es, s).
              deliver (fst (kernel env i)) es s) of
             Inl stop \<Rightarrow> stop
           | Inr s' \<Rightarrow> tsh_loop env tab emit_prompt (Suc i) rest s'))"
  by pat_completeness auto
termination
  by (relation "measure (\<lambda>(env, tab, emit_prompt, i, inp, s). length inp)") (auto simp: line_room_def Parseline.MAXLINE_def dest!: fgets_shorter [OF sym])

declare tsh_loop.simps [simp del]

definition tsh_main :: "tsh_env \<Rightarrow> string \<Rightarrow> stop" where
  "tsh_main env inp =
     (let s = tsh0 in
      case and_then (tsh_options (tsh_name env) (getopt ''hvp'' (tsh_args env)) True s) (\<lambda>(emit_prompt, s).
        and_then (install_handler env SIGINT Sigint_handler (Map.empty, s)) (\<lambda>t.
        and_then (install_handler env SIGTSTP Sigtstp_handler t) (\<lambda>t.
        and_then (install_handler env SIGCHLD Sigchld_handler t) (\<lambda>t.
        and_then (install_handler env SIGQUIT Sigquit_handler t) (\<lambda>(tab, s).
          Inr (emit_prompt, tab, initjobs s)))))) of
        Inl stop \<Rightarrow> stop
      | Inr (emit_prompt, tab, s) \<Rightarrow> tsh_loop env tab emit_prompt 0 inp s)"

subsection \<open>What main does\<close>

lemma tsh_options_flags:
  assumes "set fs \<subseteq> {CHR ''v'', CHR ''p''}"
  shows "tsh_options name (map (\<lambda>c. Opt c None) fs) e s =
    Inr (e \<and> CHR ''p'' \<notin> set fs, s\<lparr>verbose := verbose s \<or> CHR ''v'' \<in> set fs\<rparr>)"
  using assms by (induction fs arbitrary: e s) auto

lemma getopt_tsh_flags:
  assumes "set fs \<subseteq> {CHR ''v'', CHR ''p''}"
  shows "getopt ''hvp'' (flag_args fs) = map (\<lambda>c. Opt c None) fs"
  using assms by (intro getopt_flags) (auto simp: takes_arg_def)

text \<open>With the handlers that \<open>main\<close> installs a signal has the effect that \<open>handle\<close> says.\<close>

definition tsh_handlers :: "int \<rightharpoonup> handler" where
  "tsh_handlers = [SIGINT \<mapsto> Sigint_handler, SIGTSTP \<mapsto> Sigtstp_handler, SIGCHLD \<mapsto> Sigchld_handler, SIGQUIT \<mapsto> Sigquit_handler]"

lemma handled_as_itself: "map_option (\<lambda>h. handled_as h e) (tsh_handlers (signum_of e)) = Some e"
  by (cases e) (simp_all add: tsh_handlers_def reports_of_def SIGINT_def SIGTSTP_def SIGCHLD_def SIGQUIT_def)

lemma dispatched_installed [simp]: "dispatched tsh_handlers es = es"
  by (induction es) (simp_all only: dispatched_def map_filter_simps handled_as_itself option.case)

lemma install_handlers:
  assumes "\<forall>k. sigaction_ok env k"
  shows "and_then (install_handler env SIGINT Sigint_handler (Map.empty, s)) (\<lambda>t.
    and_then (install_handler env SIGTSTP Sigtstp_handler t) (\<lambda>t.
    and_then (install_handler env SIGCHLD Sigchld_handler t) (\<lambda>t.
    and_then (install_handler env SIGQUIT Sigquit_handler t) f))) = f (tsh_handlers, s)"
  using assms by (simp add: install_handler_def tsh_handlers_def)

lemma fgets_line:
  assumes "newline \<notin> set l" "length l < n"
  shows "fgets n (l @ newline # rest) = (l @ [newline], rest, False)"
  using assms
proof (induction l arbitrary: n)
  case (Cons c l)
  then show ?case by (cases n) auto
qed (auto simp: gr0_conv_Suc)

lemma fgets_tail:
  assumes "newline \<notin> set l" "length l < n"
  shows "fgets n l = (l, [], True)"
  using assms
proof (induction l arbitrary: n)
  case (Cons c l)
  then show ?case by (cases n) auto
qed (auto simp: gr0_conv_Suc)

text \<open>Typed lines: without the newline that ends them.\<close>

definition typed_line :: "string \<Rightarrow> bool" where
  "typed_line l \<longleftrightarrow> newline \<notin> set l \<and> CHR 0x00 \<notin> set l \<and> length l < line_room"

definition typed :: "string list \<Rightarrow> string" where
  "typed ls = concat (map (\<lambda>l. l @ [newline]) ls)"

definition session_lines :: "tsh_env \<Rightarrow> nat \<Rightarrow> string list \<Rightarrow> (os \<times> event list \<times> string) list" where
  "session_lines env i ls =
     map (\<lambda>(k, l). (fst (kernel env k), snd (kernel env k), l @ [newline])) (enumerate i ls)"

lemma tsh_loop_lines:
  assumes "\<forall>l \<in> set ls. typed_line l" "typed_line tail" "\<not> input_fails env"
  shows "main_loop e (session_lines env i ls) s = Inl (tsh_loop env tsh_handlers e i (typed ls @ tail) s)"
  using assms(1)
proof (induction ls arbitrary: i s)
  case Nil
  have "fgets line_room tail = (tail, [], True)" using assms(2) by (simp add: fgets_tail typed_line_def)
  with assms(3) show ?case by (simp add: session_lines_def typed_def tsh_loop.simps [of env tsh_handlers e i tail s] Let_def)
next
  case (Cons l ls)
  have l: "newline \<notin> set l" "length l < line_room" "c_string (l @ [newline]) = l @ [newline]"
    using Cons.prems by (auto simp: typed_line_def c_string_def takeWhile_eq_all_conv)
  let ?s = "if e then printf ''tsh> '' s else s"
  let ?r = "and_then (eval (fst (kernel env i)) (snd (kernel env i)) (l @ [newline]) ?s)
    (\<lambda>(es, s). deliver (fst (kernel env i)) es s)"
  have loop: "tsh_loop env tsh_handlers e i (typed (l # ls) @ tail) s =
      (case ?r of Inl stop \<Rightarrow> stop | Inr s' \<Rightarrow> tsh_loop env tsh_handlers e (Suc i) (typed ls @ tail) s')"
  proof -
    have "typed (l # ls) @ tail = l @ newline # (typed ls @ tail)" by (simp add: typed_def)
    then show ?thesis
      using fgets_line [OF l(1,2), of "typed ls @ tail"] l(3)
      by (simp only: tsh_loop.simps [of env tsh_handlers e i "l @ newline # typed ls @ tail" s] Let_def) simp
  qed
  have main: "main_loop e (session_lines env i (l # ls)) s =
      (case ?r of Inl stop \<Rightarrow> Inl stop | Inr s' \<Rightarrow> main_loop e (session_lines env (Suc i) ls) s')"
    by (auto simp: session_lines_def Let_def and_then_def split: sum.splits prod.splits)
  show ?case using Cons by (auto simp: loop main split: sum.splits)
qed

text \<open>C16. \<^verbatim>\<open>main\<close> with any combination of \<^verbatim>\<open>-v\<close> and \<^verbatim>\<open>-p\<close> evaluates the lines of its input in order, and exits at the
  end of the input; what follows the last newline is dropped without being evaluated. While it does, every
  signal is handled by the handler that it installed for that signal, and this is the right one: \<^verbatim>\<open>main_loop\<close>, which
  treats each event by its own handler, ends in the same state.\<close>

theorem tsh_main_evaluates_lines:
  assumes "set fs \<subseteq> {CHR ''v'', CHR ''p''}" "tsh_args env = flag_args fs" "\<forall>k. sigaction_ok env k"
    "\<forall>l \<in> set ls. typed_line l" "typed_line tail" "\<not> input_fails env"
  shows "main_loop (CHR ''p'' \<notin> set fs) (session_lines env 0 ls) (initjobs (tsh0\<lparr>verbose := CHR ''v'' \<in> set fs\<rparr>)) =
      Inl (tsh_main env (typed ls @ tail))"
  using assms(3)
  by (simp add: tsh_main_def assms(2) getopt_tsh_flags [OF assms(1)] tsh_options_flags [OF assms(1)] install_handlers
      tsh_loop_lines [OF assms(4-6)] tsh0_fields)

definition quit_env :: tsh_env where
  "quit_env = \<lparr>tsh_args = [''-p''], tsh_name = ''tsh'', sigaction_ok = \<lambda>_. True, strerror_text = '''',
     kernel = \<lambda>i. (os_ok (100 + int i), []), input_fails = False\<rparr>"

theorem tsh_main_evaluates_lines_witness:
  "main_loop False (session_lines quit_env 0 [''/bin/ls &'', ''jobs'']) (initjobs (tsh0\<lparr>verbose := False\<rparr>)) =
    Inl (tsh_main quit_env (typed [''/bin/ls &'', ''jobs''] @ ''quit''))"
proof -
  have "flag_args [CHR ''p''] = [''-p'']" by (simp add: flag_args_def)
  moreover have "\<forall>l \<in> set [''/bin/ls &'', ''jobs'', ''quit'']. typed_line l"
    by (simp add: typed_line_def line_room_def Parseline.MAXLINE_def)
  ultimately show ?thesis
    using tsh_main_evaluates_lines [of "[CHR ''p'']" quit_env "[''/bin/ls &'', ''jobs'']" "''quit''"]
    by (simp add: quit_env_def)
qed

end
