(* ===== verification/ShellTypes.thy ===== *)
theory ShellTypes
  imports ShellMain
begin

text \<open>
  The types of the shell's C data as an invariant: sixteen slots, process and job ids that are not
  negative, command lines that are C strings and fit in \<^verbatim>\<open>cmdline[MAXLINE]\<close>, a free slot that has
  no id and no line. Every operation of the shell keeps it, also those that leave the job table in
  disorder, as long as it does not access an array outside its bounds; the second half of the theory says exactly when
  one does.
\<close>

named_theorems wt \<open>operations that keep the types of the shell's data\<close>

definition wt_line :: "string \<Rightarrow> bool" where
  "wt_line l \<longleftrightarrow> length l < Parseline.MAXLINE \<and> CHR 0x00 \<notin> set l"

definition wt_job :: "job_t \<Rightarrow> bool" where
  "wt_job j \<longleftrightarrow> 0 \<le> j_pid j \<and> 0 \<le> j_jid j \<and> wt_line (j_cmdline j) \<and>
     (j_pid j = 0 \<longrightarrow> j_jid j = 0 \<and> j_cmdline j = '''')"

definition wt_tsh :: "tsh \<Rightarrow> bool" where
  "wt_tsh s \<longleftrightarrow> length (jobs s) = MAXJOBS \<and> 0 < nextjid s \<and> (\<forall>j \<in> set (jobs s). wt_job j)"

text \<open>The state that an operation leaves: after it, or at an exit. A fault has none; \<open>signal_faults\<close> and
  \<open>line_faults\<close> below say when there is one.\<close>

definition wt_stop :: "stop \<Rightarrow> bool" where
  "wt_stop e \<longleftrightarrow> (case e of ShellExit c s \<Rightarrow> c \<in> {0, 1} \<and> wt_tsh s | _ \<Rightarrow> True)"

definition wt_result :: "('a \<Rightarrow> tsh) \<Rightarrow> stop + 'a \<Rightarrow> bool" where
  "wt_result st r \<longleftrightarrow> (case r of Inl e \<Rightarrow> wt_stop e | Inr a \<Rightarrow> wt_tsh (st a))"

lemma wt_result_simps [simp]:
  "wt_result st (Inr a) = wt_tsh (st a)" "wt_result st (Inl (ShellExit c s)) = (c \<in> {0, 1} \<and> wt_tsh s)"
  "wt_result st (Inl Fault)" "wt_result st (Inl Waiting)"
  by (simp_all add: wt_result_def wt_stop_def)

lemma wt_and_then:
  "wt_result st m \<Longrightarrow> (\<And>a. m = Inr a \<Longrightarrow> wt_tsh (st a) \<Longrightarrow> wt_result st' (f a)) \<Longrightarrow> wt_result st' (and_then m f)"
  by (cases m) (simp_all add: wt_result_def)

subsection \<open>The job table\<close>

lemma wt_fields [simp]:
  "wt_tsh (s\<lparr>getIntOrStp := b\<rparr>) = wt_tsh s" "wt_tsh (printf m s) = wt_tsh s" "wt_tsh (s\<lparr>sent := l\<rparr>) = wt_tsh s"
  "wt_tsh (s\<lparr>verbose := b\<rparr>) = wt_tsh s"
  by (simp_all add: wt_tsh_def printf_def)

lemma wt_clearjob [simp]: "wt_job (clearjob j)"
  by (simp add: wt_job_def clearjob_def wt_line_def Parseline.MAXLINE_def)

lemma wt_state [simp]: "wt_job (j\<lparr>j_state := st\<rparr>) = wt_job j"
  by (simp add: wt_job_def)

lemma wt_update:
  assumes "wt_tsh s" "wt_job j" "0 < n"
  shows "wt_tsh (s\<lparr>jobs := (jobs s)[i := j], nextjid := n\<rparr>)" "wt_tsh (s\<lparr>jobs := (jobs s)[i := j]\<rparr>)"
  using assms set_update_subset_insert [of "jobs s" i j] by (auto simp: wt_tsh_def)

lemma maxjid_nonneg: "0 \<le> maxjid js"
proof -
  have "m \<le> foldl (\<lambda>m j. if j_jid j > m then j_jid j else m) m js" for m
    by (induction js arbitrary: m) (auto intro: order_trans [OF less_imp_le])
  then show ?thesis by (simp add: maxjid_def)
qed

lemma addjob_wt [wt]:
  assumes "wt_tsh s" "wt_line c"
  shows "wt_tsh (snd (addjob p st c s))"
proof (cases "p < 1 \<or> first_slot (\<lambda>j. j_pid j = 0) (jobs s) = None")
  case True
  with assms show ?thesis by (auto simp: addjob_def)
next
  case False
  then obtain i where i: "first_slot (\<lambda>j. j_pid j = 0) (jobs s) = Some i" "0 < p" by auto
  have n: "0 < nextjid s" using assms(1) by (simp add: wt_tsh_def)
  then have "wt_job ((jobs s ! i)\<lparr>j_pid := p, j_state := st, j_jid := nextjid s, j_cmdline := c\<rparr>)"
    using assms(2) i(2) by (simp add: wt_job_def)
  from wt_update(1) [OF assms(1) this, of "if nextjid s + 1 > int MAXJOBS then 1 else nextjid s + 1" i] i n
  show ?thesis by (simp add: addjob_def Let_def)
qed

lemma deletejob_wt [wt]: "wt_tsh s \<Longrightarrow> wt_tsh (snd (deletejob p s))"
  using maxjid_nonneg
  by (auto simp: deletejob_def Let_def intro!: wt_update(1) add_nonneg_pos split: option.splits)

lemma initjobs_wt [wt]: "wt_tsh s \<Longrightarrow> wt_tsh (initjobs s)"
  by (auto simp: wt_tsh_def initjobs_def)

lemma listjobs_wt [wt]: "wt_tsh s \<Longrightarrow> wt_tsh (listjobs s)"
  by (simp add: listjobs_def)

lemma job_at_wt: "wt_tsh s \<Longrightarrow> wt_result (\<lambda>_. s) (job_at k s)"
  by (simp add: job_at_def)

lemma set_state_at_wt [wt]: "wt_tsh s \<Longrightarrow> wt_result id (set_state_at k st s)"
  using wt_update(2) [of s "(jobs s ! nat (k - 1))\<lparr>j_state := st\<rparr>" 1 "nat (k - 1)"]
  by (auto simp: set_state_at_def wt_tsh_def)

subsection \<open>Handlers and commands\<close>

lemma reap_loop_wt [wt]: "wt_tsh s \<Longrightarrow> wt_result id (reap_loop f reports s)"
proof (induction f reports s rule: reap_loop.induct)
  case (2 f p status rest s)
  show ?case
  proof (cases "p \<le> 0")
    case False
    show ?thesis
      unfolding reap_loop.simps Let_def if_not_P [OF False]
    proof (rule wt_and_then [OF job_at_wt [OF 2(2)]], rule wt_and_then [where st = id], goal_cases)
      case (1 j)
      then show ?case using 2(2) by (cases status) (auto intro!: wt split: if_splits)
    next
      case (2 j s')
      then show ?case using "2.IH" [OF False refl _ refl] by (metis id_apply)
    qed
  qed (use 2 in simp)
qed simp

lemma handle_wt [wt]: "wt_tsh s \<Longrightarrow> wt_result id (handle os e s)"
proof (cases e)
  case Sigtstp
  assume "wt_tsh s"
  with Sigtstp show ?thesis
    by (auto simp: sigtstp_handler_def kill_def Let_def intro!: wt_and_then [OF set_state_at_wt])
qed (auto simp: sigchld_handler_def sigint_handler_def sigquit_handler_def kill_def Let_def intro!: wt)

lemma deliver_wt [wt]: "wt_tsh s \<Longrightarrow> wt_result id (deliver os es s)"
  by (induction es arbitrary: s) (auto intro!: wt_and_then [OF handle_wt])

lemma waitfg_wt [wt]: "wt_tsh s \<Longrightarrow> wt_result snd (waitfg os p es s)"
proof -
  have "wt_tsh s \<Longrightarrow> wt_result snd (wait_loop os p es s)" for s
    by (induction es arbitrary: s) (auto intro!: wt_and_then [OF handle_wt])
  then show "wt_tsh s \<Longrightarrow> wt_result snd (waitfg os p es s)" by (simp add: waitfg_def)
qed

lemma bgfg_target_wt: "wt_tsh s \<Longrightarrow> wt_result (\<lambda>_. s) (bgfg_target cmd arg s)"
  by (auto simp: bgfg_target_def Let_def intro!: wt_and_then [OF job_at_wt] split: option.splits)

lemma do_bgfg_wt [wt]: "wt_tsh s \<Longrightarrow> wt_result snd (do_bgfg os es argv s)"
  by (auto simp: do_bgfg_def kill_def Let_def
      intro!: wt_and_then [OF bgfg_target_wt] wt_and_then [OF set_state_at_wt] wt_and_then [OF job_at_wt] wt
      split: list.splits sum.splits)

lemma eval_wt [wt]:
  assumes "wt_tsh s" "wt_line l"
  shows "wt_result snd (eval os es l s)"
proof (cases "parseline l")
  case (Inr r)
  obtain bg argv where r: "r = (bg, argv)" by fastforce
  show ?thesis
  proof (cases "argv = [] \<or> builtin_cmd os es argv s \<noteq> None")
    case True
    then show ?thesis
      using assms Inr r by (auto simp: eval_def builtin_cmd_def intro!: wt split: if_splits)
  next
    case False
    then show ?thesis using assms Inr r by (auto simp: eval_def Let_def intro!: wt)
  qed
qed (simp add: eval_def)

subsection \<open>main\<close>

lemma tsh0_wt: "wt_tsh tsh0"
  by (simp add: wt_tsh_def tsh0_def wt_job_def no_job_def wt_line_def Parseline.MAXLINE_def)

lemma tsh_options_wt: "wt_tsh s \<Longrightarrow> wt_result snd (tsh_options name ps e s)"
  by (induction name ps e s rule: tsh_options.induct) (auto simp: tsh_usage_def split: opt.splits)

lemma install_handler_wt: "wt_tsh (snd t) \<Longrightarrow> wt_result snd (install_handler env k h t)"
  by (cases t) (simp add: install_handler_def unix_error_def)

lemma fgets_wt: "fgets (line_room) inp = (line, rest, e) \<Longrightarrow> wt_line (c_string line)"
  using fgets_length [of line_room inp line rest e] length_takeWhile_le [of "\<lambda>c. c \<noteq> CHR 0x00" line]
  by (auto simp: wt_line_def c_string_def line_room_def Parseline.MAXLINE_def dest: set_takeWhileD)

lemma tsh_loop_wt: "wt_tsh s \<Longrightarrow> wt_stop (tsh_loop env tab e i inp s)"
proof (induction env tab e i inp s rule: tsh_loop.induct)
  case (1 env tab e i inp s0)
  let ?s = "if e then printf ''tsh> '' s0 else s0"
  obtain line rest at_end where f: "fgets (line_room) inp = (line, rest, at_end)" by (metis prod_cases3)
  let ?r = "and_then (eval (fst (kernel env i)) (dispatched tab (snd (kernel env i))) (c_string line) ?s)
    (\<lambda>(es, s). deliver (fst (kernel env i)) es s)"
  have s: "wt_tsh ?s" using 1(2) by simp
  have r: "wt_result id ?r"
    by (rule wt_and_then [OF eval_wt [OF s fgets_wt [OF f]]]) (auto intro!: wt)
  show ?case
  proof (cases at_end)
    case True
    with s show ?thesis by (simp add: tsh_loop.simps [of env tab e i inp s0] f app_error_def wt_stop_def Let_def)
  next
    case False
    show ?thesis
    proof (cases ?r)
      case (Inl stop)
      with r f False show ?thesis
        by (simp add: tsh_loop.simps [of env tab e i inp s0] wt_result_def Let_def)
    next
      case (Inr s')
      with 1(1) [OF refl f [symmetric] refl, of s'] r f False show ?thesis
        by (simp add: tsh_loop.simps [of env tab e i inp s0] Let_def)
    qed
  qed
qed

lemma tsh_main_wt: "wt_stop (tsh_main env inp)"
proof -
  have "wt_result (\<lambda>(e, tab, s). s) (and_then (tsh_options (tsh_name env) (getopt ''hvp'' (tsh_args env)) True tsh0) (\<lambda>(emit_prompt, s).
        and_then (install_handler env SIGINT Sigint_handler (Map.empty, s)) (\<lambda>t.
        and_then (install_handler env SIGTSTP Sigtstp_handler t) (\<lambda>t.
        and_then (install_handler env SIGCHLD Sigchld_handler t) (\<lambda>t.
        and_then (install_handler env SIGQUIT Sigquit_handler t) (\<lambda>(tab, s). Inr (emit_prompt, tab, initjobs s)))))))"
    by (rule wt_and_then [OF tsh_options_wt [OF tsh0_wt]])
      (auto intro!: wt_and_then [OF install_handler_wt] initjobs_wt)
  then show ?thesis
    by (auto simp: tsh_main_def Let_def wt_result_def intro!: tsh_loop_wt split: sum.splits)
qed

subsection \<open>Accesses outside the table\<close>

definition no_slot :: "int \<Rightarrow> bool" where
  "no_slot k \<longleftrightarrow> k < 1 \<or> int MAXJOBS < k"

text \<open>A control-Z whose target has no slot (without a foreground job, the one in front of the table), and a
  report of \<^verbatim>\<open>waitpid\<close> on a process that has none once those before it are dealt with.\<close>

fun signal_faults :: "os \<Rightarrow> event \<Rightarrow> tsh \<Rightarrow> bool" where
  "signal_faults os (Sigchld reports) s \<longleftrightarrow>
     (\<exists>pre p st post s'. reports = pre @ (p, st) # post \<and> (\<forall>r \<in> set pre. 0 < fst r) \<and>
        handle os (Sigchld pre) s = Inr s' \<and> 0 < p \<and> no_slot (pid2jid s' p))"
| "signal_faults os Sigint s \<longleftrightarrow> False"
| "signal_faults os Sigtstp s \<longleftrightarrow> kill_ok os (- fgpid s) SIGTSTP \<and> no_slot (pid2jid s (fgpid s))"
| "signal_faults os Sigquit s \<longleftrightarrow> False"

text \<open>While the shell waits: it still does after some of the signals, and the next one faults.\<close>

definition wait_faults :: "os \<Rightarrow> int \<Rightarrow> event list \<Rightarrow> tsh \<Rightarrow> bool" where
  "wait_faults os p es s \<longleftrightarrow>
     (\<exists>pre e post s'. es = pre @ e # post \<and> wait_loop os p pre s = Inl Waiting \<and> deliver os pre s = Inr s' \<and>
        signal_faults os e s')"

text \<open>\<^verbatim>\<open>bg\<close> and \<^verbatim>\<open>fg\<close> of a job whose id is not that of a slot: named by the id, or by the process once the signal
  has been sent.\<close>

definition command_faults :: "os \<Rightarrow> string list \<Rightarrow> tsh \<Rightarrow> bool" where
  "command_faults os argv s \<longleftrightarrow>
     (\<exists>cmd arg rest. argv = cmd # arg # rest \<and> (cmd = ''bg'' \<or> cmd = ''fg'') \<and>
        (if first_char arg = CHR ''%'' then getjobjid s (atoi (tl arg)) \<noteq> None \<and> no_slot (atoi (tl arg))
         else let p = atoi (takeWhile is_digit arg) in
           CHR ''0'' \<le> first_char arg \<and> first_char arg \<le> CHR ''9'' \<and> getjobpid s p \<noteq> None \<and>
           kill_ok os (- p) SIGCONT \<and> no_slot (pid2jid s p)))"

text \<open>The evaluation of a line comes to the busy loop of \<^verbatim>\<open>waitfg\<close> for the process \<open>p\<close>, in the state \<open>t\<close>.\<close>

definition waits :: "os \<Rightarrow> string \<Rightarrow> tsh \<Rightarrow> int \<Rightarrow> tsh \<Rightarrow> bool" where
  "waits os l s p t \<longleftrightarrow> wt_tsh t \<and> (\<forall>es. eval os es l s = wait_loop os p es t)"

lemma wt_length: "wt_tsh s \<Longrightarrow> length (jobs s) = MAXJOBS"
  by (simp add: wt_tsh_def)

lemma slot_accesses:
  assumes "wt_tsh s"
  shows "job_at k s = Inl Fault \<longleftrightarrow> no_slot k" "set_state_at k st s = Inl Fault \<longleftrightarrow> no_slot k"
    "job_at k s \<noteq> Inl Waiting" "set_state_at k st s \<noteq> Inl Waiting" "job_at k s \<noteq> Inl (ShellExit c u)"
    "set_state_at k st s \<noteq> Inl (ShellExit c u)"
  using wt_length [OF assms] by (auto simp: job_at_def set_state_at_def no_slot_def)

lemma and_then_Inl:
  "and_then m f = Inl e \<longleftrightarrow> m = Inl e \<or> (\<exists>a. m = Inr a \<and> f a = Inl e)"
  by (cases m) auto

text \<open>One report: it faults without a slot; otherwise it leaves a state.\<close>

lemma reap_one:
  assumes "wt_tsh s" "0 < p"
  shows "\<not> no_slot (pid2jid s p) \<Longrightarrow> \<exists>s'. wt_tsh s' \<and> (\<forall>rest. reap_loop f ((p, st) # rest) s = reap_loop f rest s')"
    and "no_slot (pid2jid s p) \<Longrightarrow> reap_loop f ((p, st) # rest) s = Inl Fault"
proof -
  show "reap_loop f ((p, st) # rest) s = Inl Fault" if "no_slot (pid2jid s p)"
    using assms that slot_accesses(1) [OF assms(1)] by (simp add: Let_def and_then_Inl)
  assume slot: "\<not> no_slot (pid2jid s p)"
  let ?k = "pid2jid s p"
  obtain j where j: "job_at ?k s = Inr j"
    using slot slot_accesses(1,3,5) [OF assms(1), of ?k] by (metis stop.exhaust sum.exhaust)
  define t where "t = (if j_state j = FG then s\<lparr>getIntOrStp := True\<rparr> else s)"
  define m where "m = (case st of
      WStopped sig \<Rightarrow> set_state_at ?k ST (printf (''Job ['' @ show_int (pid2jid t p) @ ''] ('' @ show_int p @ '') stopped by signal ''
        @ show_int sig @ [newline]) t)
    | WSignaled sig \<Rightarrow> Inr (snd (deletejob f (printf (''Job ['' @ show_int (pid2jid t p) @ ''] ('' @ show_int p @ '') terminated by signal ''
        @ show_int SIGINT @ [newline]) t)))
    | WExited c \<Rightarrow> Inr (snd (deletejob f t)))"
  have loop: "reap_loop f ((p, st) # rest) s = and_then m (reap_loop f rest)" for rest
    using assms(2) j unfolding m_def t_def by (simp add: Let_def split del: if_split)
  have t: "wt_tsh t" using assms(1) by (simp add: t_def)
  have wt: "wt_result id m" using t by (auto simp: m_def intro!: wt split: wstatus.split)
  moreover have "\<exists>s'. m = Inr s'"
  proof (cases st)
    case (WStopped sig)
    have "set_state_at ?k ST u \<noteq> Inl e" if "wt_tsh u" for u e
      using slot slot_accesses(2,4,6) [OF that] by (cases e) auto
    then show ?thesis using t by (auto simp: m_def WStopped) (metis sum.exhaust wt_fields(2))
  qed (simp_all add: m_def)
  ultimately obtain s' where "m = Inr s'" "wt_tsh s'" by auto
  with loop show "\<exists>s'. wt_tsh s' \<and> (\<forall>rest. reap_loop f ((p, st) # rest) s = reap_loop f rest s')" by auto
qed

lemma reap_loop_faults:
  "wt_tsh s \<Longrightarrow> reap_loop f reports s \<noteq> Inl Waiting \<and> reap_loop f reports s \<noteq> Inl (ShellExit c u) \<and>
    (reap_loop f reports s = Inl Fault \<longleftrightarrow>
      (\<exists>pre p st post s'. reports = pre @ (p, st) # post \<and> (\<forall>r \<in> set pre. 0 < fst r) \<and>
         reap_loop f pre s = Inr s' \<and> 0 < p \<and> no_slot (pid2jid s' p)))"
proof (induction reports arbitrary: s)
  case (Cons r rest)
  obtain p st where r: "r = (p, st)" by fastforce
  have split: "(\<exists>pre q st' post s'. r # rest = pre @ (q, st') # post \<and> (\<forall>x \<in> set pre. 0 < fst x) \<and>
        reap_loop f pre s = Inr s' \<and> 0 < q \<and> no_slot (pid2jid s' q)) \<longleftrightarrow>
      0 < p \<and> no_slot (pid2jid s p) \<or>
      0 < p \<and> (\<exists>pre q st' post s'. rest = pre @ (q, st') # post \<and> (\<forall>x \<in> set pre. 0 < fst x) \<and>
        reap_loop f (r # pre) s = Inr s' \<and> 0 < q \<and> no_slot (pid2jid s' q))" (is "?lhs \<longleftrightarrow> ?rhs")
  proof
    assume ?lhs
    then obtain pre q st' post s' where *: "r # rest = pre @ (q, st') # post" "\<forall>x \<in> set pre. 0 < fst x"
      "reap_loop f pre s = Inr s'" "0 < q" "no_slot (pid2jid s' q)" by blast
    show ?rhs
    proof (cases pre)
      case Nil
      with * show ?thesis by (simp add: r)
    next
      case (Cons x pre')
      with * have "x = r" "rest = pre' @ (q, st') # post" by simp_all
      with * Cons have "0 < p" "\<forall>x \<in> set pre'. 0 < fst x" "reap_loop f (r # pre') s = Inr s'" by (simp_all add: r)
      with * \<open>rest = _\<close> show ?thesis by blast
    qed
  next
    assume ?rhs
    then show ?lhs
    proof
      assume "0 < p \<and> no_slot (pid2jid s p)"
      then show ?lhs using r by (intro exI [of _ "[]"] exI [of _ p] exI [of _ st] exI [of _ rest] exI [of _ s]) simp
    next
      assume "0 < p \<and> (\<exists>pre q st' post s'. rest = pre @ (q, st') # post \<and> (\<forall>x \<in> set pre. 0 < fst x) \<and>
        reap_loop f (r # pre) s = Inr s' \<and> 0 < q \<and> no_slot (pid2jid s' q))"
      then obtain pre q st' post s' where "0 < p" "rest = pre @ (q, st') # post" "\<forall>x \<in> set pre. 0 < fst x"
        "reap_loop f (r # pre) s = Inr s'" "0 < q" "no_slot (pid2jid s' q)" by blast
      then show ?lhs
        using r by (intro exI [of _ "r # pre"] exI [of _ q] exI [of _ st'] exI [of _ post] exI [of _ s']) simp
    qed
  qed
  show ?case
  proof (cases "0 < p \<and> \<not> no_slot (pid2jid s p)")
    case True
    from reap_one(1) [OF Cons.prems, of p f st] True obtain s' where
      "wt_tsh s'" "\<And>rest. reap_loop f (r # rest) s = reap_loop f rest s'" by (auto simp: r)
    with Cons.IH [of s'] True show ?thesis unfolding split by auto
  next
    case False
    show ?thesis
    proof (cases "0 < p")
      case p: True
      with False have n: "no_slot (pid2jid s p)" by simp
      have "reap_loop f (r # rest) s = Inl Fault" unfolding r by (rule reap_one(2) [OF Cons.prems p n])
      then show ?thesis unfolding split using p n by simp
    next
      case False
      then show ?thesis unfolding split by (simp add: r)
    qed
  qed
qed simp

lemma handle_faults:
  assumes "wt_tsh s"
  shows "handle os e s \<noteq> Inl Waiting \<and> (handle os e s = Inl Fault \<longleftrightarrow> signal_faults os e s)"
proof (cases e)
  case (Sigchld reports)
  have "wt_tsh (s\<lparr>getIntOrStp := False\<rparr>)" using assms by simp
  from reap_loop_faults [OF this, of "fgpid s" reports] show ?thesis by (auto simp: Sigchld sigchld_handler_def)
next
  case Sigtstp
  have "pid2jid (s\<lparr>sent := l\<rparr>) p = pid2jid s p" for l p by (simp add: pid2jid_def split: option.split)
  with Sigtstp show ?thesis
    using slot_accesses(2,4) [of "s\<lparr>sent := sent s @ [(- fgpid s, SIGTSTP)]\<rparr>" "pid2jid s (fgpid s)" ST] assms
    by (auto simp: sigtstp_handler_def kill_def Let_def and_then_Inl)
qed (auto simp: sigint_handler_def sigquit_handler_def kill_def Let_def)

lemma handle_Inr_wt: "wt_tsh s \<Longrightarrow> handle os e s = Inr s' \<Longrightarrow> wt_tsh s'"
  using handle_wt [of s os e] by simp

lemma wait_loop_faults:
  "wt_tsh s \<Longrightarrow> (wait_loop os p es s = Inl Fault \<longleftrightarrow> wait_faults os p es s) \<and>
     (wait_loop os p es s = Inl Waiting \<longrightarrow> (\<exists>s'. deliver os es s = Inr s' \<and> fgpid s' = p))"
proof (induction es arbitrary: s)
  case Nil
  then show ?case by (simp add: wait_faults_def)
next
  case (Cons e es)
  have split: "wait_faults os p (e # es) s \<longleftrightarrow> p = fgpid s \<and>
      (signal_faults os e s \<or> (\<exists>s'. handle os e s = Inr s' \<and> wait_faults os p es s'))" (is "?lhs \<longleftrightarrow> ?rhs")
  proof
    assume ?lhs
    then obtain pre d post s' where *: "e # es = pre @ d # post" "wait_loop os p pre s = Inl Waiting"
      "deliver os pre s = Inr s'" "signal_faults os d s'" by (auto simp: wait_faults_def)
    show ?rhs
    proof (cases pre)
      case Nil
      with * show ?thesis by (auto split: if_splits)
    next
      case (Cons b pre')
      then have p: "p = fgpid s" using *(2) by (auto split: if_splits)
      obtain s1 where "handle os e s = Inr s1" "deliver os pre' s1 = Inr s'" "wait_loop os p pre' s1 = Inl Waiting"
        using * Cons p by (auto simp: and_then_Inr)
      with p * Cons show ?thesis unfolding wait_faults_def by auto
    qed
  next
    assume r: ?rhs
    then consider "signal_faults os e s" | s' where "handle os e s = Inr s'" "wait_faults os p es s'" by blast
    then show ?lhs
    proof cases
      case 1
      then show ?thesis using r unfolding wait_faults_def
        by (intro exI [of _ "[]"] exI [of _ e] exI [of _ es] exI [of _ s]) simp
    next
      case 2
      then obtain pre d post s2 where "es = pre @ d # post" "wait_loop os p pre s' = Inl Waiting"
        "deliver os pre s' = Inr s2" "signal_faults os d s2" by (auto simp: wait_faults_def)
      then show ?thesis using r 2(1) unfolding wait_faults_def
        by (intro exI [of _ "e # pre"] exI [of _ d] exI [of _ post] exI [of _ s2]) simp
    qed
  qed
  show ?case
  proof (cases "p = fgpid s")
    case True
    show ?thesis
    proof (cases "handle os e s")
      case (Inl stop)
      then show ?thesis using True handle_faults [OF Cons.prems, of os e] unfolding split by auto
    next
      case (Inr s')
      then show ?thesis
        using True Cons.IH [OF handle_Inr_wt [OF Cons.prems Inr]] handle_faults [OF Cons.prems, of os e] unfolding split by auto
    qed
  next
    case False
    then show ?thesis unfolding split by simp
  qed
qed

text \<open>The evaluation of a line: the commands, and the two ways to come to \<^verbatim>\<open>waitfg\<close>.\<close>

lemma command_target:
  assumes "wt_tsh s" "cmd = ''bg'' \<or> cmd = ''fg''"
  shows "bgfg_target cmd arg s \<noteq> Inl Waiting" "bgfg_target cmd arg s \<noteq> Inl (ShellExit c u)"
    "command_faults os (cmd # arg # rest) s \<longleftrightarrow> bgfg_target cmd arg s = Inl Fault \<or>
       (\<exists>k p. bgfg_target cmd arg s = Inr (Inr (k, p)) \<and> kill_ok os (- p) SIGCONT \<and> no_slot k)"
proof -
  note slots = slot_accesses(1,3,5) [OF assms(1)]
  show "bgfg_target cmd arg s \<noteq> Inl Waiting" "bgfg_target cmd arg s \<noteq> Inl (ShellExit c u)"
    using slots by (auto simp: bgfg_target_def Let_def and_then_Inl split: option.splits)
  show "command_faults os (cmd # arg # rest) s \<longleftrightarrow> bgfg_target cmd arg s = Inl Fault \<or>
       (\<exists>k p. bgfg_target cmd arg s = Inr (Inr (k, p)) \<and> kill_ok os (- p) SIGCONT \<and> no_slot k)"
  proof (cases "first_char arg = CHR ''%''")
    case True
    then show ?thesis
      using slots assms(2) by (auto simp: command_faults_def bgfg_target_def Let_def and_then_Inl and_then_Inr split: option.splits)
  next
    case False
    then show ?thesis
      using assms(2) by (auto simp: command_faults_def bgfg_target_def Let_def not_less split: option.splits)
  qed
qed

lemma command_outcomes:
  assumes "wt_tsh s" "cmd = ''bg'' \<or> cmd = ''fg''"
  shows "(if command_faults os (cmd # args) s then \<forall>es. do_bgfg os es (cmd # args) s = Inl Fault
    else (\<exists>t. \<forall>es. do_bgfg os es (cmd # args) s = Inr (es, t)) \<or>
      (\<exists>p t. wt_tsh t \<and> (\<forall>es. do_bgfg os es (cmd # args) s = wait_loop os p es t)))"
proof (cases args)
  case Nil
  then show ?thesis by (auto simp: do_bgfg_def command_faults_def)
next
  case (Cons arg rest)
  note T = command_target [OF assms, where arg = arg]
  show ?thesis
  proof (cases "bgfg_target cmd arg s")
    case (Inl e)
    then have "bgfg_target cmd arg s = Inl Fault" using T(1,2) by (cases e) auto
    then show ?thesis using T(3) [of os rest] by (simp add: Cons do_bgfg_def)
  next
    case (Inr r)
    show ?thesis
    proof (cases r)
      case (Inl msg)
      then show ?thesis using T(3) [of os rest] Inr by (auto simp: Cons do_bgfg_def)
    next
      case (Inr kp)
      obtain k p where kp: "kp = (k, p)" by fastforce
      let ?s = "s\<lparr>sent := sent s @ [(- p, SIGCONT)]\<rparr>"
      have t: "bgfg_target cmd arg s = Inr (Inr (k, p))" using Inr kp \<open>bgfg_target cmd arg s = Inr r\<close> by simp
      have faults: "command_faults os (cmd # args) s \<longleftrightarrow> kill_ok os (- p) SIGCONT \<and> no_slot k"
        using T(3) [of os rest] t by (simp add: Cons)
      have s: "wt_tsh ?s" using assms(1) by simp
      show ?thesis
      proof (cases "kill_ok os (- p) SIGCONT \<and> no_slot k")
        case True
        then have "set_state_at k st ?s = Inl Fault" for st using slot_accesses(2) [OF s] by simp
        with True faults show ?thesis by (auto simp: Cons do_bgfg_def t kill_def)
      next
        case False
        show ?thesis
        proof (cases "kill_ok os (- p) SIGCONT")
          case True
          have set: "\<exists>u. set_state_at k st ?s = Inr u \<and> wt_tsh u" for st
            using False True slot_accesses(2,4,6) [OF s, of k st] set_state_at_wt [OF s, of k st]
            by (cases "set_state_at k st ?s") (auto, metis stop.exhaust)
          then obtain u where u: "set_state_at k BG ?s = Inr u" "wt_tsh u" by blast
          moreover have "\<exists>j. job_at k u = Inr j"
            using False True slot_accesses(1,3,5) [OF u(2), of k] by (metis stop.exhaust sum.exhaust)
          moreover obtain v where "set_state_at k FG ?s = Inr v" and v: "wt_tsh (v\<lparr>getIntOrStp := False\<rparr>)" using set by auto
          ultimately have out: "(\<exists>t. \<forall>es. do_bgfg os es (cmd # args) s = Inr (es, t)) \<or>
              (\<forall>es. do_bgfg os es (cmd # args) s = wait_loop os p es (v\<lparr>getIntOrStp := False\<rparr>))"
            using True assms(2) by (auto simp: Cons do_bgfg_def t kill_def waitfg_def)
          have no: "\<not> command_faults os (cmd # args) s" using False faults True by simp
          show ?thesis unfolding if_not_P [OF no] using out v by blast
        next
          case False
          with faults show ?thesis by (auto simp: Cons do_bgfg_def t kill_def)
        qed
      qed
    qed
  qed
qed

lemma eval_outcomes:
  assumes "wt_tsh s" "wt_line l" "parseline l = Inr (bg, argv)"
  shows "if command_faults os argv s then \<forall>es. eval os es l s = Inl Fault
    else (\<exists>r. r \<noteq> Inl Fault \<and> r \<noteq> Inl Waiting \<and> (\<forall>es. eval os es l s = map_sum id (Pair es) r)) \<or> (\<exists>p t. waits os l s p t)"
proof (cases "argv \<noteq> [] \<and> (hd argv = ''bg'' \<or> hd argv = ''fg'')")
  case True
  then obtain cmd args where argv: "argv = cmd # args" "cmd = ''bg'' \<or> cmd = ''fg''" by (cases argv) auto
  then have e: "eval os es l s = do_bgfg os es (cmd # args) s" for es
    using assms(3) by (auto simp: eval_def builtin_cmd_def)
  have "(\<exists>t. \<forall>es. do_bgfg os es (cmd # args) s = Inr (es, t)) \<longleftrightarrow> (\<exists>t. \<forall>es. do_bgfg os es (cmd # args) s = map_sum id (Pair es) (Inr t))"
    by simp
  with command_outcomes [OF assms(1) argv(2), of os args] show ?thesis
    unfolding waits_def e argv(1) by (metis Inr_not_Inl)
next
  case False
  then have "\<not> command_faults os argv s" by (auto simp: command_faults_def)
  moreover have "(\<exists>r. r \<noteq> Inl Fault \<and> r \<noteq> Inl Waiting \<and> (\<forall>es. eval os es l s = map_sum id (Pair es) r)) \<or> (\<exists>p t. waits os l s p t)"
  proof (cases "argv \<noteq> [] \<and> builtin_cmd os [] argv s = None \<and> \<not> bg")
    case True
    let ?t = "(snd (addjob (fork_result os) FG l s))\<lparr>getIntOrStp := False\<rparr>"
    have "wt_tsh ?t" using assms by (simp add: addjob_wt)
    moreover have "eval os es l s = wait_loop os (fork_result os) es ?t" for es
      using True assms(3) by (auto simp: eval_def builtin_cmd_def waitfg_def Let_def split: if_splits)
    ultimately show ?thesis unfolding waits_def by blast
  next
    case no: False
    consider "argv = []" | "argv \<noteq> []" "hd argv = ''quit''" | "argv \<noteq> []" "hd argv = ''jobs''" | "argv \<noteq> []" "builtin_cmd os [] argv s = None" "bg"
      using False no by (auto simp: builtin_cmd_def split: if_splits)
    then show ?thesis
    proof cases
      case 1
      then show ?thesis using assms(3) by (intro disjI1 exI [of _ "Inr s"]) (simp add: eval_def)
    next
      case 2
      then show ?thesis using assms(3) by (intro disjI1 exI [of _ "Inl (ShellExit 0 s)"]) (simp add: eval_def builtin_cmd_def)
    next
      case 3
      then show ?thesis using assms(3) by (intro disjI1 exI [of _ "Inr (listjobs s)"]) (simp add: eval_def builtin_cmd_def)
    next
      case 4
      then have "\<exists>t. \<forall>es. eval os es l s = Inr (es, t)"
        using assms(3) by (auto simp: eval_def builtin_cmd_def Let_def split: if_splits)
      then obtain t where "\<forall>es. eval os es l s = Inr (es, t)" by blast
      then show ?thesis by (intro disjI1 exI [of _ "Inr t"]) simp
    qed
  qed
  ultimately show ?thesis by simp
qed

text \<open>A line faults: it has too many words for \<^verbatim>\<open>argv\<close>, it is a command for a job without a slot, or a signal faults
  while it waits.\<close>

definition line_faults :: "os \<Rightarrow> event list \<Rightarrow> string \<Rightarrow> tsh \<Rightarrow> bool" where
  "line_faults os es l s \<longleftrightarrow>
     (case parseline l of
        Inl _ \<Rightarrow> True
      | Inr (bg, argv) \<Rightarrow> command_faults os argv s \<or> (\<exists>p t. waits os l s p t \<and> wait_faults os p es t))"

lemma eval_faults:
  assumes "wt_tsh s" "wt_line l"
  shows "eval os es l s = Inl Fault \<longleftrightarrow> line_faults os es l s"
    "eval os es l s = Inl Waiting \<Longrightarrow> \<exists>p t s'. waits os l s p t \<and> deliver os es t = Inr s' \<and> fgpid s' = p"
proof -
  have waiting: "(eval os es l s = Inl Fault \<longleftrightarrow> wait_faults os p es t) \<and>
      (eval os es l s = Inl Waiting \<longrightarrow> (\<exists>s'. deliver os es t = Inr s' \<and> fgpid s' = p))" if "waits os l s p t" for p t
    using that wait_loop_faults [of t os p es] by (simp add: waits_def)
  have "(eval os es l s = Inl Fault \<longleftrightarrow> line_faults os es l s) \<and>
      (eval os es l s = Inl Waiting \<longrightarrow> (\<exists>p t s'. waits os l s p t \<and> deliver os es t = Inr s' \<and> fgpid s' = p))"
  proof (cases "parseline l")
    case (Inl e)
    then show ?thesis by (simp add: eval_def line_faults_def)
  next
    case (Inr r)
    obtain bg argv where r: "parseline l = Inr (bg, argv)" using Inr by (cases r) auto
    note O = eval_outcomes [OF assms r, of os]
    show ?thesis
    proof (cases "command_faults os argv s")
      case True
      with O show ?thesis by (simp add: line_faults_def r)
    next
      case False
      with O consider q where "q \<noteq> Inl Fault" "q \<noteq> Inl Waiting" "\<And>es. eval os es l s = map_sum id (Pair es) q"
        | p t where "waits os l s p t" by auto
      then show ?thesis
      proof cases
        case 1
        then have n: "eval os es l s \<noteq> Inl Fault" "eval os es l s \<noteq> Inl Waiting" by (cases q; simp)+
        with waiting have "\<not> (\<exists>p t. waits os l s p t \<and> wait_faults os p es t)" by blast
        with n False show ?thesis by (simp add: line_faults_def r)
      next
        case 2
        then show ?thesis using waiting [OF 2] waiting False unfolding line_faults_def r prod.case sum.case by blast
      qed
    qed
  qed
  then show "eval os es l s = Inl Fault \<longleftrightarrow> line_faults os es l s"
    "eval os es l s = Inl Waiting \<Longrightarrow> \<exists>p t s'. waits os l s p t \<and> deliver os es t = Inr s' \<and> fgpid s' = p"
    by blast+
qed


text \<open>A job is started in the background, another command is typed, and the shell is left; and a control-Z without a foreground job.\<close>

abbreviation sleep_line :: string where "sleep_line \<equiv> ''sleep 5 &'' @ [CHR 0x0A]"
abbreviation sleep_session :: string where "sleep_session \<equiv> sleep_line @ ''jobs'' @ [CHR 0x0A] @ ''quit'' @ [CHR 0x0A]"

lemma sleep_example:
  "case eval (os_ok 100) [] (c_string sleep_line) tsh0 of Inr (es, s) \<Rightarrow> j_pid (jobs s ! 0) = 100 | Inl _ \<Rightarrow> False"
  "case tsh_main quit_env sleep_session of ShellExit c s \<Rightarrow> c = 0 \<and> j_cmdline (jobs s ! 0) = sleep_line | _ \<Rightarrow> False"
  "fgets line_room sleep_session = (sleep_line, ''jobs'' @ [CHR 0x0A] @ ''quit'' @ [CHR 0x0A], False)"
  by code_simp+


end
