(* ===== verification/ShellPrograms.thy ===== *)
theory ShellPrograms
  imports Shell
begin

text \<open>
  The test programs of \<^verbatim>\<open>shelllab\<close> (\<^verbatim>\<open>myspin.c\<close>, \<^verbatim>\<open>myint.c\<close>, \<^verbatim>\<open>mystop.c\<close>, \<^verbatim>\<open>mysplit.c\<close>) as the system
  calls they make: a program is the call it makes next with what it does on each result, or its
  exit. \<^verbatim>\<open>fork\<close> continues twice, in the child with the result 0.
\<close>

datatype syscall =
    Sleep int
  | Getpid
  | Kill int int
  | Fork
  | Wait
  | Write_stderr string

datatype proc = Exit int | Sys syscall "int \<Rightarrow> proc"

text \<open>\<^verbatim>\<open>for (i = 0; i < secs; i++) sleep(1)\<close>.\<close>

fun sleep_loop :: "nat \<Rightarrow> proc \<Rightarrow> proc" where
  "sleep_loop 0 k = k"
| "sleep_loop (Suc n) k = Sys (Sleep 1) (\<lambda>_. sleep_loop n k)"

definition argv0 :: "string list \<Rightarrow> string" where
  "argv0 argv = (case argv of [] \<Rightarrow> ''(null)'' | a # _ \<Rightarrow> a)"

definition usage_exit :: "string list \<Rightarrow> proc" where
  "usage_exit argv = Sys (Write_stderr (''Usage: '' @ argv0 argv @ '' <n>'' @ [newline])) (\<lambda>_. Exit 0)"

definition myspin :: "string list \<Rightarrow> proc" where
  "myspin argv =
     (if length argv \<noteq> 2 then usage_exit argv
      else let secs = atoi (argv ! 1) in sleep_loop (nat secs) (Exit 0))"

definition myint :: "string list \<Rightarrow> proc" where
  "myint argv =
     (if length argv \<noteq> 2 then usage_exit argv
      else let secs = atoi (argv ! 1) in
        sleep_loop (nat secs)
          (Sys Getpid (\<lambda>pid. Sys (Kill pid SIGINT) (\<lambda>r.
             if r < 0 then Sys (Write_stderr ''kill (int) error'') (\<lambda>_. Exit 0) else Exit 0))))"

definition mystop :: "string list \<Rightarrow> proc" where
  "mystop argv =
     (if length argv \<noteq> 2 then usage_exit argv
      else let secs = atoi (argv ! 1) in
        sleep_loop (nat secs)
          (Sys Getpid (\<lambda>pid. Sys (Kill (- pid) SIGTSTP) (\<lambda>r.
             if r < 0 then Sys (Write_stderr ''kill (tstp) error'') (\<lambda>_. Exit 0) else Exit 0))))"

definition mysplit :: "string list \<Rightarrow> proc" where
  "mysplit argv =
     (if length argv \<noteq> 2 then usage_exit argv
      else let secs = atoi (argv ! 1) in
        Sys Fork (\<lambda>r.
          if r = 0 then sleep_loop (nat secs) (Exit 0)
          else Sys Wait (\<lambda>_. Exit 0)))"

definition test_programs :: "(string list \<Rightarrow> proc) list" where
  "test_programs = [myspin, myint, mystop, mysplit]"

subsection \<open>Programs the group semantics covers\<close>

text \<open>A child that only sleeps, writes and exits; a program whose children are such.\<close>

inductive calm :: "proc \<Rightarrow> bool" where
  exit: "calm (Exit c)"
| sleep: "(\<And>r. calm (k r)) \<Longrightarrow> calm (Sys (Sleep n) k)"
| puts: "(\<And>r. calm (k r)) \<Longrightarrow> calm (Sys (Write_stderr m) k)"

inductive_cases calm_Sys: "calm (Sys c k)"

inductive tame :: "proc \<Rightarrow> bool" where
  exit: "tame (Exit c)"
| fork: "calm (k 0) \<Longrightarrow> (\<And>r. r \<noteq> 0 \<Longrightarrow> tame (k r)) \<Longrightarrow> tame (Sys Fork k)"
| other: "c \<noteq> Fork \<Longrightarrow> (\<And>r. tame (k r)) \<Longrightarrow> tame (Sys c k)"

inductive_cases tame_Sys: "tame (Sys c k)"

lemma calm_sleep_loop: "calm k \<Longrightarrow> calm (sleep_loop n k)"
  by (induction n) (auto intro: calm.intros)

lemma tame_sleep_loop: "tame k \<Longrightarrow> tame (sleep_loop n k)"
  by (induction n) (auto intro: tame.intros)

lemma tame_usage: "tame (usage_exit argv)"
  by (auto simp: usage_exit_def intro!: tame.intros)

lemma tame_mysplit: "tame (mysplit argv)"
proof (cases "length argv = 2")
  case True
  have "tame (Sys Fork (\<lambda>r. if r = 0 then sleep_loop n (Exit 0) else Sys Wait (\<lambda>_. Exit 0)))" for n
    by (rule tame.fork) (auto intro: calm_sleep_loop calm.exit tame.other tame.exit)
  with True show ?thesis by (simp add: mysplit_def)
qed (simp add: mysplit_def tame_usage)

lemma tame_programs: "prog \<in> set test_programs \<Longrightarrow> tame (prog argv)"
  by (auto simp: test_programs_def myspin_def myint_def mystop_def Let_def
      intro!: tame_usage tame_mysplit tame_sleep_loop tame.exit tame.other)

end
