(* ===== verification/ShellWorld.thy ===== *)
theory ShellWorld
  imports ShellPrograms ShellProps
begin

text \<open>
  The shell together with the program it runs in the foreground and the keyboard, as a step relation.
  A step is a system call of the program or of its child, a control-C or control-Z that the shell's
  handler passes on to the process group, the delivery of SIGCHLD with what \<^verbatim>\<open>waitpid\<close> reports, or the
  shell's leaving of the busy loop of \<^verbatim>\<open>waitfg\<close>. The group is the program, whose process id is the
  group's, and its children. Keys are typed while the shell has a foreground job.
\<close>

datatype pstat = Running proc | Stopped proc | Zombie

record world =
  sh :: tsh
  leader :: pstat
  kids :: "(int \<times> pstat) list"
  reports :: "(int \<times> wstatus) list"     \<comment> \<open>what \<^verbatim>\<open>waitpid\<close> will report\<close>
  keys :: "event list"                   \<comment> \<open>still to be typed\<close>
  at_prompt :: bool
  handled :: "event list"                \<comment> \<open>the signals the shell has handled\<close>
  stderr_text :: string

text \<open>The default action of the signals that are sent here; a stopped process keeps them pending.\<close>

fun on_signal :: "int \<Rightarrow> pstat \<Rightarrow> pstat" where
  "on_signal sig (Running q) = (if sig = SIGINT then Zombie else if sig = SIGTSTP then Stopped q else Running q)"
| "on_signal sig st = st"

fun status_change :: "int \<Rightarrow> int \<Rightarrow> pstat \<Rightarrow> (int \<times> wstatus) list" where
  "status_change p sig (Running q) =
     (if sig = SIGINT then [(p, WSignaled sig)] else if sig = SIGTSTP then [(p, WStopped sig)] else [])"
| "status_change p sig st = []"

definition signal_leader :: "int \<Rightarrow> int \<Rightarrow> world \<Rightarrow> world" where
  "signal_leader p sig w = w\<lparr>leader := on_signal sig (leader w), reports := reports w @ status_change p sig (leader w)\<rparr>"

definition signal_group :: "int \<Rightarrow> int \<Rightarrow> world \<Rightarrow> world" where
  "signal_group p sig w = (signal_leader p sig w)\<lparr>kids := map (\<lambda>(q, st). (q, on_signal sig st)) (kids w)\<rparr>"

text \<open>A signal of the shell's handlers: what they send to the group arrives there.\<close>

definition newly_sent :: "tsh \<Rightarrow> tsh \<Rightarrow> (int \<times> int) list" where
  "newly_sent s s' = drop (length (sent s)) (sent s')"

definition pass_on :: "int \<Rightarrow> (int \<times> int) list \<Rightarrow> world \<Rightarrow> world" where
  "pass_on p msgs = fold (\<lambda>(target, sig) w. if target = - p then signal_group p sig w else w) msgs"

text \<open>What a child can do next.\<close>

fun kid_next :: "proc \<Rightarrow> (pstat \<times> string) option" where
  "kid_next (Exit c) = Some (Zombie, '''')"
| "kid_next (Sys (Sleep n) k) = Some (Running (k 0), '''')"
| "kid_next (Sys (Write_stderr m) k) = Some (Running (k 0), m)"
| "kid_next (Sys c k) = None"

inductive world_step :: "int \<Rightarrow> os \<Rightarrow> world \<Rightarrow> world \<Rightarrow> bool" for p os where
  exit: "leader w = Running (Exit c) \<Longrightarrow>
    world_step p os w (w\<lparr>leader := Zombie, reports := reports w @ [(p, WExited c)]\<rparr>)"
| sleep: "leader w = Running (Sys (Sleep n) k) \<Longrightarrow> world_step p os w (w\<lparr>leader := Running (k 0)\<rparr>)"
| getpid: "leader w = Running (Sys Getpid k) \<Longrightarrow> world_step p os w (w\<lparr>leader := Running (k p)\<rparr>)"
| puts: "leader w = Running (Sys (Write_stderr m) k) \<Longrightarrow>
    world_step p os w (w\<lparr>leader := Running (k 0), stderr_text := stderr_text w @ m\<rparr>)"
| fork: "leader w = Running (Sys Fork k) \<Longrightarrow> 0 < q \<Longrightarrow> q \<noteq> p \<Longrightarrow> q \<notin> fst ` set (kids w) \<Longrightarrow>
    world_step p os w (w\<lparr>leader := Running (k q), kids := kids w @ [(q, Running (k 0))]\<rparr>)"
| fork_fails: "leader w = Running (Sys Fork k) \<Longrightarrow> world_step p os w (w\<lparr>leader := Running (k (- 1))\<rparr>)"
| wait_kid: "leader w = Running (Sys Wait k) \<Longrightarrow> (q, Zombie) \<in> set (kids w) \<Longrightarrow>
    world_step p os w (w\<lparr>leader := Running (k q), kids := remove1 (q, Zombie) (kids w)\<rparr>)"
| wait_none: "leader w = Running (Sys Wait k) \<Longrightarrow> kids w = [] \<Longrightarrow>
    world_step p os w (w\<lparr>leader := Running (k (- 1))\<rparr>)"
| kill_self: "leader w = Running (Sys (Kill p sig) k) \<Longrightarrow>
    world_step p os w (signal_leader p sig (w\<lparr>leader := Running (k 0)\<rparr>))"
| kill_group: "leader w = Running (Sys (Kill (- p) sig) k) \<Longrightarrow>
    world_step p os w (signal_group p sig (w\<lparr>leader := Running (k 0)\<rparr>))"
| kill_other: "leader w = Running (Sys (Kill t sig) k) \<Longrightarrow> t \<noteq> p \<Longrightarrow> t \<noteq> - p \<Longrightarrow>
    world_step p os w (w\<lparr>leader := Running (k (- 1))\<rparr>)"
| kid: "i < length (kids w) \<Longrightarrow> kids w ! i = (q, Running r) \<Longrightarrow> kid_next r = Some (st, m) \<Longrightarrow>
    world_step p os w (w\<lparr>kids := (kids w)[i := (q, st)], stderr_text := stderr_text w @ m\<rparr>)"
| key: "keys w = e # es \<Longrightarrow> fgpid (sh w) = p \<Longrightarrow> handle os e (sh w) = Inr s' \<Longrightarrow>
    world_step p os w (pass_on p (newly_sent (sh w) s') (w\<lparr>sh := s', keys := es, handled := handled w @ [e]\<rparr>))"
| sigchld: "reports w \<noteq> [] \<Longrightarrow> handle os (Sigchld (reports w)) (sh w) = Inr s' \<Longrightarrow>
    world_step p os w (w\<lparr>sh := s', reports := [], handled := handled w @ [Sigchld (reports w)]\<rparr>)"
| prompt: "\<not> at_prompt w \<Longrightarrow> fgpid (sh w) \<noteq> p \<Longrightarrow> world_step p os w (w\<lparr>at_prompt := True\<rparr>)"

text \<open>When \<open>eval\<close> begins to wait: the program is running, the job is in the table.\<close>

definition waiting :: "int \<Rightarrow> string \<Rightarrow> tsh \<Rightarrow> tsh" where
  "waiting p c s = (snd (addjob p FG c s))\<lparr>getIntOrStp := False\<rparr>"

definition launch :: "int \<Rightarrow> string list \<Rightarrow> (string list \<Rightarrow> proc) \<Rightarrow> event list \<Rightarrow> tsh \<Rightarrow> world" where
  "launch p ws prog ks s =
     \<lparr>sh = waiting p (command_line ws) s, leader = Running (prog ws), kids = [], reports = [], keys = ks,
      at_prompt = False, handled = [], stderr_text = ''''\<rparr>"

subsection \<open>Every run ends\<close>

definition subproc :: "(proc \<times> proc) set" where
  "subproc = {(k r, Sys c k) | k r c. True}"

lemma wf_subproc: "wf subproc"
proof (rule wfUNIVI)
  fix P :: "proc \<Rightarrow> bool" and x
  assume step: "\<forall>x. (\<forall>y. (y, x) \<in> subproc \<longrightarrow> P y) \<longrightarrow> P x"
  show "P x"
  proof (induction x)
    case (Exit c)
    show ?case using step by (auto simp: subproc_def)
  next
    case (Sys c k)
    then have "P y" if "(y, Sys c k) \<in> subproc" for y using that by (auto simp: subproc_def)
    then show ?case using step by blast
  qed
qed

definition running :: "pstat \<Rightarrow> proc multiset" where
  "running st = (case st of Running q \<Rightarrow> {#q#} | _ \<Rightarrow> {#})"

lemma running_simps [simp]: "running (Running q) = {#q#}" "running (Stopped q) = {#}" "running Zombie = {#}"
  by (simp_all add: running_def)

definition processes :: "world \<Rightarrow> proc multiset" where
  "processes w = running (leader w) + sum_list (map (\<lambda>(q, st). running st) (kids w))"

definition to_come :: "world \<Rightarrow> nat" where
  "to_come w = length (keys w) + length (reports w) + (if at_prompt w then 0 else 1)"

definition progress :: "(world \<times> world) set" where
  "progress = inv_image (mult subproc <*lex*> less_than) (\<lambda>w. (processes w, to_come w))"

lemma wf_progress: "wf progress"
  by (simp add: progress_def wf_mult wf_subproc wf_inv_image wf_lex_prod)

text \<open>A signal takes processes away or changes nothing that is counted.\<close>

definition fewer :: "world \<Rightarrow> world \<Rightarrow> bool" where
  "fewer w' w \<longleftrightarrow> keys w' = keys w \<and> at_prompt w' = at_prompt w \<and>
     (processes w' \<subset># processes w \<or> processes w' = processes w \<and> reports w' = reports w)"

lemma fewer_refl: "fewer w w"
  by (simp add: fewer_def)

lemma fewer_trans: "fewer w1 w2 \<Longrightarrow> fewer w2 w3 \<Longrightarrow> fewer w1 w3"
  by (auto simp: fewer_def)

lemma running_on_signal: "running (on_signal sig st) \<subseteq># running st"
  by (cases st) auto

lemma status_change_nil: "running (on_signal sig st) = running st \<Longrightarrow> status_change p sig st = []"
  by (cases st) (auto split: if_splits)

lemma kids_on_signal:
  "sum_list (map (\<lambda>(q, st). running st) (map (\<lambda>(q, st). (q, on_signal sig st)) ks)) \<subseteq>#
   sum_list (map (\<lambda>(q, st). running st) ks)"
  by (induction ks) (auto intro: subset_mset.add_mono running_on_signal)

lemma fewer_signal: "fewer (signal_leader p sig w) w" "fewer (signal_group p sig w) w"
proof -
  have le: "running (on_signal sig (leader w)) \<subseteq># running (leader w)" by (rule running_on_signal)
  show "fewer (signal_leader p sig w) w"
  proof (cases "running (on_signal sig (leader w)) = running (leader w)")
    case True
    with status_change_nil [OF True] show ?thesis by (simp add: fewer_def signal_leader_def processes_def)
  next
    case False
    with le have "running (on_signal sig (leader w)) \<subset># running (leader w)" by (simp add: subset_mset.less_le)
    then show ?thesis by (simp add: fewer_def signal_leader_def processes_def)
  qed
  note kids = kids_on_signal [of sig "kids w"]
  show "fewer (signal_group p sig w) w"
  proof (cases "running (on_signal sig (leader w)) = running (leader w)")
    case True
    with status_change_nil [OF True] kids show ?thesis
      by (auto simp: fewer_def signal_group_def signal_leader_def processes_def subset_mset.le_less)
  next
    case False
    with le have "running (on_signal sig (leader w)) \<subset># running (leader w)" by (simp add: subset_mset.less_le)
    with kids show ?thesis
      by (simp add: fewer_def signal_group_def signal_leader_def processes_def subset_mset.add_less_le_mono)
  qed
qed

lemma fewer_pass_on: "fewer (pass_on p msgs w) w"
proof (induction msgs arbitrary: w)
  case (Cons m msgs)
  obtain t sig where m: "m = (t, sig)" by fastforce
  have "pass_on p (m # msgs) w = pass_on p msgs (if t = - p then signal_group p sig w else w)"
    by (simp add: pass_on_def m)
  with Cons [of "if t = - p then signal_group p sig w else w"] show ?case
    using fewer_trans [OF _ fewer_signal(2)] by (auto split: if_splits)
qed (simp add: pass_on_def fewer_refl)

lemma progress_mult: "(processes w', processes w) \<in> mult subproc \<Longrightarrow> (w', w) \<in> progress"
  by (simp add: progress_def)

lemma progress_same: "processes w' = processes w \<Longrightarrow> to_come w' < to_come w \<Longrightarrow> (w', w) \<in> progress"
  by (simp add: progress_def)

lemma progress_fewer: "fewer w' w \<Longrightarrow> (w, w0) \<in> progress \<Longrightarrow> (w', w0) \<in> progress"
proof -
  assume f: "fewer w' w" and w: "(w, w0) \<in> progress"
  show "(w', w0) \<in> progress"
  proof (cases "processes w' \<subset># processes w")
    case True
    then have "(processes w', processes w) \<in> mult subproc" by (rule subset_implies_mult)
    with w show ?thesis by (auto simp: progress_def mult_def intro: trancl_trans)
  qed (use f w in \<open>auto simp: fewer_def progress_def to_come_def\<close>)
qed

lemma one_process: "(M + {#k r#}, M + {#Sys c k#}) \<in> mult subproc"
  by (rule one_step_implies_mult) (auto simp: subproc_def)

lemma progress_leader:
  assumes "leader w = Running (Sys c k)" "leader w' = Running (k r)"
    "sum_list (map (\<lambda>(q, st). running st) (kids w')) = sum_list (map (\<lambda>(q, st). running st) (kids w))"
  shows "(w', w) \<in> progress"
  using one_process [of "sum_list (map (\<lambda>(q, st). running st) (kids w))" k r c] assms
  by (intro progress_mult) (simp add: processes_def add.commute)

lemma running_remove1:
  "running (snd x) = {#} \<Longrightarrow> sum_list (map (\<lambda>(q, st). running st) (remove1 x ks)) = sum_list (map (\<lambda>(q, st). running st) ks)"
  by (induction ks) auto

lemma running_update:
  "i < length ks \<Longrightarrow> sum_list (map (\<lambda>(q, st). running st) (ks[i := x])) + running (snd (ks ! i)) =
   sum_list (map (\<lambda>(q, st). running st) ks) + running (snd x)"
  by (induction ks arbitrary: i) (auto simp: nth_Cons ac_simps split: nat.splits prod.splits)

lemma kid_next_mult: "kid_next r = Some (st, m) \<Longrightarrow> (M + running st, M + {#r#}) \<in> mult subproc"
  using one_process [of M] by (cases r rule: kid_next.cases) (auto intro: subset_implies_mult)

lemma step_progress: "world_step p os w w' \<Longrightarrow> (w', w) \<in> progress"
proof (induction rule: world_step.induct)
  case (exit w c)
  then show ?case by (intro progress_mult subset_implies_mult) (simp add: processes_def)
next
  case (fork w k q)
  have "(sum_list (map (\<lambda>(q, st). running st) (kids w)) + {#k 0, k q#},
      sum_list (map (\<lambda>(q, st). running st) (kids w)) + {#Sys Fork k#}) \<in> mult subproc"
    by (rule one_step_implies_mult) (auto simp: subproc_def)
  then show ?case using fork by (intro progress_mult) (simp add: processes_def ac_simps)
next
  case (wait_kid w k q)
  then show ?case by (intro progress_leader [of _ Wait k _ q]) (auto intro: running_remove1)
next
  case (kill_self w sig k)
  show ?case by (rule progress_fewer [OF fewer_signal(1)], rule progress_leader [OF kill_self]) simp_all
next
  case (kill_group w sig k)
  show ?case by (rule progress_fewer [OF fewer_signal(2)], rule progress_leader [OF kill_group]) simp_all
next
  case (kid i w q r st m)
  let ?N = "sum_list (map (\<lambda>(q, st). running st) ((kids w)[i := (q, Zombie)]))"
  have e1: "?N + {#r#} = sum_list (map (\<lambda>(q, st). running st) (kids w))"
    using running_update [OF kid(1), of "(q, Zombie)"] kid(2) by simp
  have e2: "?N + running st = sum_list (map (\<lambda>(q, st). running st) ((kids w)[i := (q, st)]))"
    using running_update [of i "(kids w)[i := (q, Zombie)]" "(q, st)"] kid(1) by simp
  have "(running (leader w) + (?N + running st), running (leader w) + (?N + {#r#})) \<in> mult subproc"
    using kid_next_mult [OF kid(3), of "running (leader w) + ?N"] by (simp only: add.assoc)
  then show ?case unfolding e1 e2 by (intro progress_mult) (simp add: processes_def)
next
  case (key w e es s')
  have "(w\<lparr>sh := s', keys := es, handled := handled w @ [e]\<rparr>, w) \<in> progress"
    using key by (intro progress_same) (simp_all add: processes_def to_come_def)
  then show ?case by (rule progress_fewer [OF fewer_pass_on])
next
  case (sigchld w s')
  then show ?case by (intro progress_same) (simp_all add: processes_def to_come_def)
next
  case (prompt w)
  then show ?case by (intro progress_same) (simp_all add: processes_def to_come_def)
qed (auto intro: progress_leader)

subsection \<open>The shell during the episode\<close>

text \<open>A state in which the shell can start a foreground job: the table is well formed, the process is new,
  and the next job id is the one of the first free slot.\<close>

definition can_launch :: "int \<Rightarrow> tsh \<Rightarrow> bool" where
  "can_launch p s \<longleftrightarrow> jobs_ok s \<and> 0 < p \<and> job_of s p = None \<and> fgpid s = 0 \<and>
     1 \<le> nextjid s \<and> nextjid s \<le> 16 \<and> first_slot (\<lambda>j. j_pid j = 0) (jobs s) = Some (nat (nextjid s - 1))"

definition job_in :: "int \<Rightarrow> string \<Rightarrow> tsh \<Rightarrow> job_state \<Rightarrow> tsh \<Rightarrow> bool" where
  "job_in p c s st t \<longleftrightarrow> jobs t = (jobs s)[nat (nextjid s - 1) := (new_job p FG c s)\<lparr>j_state := st\<rparr>] \<and> 0 < nextjid t"

lemma launch_facts:
  assumes "can_launch p s"
  shows "length (jobs s) = 16" "nat (nextjid s - 1) < 16" "j_pid (jobs s ! nat (nextjid s - 1)) = 0"
    "\<And>j. j \<in> set (jobs s) \<Longrightarrow> j_state j \<noteq> FG \<and> j_pid j \<noteq> p"
proof -
  have ok: "jobs_ok s" using assms by (simp add: can_launch_def)
  then show len: "length (jobs s) = 16" by (simp add: jobs_ok_def MAXJOBS_def)
  show "nat (nextjid s - 1) < 16" using assms unfolding can_launch_def by linarith
  show "j_pid (jobs s ! nat (nextjid s - 1)) = 0" using assms by (auto simp: can_launch_def dest: first_slot_SomeD)
  fix j assume j: "j \<in> set (jobs s)"
  have "j_pid j \<noteq> p" using assms j job_of_None [OF ok, of p] by (auto simp: can_launch_def)
  moreover have "j_state j \<noteq> FG"
  proof
    assume fg: "j_state j = FG"
    with j first_slot_None [of "\<lambda>j. j_state j = FG" "jobs s"] obtain k
      where k: "first_slot (\<lambda>j. j_state j = FG) (jobs s) = Some k" by force
    note d = first_slot_SomeD [OF k]
    have "0 < j_pid (jobs s ! k)" using ok d by (force simp: jobs_ok_def empty_slot_def)
    then show False using assms k by (simp add: can_launch_def fgpid_def)
  qed
  ultimately show "j_state j \<noteq> FG \<and> j_pid j \<noteq> p" by simp
qed

lemma only_slot:
  assumes "i < length js" "P x" "\<And>j. j \<in> set js \<Longrightarrow> \<not> P j"
  shows "first_slot P (js[i := x]) = Some i"
  using assms by (auto simp: first_slot_Some)

lemma job_in_slot:
  assumes l: "can_launch p s" and j: "job_in p c s st t"
  shows "jobs t ! nat (nextjid s - 1) = (new_job p FG c s)\<lparr>j_state := st\<rparr>"
    "first_slot (\<lambda>j. j_pid j = p) (jobs t) = Some (nat (nextjid s - 1))"
    "set (jobs t) \<subseteq> insert ((new_job p FG c s)\<lparr>j_state := st\<rparr>) (set (jobs s))" "length (jobs t) = 16"
proof -
  note f = launch_facts [OF l] and jobs = j [unfolded job_in_def, THEN conjunct1]
  show "jobs t ! nat (nextjid s - 1) = (new_job p FG c s)\<lparr>j_state := st\<rparr>" using f(1,2) by (simp add: jobs)
  show "first_slot (\<lambda>j. j_pid j = p) (jobs t) = Some (nat (nextjid s - 1))"
    using f(1,2) f(4) by (simp add: jobs only_slot new_job_def)
  show "set (jobs t) \<subseteq> insert ((new_job p FG c s)\<lparr>j_state := st\<rparr>) (set (jobs s))" "length (jobs t) = 16"
    using f(1) by (simp_all add: jobs set_update_subset_insert)
qed

lemma job_in_fgpid:
  assumes l: "can_launch p s" and j: "job_in p c s st t"
  shows "fgpid t = (if st = FG then p else 0)"
proof (cases "st = FG")
  case True
  note f = launch_facts [OF l] and slot = job_in_slot [OF l j]
  have "first_slot (\<lambda>j. j_state j = FG) (jobs t) = Some (nat (nextjid s - 1))"
    using f(1,2) f(4) True j by (simp add: job_in_def only_slot)
  with True slot(1) show ?thesis by (simp add: fgpid_def new_job_def)
next
  case False
  have "first_slot (\<lambda>j. j_state j = FG) (jobs t) = None"
    using launch_facts(4) [OF l] job_in_slot(3) [OF l j] False by (auto simp: first_slot_None)
  with False show ?thesis by (simp add: fgpid_def)
qed

lemma job_in_lookup:
  assumes l: "can_launch p s" and j: "job_in p c s st t"
  shows "pid2jid t p = nextjid s" "job_at (nextjid s) t = Inr ((new_job p FG c s)\<lparr>j_state := st\<rparr>)"
    "set_state_at (nextjid s) st' t = Inr (t\<lparr>jobs := (jobs s)[nat (nextjid s - 1) := (new_job p FG c s)\<lparr>j_state := st'\<rparr>]\<rparr>)"
proof -
  have p: "0 < p" "1 \<le> nextjid s" "nextjid s \<le> 16" using l by (simp_all add: can_launch_def)
  note slot = job_in_slot [OF l j]
  show "pid2jid t p = nextjid s" using p(1) by (simp add: pid2jid_def slot(1,2)) (simp add: new_job_def)
  show "job_at (nextjid s) t = Inr ((new_job p FG c s)\<lparr>j_state := st\<rparr>)"
    using p(2,3) slot(1,4) by (simp add: job_at_def)
  show "set_state_at (nextjid s) st' t = Inr (t\<lparr>jobs := (jobs s)[nat (nextjid s - 1) := (new_job p FG c s)\<lparr>j_state := st'\<rparr>]\<rparr>)"
    using p(2,3) slot(1,4) j by (simp add: set_state_at_def job_in_def)
qed

lemma job_in_table:
  assumes l: "can_launch p s" and j: "job_in p c s st t" "st \<noteq> UNDEF"
  shows "jobs_ok t" "job_of t = (job_of s)(p \<mapsto> (new_job p FG c s)\<lparr>j_state := st\<rparr>)"
proof -
  let ?i = "nat (nextjid s - 1)" and ?j = "(new_job p FG c s)\<lparr>j_state := st\<rparr>"
  note f = launch_facts [OF l] and slot = job_in_slot [OF l j(1)]
  have ok: "jobs_ok s" and p: "0 < p" "1 \<le> nextjid s" using l by (simp_all add: can_launch_def)
  have ms: "mset (live_jobs t) = add_mset ?j (mset (live_jobs s))"
    using live_update_empty [of ?i "jobs s" ?j] f(1-3) p(1) j(1) by (simp add: live_jobs_def job_in_def new_job_def)
  have "distinct (map j_pid (live_jobs t))"
    using mset_live_distinct [OF ms] f(4) ok by (auto simp: new_job_def jobs_ok_def live_jobs_def)
  moreover have "empty_slot x \<or> 0 < j_pid x \<and> 0 < j_jid x \<and> j_state x \<noteq> UNDEF" if "x \<in> set (jobs t)" for x
    using that slot(3) ok p j(2) by (auto simp: jobs_ok_def new_job_def)
  ultimately show okt: "jobs_ok t" using j(1) slot(4) by (simp add: jobs_ok_def job_in_def MAXJOBS_def)
  have "job_of t q = ((job_of s)(p \<mapsto> ?j)) q" for q
  proof (cases "q = p")
    case True
    then show ?thesis using p(1) by (simp add: job_of_def getjobpid_def slot(1,2))
  next
    case False
    show ?thesis
    proof (cases "0 < q")
      case True
      have "job_of t q = Some x \<longleftrightarrow> job_of s q = Some x" for x
      proof -
        have "(x \<in> set (live_jobs t) \<and> j_pid x = q) = (x \<in> set (live_jobs s) \<and> j_pid x = q)"
          using arg_cong [OF ms, of set_mset] False by (auto simp: new_job_def)
        then show ?thesis
          using live_set [OF okt True, of x] live_set [OF ok True, of x] True
          by (simp add: job_of_Some [OF okt] job_of_Some [OF ok])
      qed
      then have "job_of t q = job_of s q" by (metis option.exhaust)
      with False show ?thesis by simp
    qed (use False in \<open>simp add: job_of_def getjobpid_def\<close>)
  qed
  then show "job_of t = (job_of s)(p \<mapsto> ?j)" by blast
qed

lemma waiting_job_in:
  assumes "can_launch p s"
  shows "job_in p c s FG (waiting p c s)"
proof -
  have "0 < nextjid s" "0 < p" "first_slot (\<lambda>j. j_pid j = 0) (jobs s) = Some (nat (nextjid s - 1))"
    using assms by (simp_all add: can_launch_def)
  moreover have j: "(jobs s ! i)\<lparr>j_pid := p, j_state := FG, j_jid := k, j_cmdline := c\<rparr> =
      (new_job p FG c s)\<lparr>j_jid := k, j_state := FG\<rparr>" for i k by (simp add: new_job_def)
  ultimately show ?thesis
    unfolding job_in_def waiting_def addjob_def Let_def j by (simp add: new_job_def)
qed

text \<open>The handlers on such a state.\<close>

lemma key_sigint:
  assumes l: "can_launch p s" and j: "job_in p c s FG t" and k: "kill_ok os (- p) SIGINT"
  shows "handle os Sigint t = Inr (t\<lparr>sent := sent t @ [(- p, SIGINT)]\<rparr>)"
    "job_in p c s FG (t\<lparr>sent := sent t @ [(- p, SIGINT)]\<rparr>)"
  using job_in_fgpid [OF l j] j k by (simp_all add: sigint_handler_def kill_def Let_def job_in_def)

lemma key_sigtstp:
  assumes l: "can_launch p s" and j: "job_in p c s FG t" and k: "kill_ok os (- p) SIGTSTP"
  shows "\<exists>t'. handle os Sigtstp t = Inr t' \<and> job_in p c s ST t' \<and> sent t' = sent t @ [(- p, SIGTSTP)]"
proof -
  have "job_in p c s FG (t\<lparr>sent := x\<rparr>)" for x using j by (simp add: job_in_def)
  note f = job_in_fgpid [OF l j] and f' = job_in_lookup(1,3) [OF l this]
  show ?thesis
    using f k f' j by (simp add: sigtstp_handler_def kill_def Let_def job_in_def)
qed

lemma reap_none: "reap_loop f [] = Inr"
  by (rule ext) simp

lemma chld_stopped:
  assumes l: "can_launch p s" and j: "job_in p c s st t" "st \<noteq> UNDEF"
  shows "\<exists>t'. handle os (Sigchld [(p, WStopped sig)]) t = Inr t' \<and> job_in p c s ST t'"
proof -
  let ?t0 = "t\<lparr>getIntOrStp := False\<rparr>" and ?t1 = "t\<lparr>getIntOrStp := True\<rparr>"
  have p: "0 < p" using l by (simp add: can_launch_def)
  have j0: "job_in p c s st ?t0" and j1: "job_in p c s st ?t1" using j(1) by (simp_all add: job_in_def)
  define u where "u = (if st = FG then ?t0\<lparr>getIntOrStp := True\<rparr> else ?t0)"
  define m where "m = ''Job ['' @ show_int (nextjid s) @ ''] ('' @ show_int p @ '') stopped by signal '' @ show_int sig @ [newline]"
  have ju: "job_in p c s st u" using j(1) by (simp add: job_in_def u_def)
  then have jm: "job_in p c s st (printf m u)" by (simp add: job_in_def)
  have "handle os (Sigchld [(p, WStopped sig)]) t = and_then (set_state_at (nextjid s) ST (printf m u)) Inr"
    using p job_in_lookup(1,2) [OF l j0] job_in_lookup(1) [OF l ju]
    by (simp add: sigchld_handler_def Let_def m_def u_def reap_none)
  with job_in_lookup(3) [OF l jm, of ST] jm show ?thesis by (simp add: job_in_def)
qed

lemma chld_ended:
  assumes l: "can_launch p s" and j: "job_in p c s FG t" and e: "ended status"
  shows "\<exists>t'. handle os (Sigchld [(p, status)]) t = Inr t' \<and> job_of t' = job_of s \<and> fgpid t' \<noteq> p"
proof -
  have "FG \<noteq> UNDEF" by simp
  note f = job_in_table [OF l j this] and fg = job_in_fgpid [OF l j]
  have p: "0 < p" "nextjid s \<le> 16" "job_of s p = None" using l by (simp_all add: can_launch_def)
  from reap_ended [OF f(1), of p _ status] f(2) e p(2) obtain t' where
    t': "sigchld_handler [(p, status)] t = Inr t'" "jobs_ok t'" "job_of t' = (job_of t)(fgpid t := None)"
    by (auto simp: new_job_def)
  have "job_of t' = job_of s" using t'(3) fg f(2) p(3) by auto
  moreover have "fgpid t' \<noteq> p" using fgpid_job [OF t'(2), of p] calculation p by auto
  ultimately show ?thesis using t'(1) by simp
qed

text \<open>After control-Z the handler finds no foreground job: the entry stays.\<close>

lemma chld_ended_late:
  assumes l: "can_launch p s" and j: "job_in p c s ST t" and e: "ended status"
  shows "\<exists>t'. handle os (Sigchld [(p, status)]) t = Inr t' \<and> job_in p c s ST t'"
proof -
  have p: "0 < p" using l by (simp add: can_launch_def)
  have "job_in p c s ST (t\<lparr>getIntOrStp := False\<rparr>)" using j by (simp add: job_in_def)
  note f0 = job_in_lookup(1,2) [OF l this] and f = job_in_fgpid [OF l j] job_in_lookup(1) [OF l j]
  show ?thesis
  proof (cases status)
    case (WExited c)
    then show ?thesis using p f f0 j by (simp add: sigchld_handler_def deletejob_def job_in_def)
  next
    case (WSignaled sig)
    then show ?thesis using p f f0 j by (simp add: sigchld_handler_def deletejob_def job_in_def)
  qed (use e in \<open>simp add: ended_def\<close>)
qed

subsection \<open>The invariant of an episode\<close>

lemma deliver_append: "deliver os (es @ [e]) s = and_then (deliver os es s) (handle os e)"
  by (induction es arbitrary: s) (auto simp: and_then_def split: sum.splits)

text \<open>What is still to be reported, for each state of the program.\<close>

fun report_due :: "int \<Rightarrow> pstat \<Rightarrow> (int \<times> wstatus) list \<Rightarrow> bool" where
  "report_due p (Running q) rs \<longleftrightarrow> rs = []"
| "report_due p (Stopped q) rs \<longleftrightarrow> (\<exists>sig. rs = [(p, WStopped sig)])"
| "report_due p Zombie rs \<longleftrightarrow> (\<exists>st. ended st \<and> rs = [(p, st)])"

definition in_front :: "int \<Rightarrow> string \<Rightarrow> tsh \<Rightarrow> world \<Rightarrow> bool" where
  "in_front p c s w \<longleftrightarrow> job_in p c s FG (sh w) \<and> \<not> at_prompt w \<and> report_due p (leader w) (reports w)"

definition put_back :: "int \<Rightarrow> string \<Rightarrow> tsh \<Rightarrow> world \<Rightarrow> bool" where
  "put_back p c s w \<longleftrightarrow> job_in p c s ST (sh w) \<and> (\<forall>q. leader w \<noteq> Running q) \<and>
     (reports w = [] \<or> report_due p (leader w) (reports w)) \<and> (leader w = Zombie \<longrightarrow> Sigtstp \<in> set (handled w))"

definition finished :: "int \<Rightarrow> tsh \<Rightarrow> world \<Rightarrow> bool" where
  "finished p s w \<longleftrightarrow> job_of (sh w) = job_of s \<and> fgpid (sh w) \<noteq> p \<and> leader w = Zombie \<and> reports w = []"

definition group_ok :: "world \<Rightarrow> bool" where
  "group_ok w \<longleftrightarrow> (\<forall>q. leader w = Running q \<longrightarrow> tame q \<and>
     (\<forall>(k, st) \<in> set (kids w). st = Zombie \<or> (\<exists>r. st = Running r \<and> calm r)))"

definition history_ok :: "int \<Rightarrow> os \<Rightarrow> string \<Rightarrow> tsh \<Rightarrow> event list \<Rightarrow> world \<Rightarrow> bool" where
  "history_ok p os c s ks w \<longleftrightarrow> deliver os (handled w) (waiting p c s) = Inr (sh w) \<and>
     set (keys w) \<subseteq> set ks \<and> (Sigtstp \<in> set (handled w) \<longrightarrow> Sigtstp \<in> set ks)"

definition episode :: "int \<Rightarrow> os \<Rightarrow> string \<Rightarrow> tsh \<Rightarrow> event list \<Rightarrow> world \<Rightarrow> bool" where
  "episode p os c s ks w \<longleftrightarrow> (in_front p c s w \<or> put_back p c s w \<or> finished p s w) \<and> group_ok w \<and> history_ok p os c s ks w"

lemmas episode_defs = episode_def in_front_def put_back_def finished_def group_ok_def history_ok_def

text \<open>A system call of the program: the shell's side is unchanged, and the program was in front.\<close>

lemma call_episode:
  assumes "episode p os c s ks w" "leader w = Running q"
    "sh w' = sh w" "keys w' = keys w" "handled w' = handled w" "at_prompt w' = at_prompt w"
    "report_due p (leader w') (reports w')" "group_ok w'"
  shows "episode p os c s ks w'"
  using assms by (auto simp: episode_def in_front_def put_back_def finished_def history_ok_def)

lemma episode_leader:
  assumes "episode p os c s ks w" "leader w = Running q"
  shows "reports w = []" "tame q" "\<forall>(k, st) \<in> set (kids w). st = Zombie \<or> (\<exists>r. st = Running r \<and> calm r)"
  using assms by (auto simp: episode_defs)

lemma due_signal: "report_due p (on_signal sig (Running q)) (status_change p sig (Running q))"
  by (auto simp: ended_def)

lemma due_signal_again: "report_due p st rs \<Longrightarrow> report_due p (on_signal sig st) (rs @ status_change p sig st)"
  using due_signal [of p sig] by (cases st) auto

lemma on_signal_Running: "on_signal sig st = Running q \<longleftrightarrow> st = Running q \<and> sig \<noteq> SIGINT \<and> sig \<noteq> SIGTSTP"
  by (cases st) auto

lemma on_signal_other: "sig \<noteq> SIGINT \<Longrightarrow> sig \<noteq> SIGTSTP \<Longrightarrow> on_signal sig st = st"
  by (cases st) auto

lemma group_ok_signal: "group_ok w \<Longrightarrow> group_ok (signal_leader p sig w)" "group_ok w \<Longrightarrow> group_ok (signal_group p sig w)"
  by (auto simp: group_ok_def signal_group_def signal_leader_def on_signal_Running on_signal_other)

lemma signal_fields [simp]:
  "sh (signal_group p sig w) = sh w" "keys (signal_group p sig w) = keys w" "handled (signal_group p sig w) = handled w"
  "at_prompt (signal_group p sig w) = at_prompt w" "leader (signal_group p sig w) = on_signal sig (leader w)"
  "reports (signal_group p sig w) = reports w @ status_change p sig (leader w)"
  "sh (signal_leader p sig w) = sh w" "keys (signal_leader p sig w) = keys w" "handled (signal_leader p sig w) = handled w"
  "at_prompt (signal_leader p sig w) = at_prompt w" "leader (signal_leader p sig w) = on_signal sig (leader w)"
  "reports (signal_leader p sig w) = reports w @ status_change p sig (leader w)"
  by (simp_all add: signal_group_def signal_leader_def)

lemma kid_calm: "calm r \<Longrightarrow> \<exists>st m. kid_next r = Some (st, m)"
  by (cases r rule: kid_next.cases) (auto elim: calm_Sys)

lemma kid_next_calm: "calm r \<Longrightarrow> kid_next r = Some (st, m) \<Longrightarrow> st = Zombie \<or> (\<exists>r'. st = Running r' \<and> calm r')"
  by (cases r rule: kid_next.cases) (auto elim: calm_Sys)

lemma key_episode:
  assumes l: "can_launch p s" and kill: "kill_ok os (- p) SIGINT" "kill_ok os (- p) SIGTSTP"
    and inv: "episode p os c s ks w" and ks: "set ks \<subseteq> {Sigint, Sigtstp}"
    and step: "keys w = e # es" "fgpid (sh w) = p" "handle os e (sh w) = Inr s'"
  shows "episode p os c s ks (pass_on p (newly_sent (sh w) s') (w\<lparr>sh := s', keys := es, handled := handled w @ [e]\<rparr>))"
proof -
  have p: "0 < p" using l by (simp add: can_launch_def)
  have front: "in_front p c s w"
    using inv step(2) job_in_fgpid [OF l, of c ST "sh w"] p by (auto simp: episode_def put_back_def finished_def)
  then have j: "job_in p c s FG (sh w)" by (simp add: in_front_def)
  have hist: "deliver os (handled w @ [e]) (waiting p c s) = Inr s'"
    using inv step(3) by (simp add: deliver_append episode_def history_ok_def)
  have e: "e = Sigint \<or> e = Sigtstp" "set es \<subseteq> set ks" "e \<in> set ks"
    using inv step(1) ks by (auto simp: episode_def history_ok_def)
  have g: "group_ok (w\<lparr>sh := s', keys := es, handled := handled w @ [e]\<rparr>)" using inv by (simp add: episode_def group_ok_def)
  from e(1) show ?thesis
  proof
    assume e': "e = Sigint"
    then have s': "s' = (sh w)\<lparr>sent := sent (sh w) @ [(- p, SIGINT)]\<rparr>" "job_in p c s FG s'"
      using key_sigint [OF l j kill(1)] step(3) by simp_all
    then show ?thesis
      using front g hist e e' inv
      by (auto simp: episode_def in_front_def history_ok_def newly_sent_def pass_on_def
          intro: group_ok_signal due_signal_again)
  next
    assume e': "e = Sigtstp"
    then have s': "job_in p c s ST s'" "sent s' = sent (sh w) @ [(- p, SIGTSTP)]"
      using key_sigtstp [OF l j kill(2)] step(3) by auto
    then show ?thesis
      using front g hist e e' due_signal_again [of p "leader w" "reports w" SIGTSTP]
      by (auto simp: episode_def in_front_def put_back_def history_ok_def newly_sent_def pass_on_def on_signal_Running
          intro: group_ok_signal)
  qed
qed

lemma sigchld_episode:
  assumes l: "can_launch p s" and inv: "episode p os c s ks w" and r: "reports w \<noteq> []"
  shows "\<exists>s'. handle os (Sigchld (reports w)) (sh w) = Inr s' \<and>
    episode p os c s ks (w\<lparr>sh := s', reports := [], handled := handled w @ [Sigchld (reports w)]\<rparr>)"
proof -
  have hist: "handle os (Sigchld (reports w)) (sh w) = Inr s' \<Longrightarrow>
      history_ok p os c s ks (w\<lparr>sh := s', reports := [], handled := handled w @ [Sigchld (reports w)]\<rparr>)" for s'
    using inv by (simp add: episode_def history_ok_def deliver_append del: handle.simps)
  have g: "group_ok (w\<lparr>sh := s', reports := [], handled := h\<rparr>)" for s' h using inv by (simp add: episode_def group_ok_def)
  from inv r have due: "report_due p (leader w) (reports w)" by (auto simp: episode_def in_front_def put_back_def finished_def)
  from inv r consider (front) "in_front p c s w" | (behind) "put_back p c s w" by (auto simp: episode_def finished_def)
  then show ?thesis
  proof cases
    case front
    then have j: "job_in p c s FG (sh w)" by (simp add: in_front_def)
    show ?thesis
    proof (cases "leader w")
      case (Running q)
      with due r show ?thesis by simp
    next
      case (Stopped q)
      with due obtain sig where rep: "reports w = [(p, WStopped sig)]" by auto
      from chld_stopped [OF l j, of os sig] obtain s' where
        s': "handle os (Sigchld (reports w)) (sh w) = Inr s'" "job_in p c s ST s'" by (auto simp: rep)
      with Stopped hist [OF s'(1)] g show ?thesis by (auto simp: episode_def put_back_def)
    next
      case Zombie
      with due obtain st where rep: "reports w = [(p, st)]" "ended st" by auto
      from chld_ended [OF l j rep(2), of os] obtain s' where
        s': "handle os (Sigchld (reports w)) (sh w) = Inr s'" "job_of s' = job_of s" "fgpid s' \<noteq> p" by (auto simp: rep)
      with Zombie hist [OF s'(1)] g show ?thesis by (auto simp: episode_def finished_def)
    qed
  next
    case behind
    then have j: "job_in p c s ST (sh w)" by (simp add: put_back_def)
    have "\<exists>s'. handle os (Sigchld (reports w)) (sh w) = Inr s' \<and> job_in p c s ST s'"
    proof (cases "leader w")
      case (Stopped q)
      with due chld_stopped [OF l j, of os] show ?thesis by auto
    next
      case Zombie
      with due chld_ended_late [OF l j, of _ os] show ?thesis by auto
    qed (use due r in simp)
    then obtain s' where s': "handle os (Sigchld (reports w)) (sh w) = Inr s'" "job_in p c s ST s'" by blast
    with behind hist [OF s'(1)] g show ?thesis by (auto simp: episode_def put_back_def)
  qed
qed

text \<open>Every step keeps the invariant.\<close>

lemma step_episode:
  assumes l: "can_launch p s" and kill: "kill_ok os (- p) SIGINT" "kill_ok os (- p) SIGTSTP"
    and ks: "set ks \<subseteq> {Sigint, Sigtstp}" and step: "world_step p os w w'" and inv: "episode p os c s ks w"
  shows "episode p os c s ks w'"
  using step inv
proof cases
  case (exit c)
  note q = episode_leader [OF inv exit(2)]
  show ?thesis by (rule call_episode [OF inv exit(2)]) (use q in \<open>simp_all add: exit(1) group_ok_def ended_def\<close>)
next
  case (sleep n k)
  note q = episode_leader [OF inv sleep(2)]
  show ?thesis by (rule call_episode [OF inv sleep(2)]) (use q in \<open>auto simp: sleep(1) group_ok_def elim: tame_Sys\<close>)
next
  case (getpid k)
  note q = episode_leader [OF inv getpid(2)]
  show ?thesis by (rule call_episode [OF inv getpid(2)]) (use q in \<open>auto simp: getpid(1) group_ok_def elim: tame_Sys\<close>)
next
  case (puts m k)
  note q = episode_leader [OF inv puts(2)]
  show ?thesis by (rule call_episode [OF inv puts(2)]) (use q in \<open>auto simp: puts(1) group_ok_def elim: tame_Sys\<close>)
next
  case (fork k q)
  note q = episode_leader [OF inv fork(2)]
  show ?thesis by (rule call_episode [OF inv fork(2)]) (use q fork(3) in \<open>auto simp: fork(1) group_ok_def elim: tame_Sys\<close>)
next
  case (fork_fails k)
  note q = episode_leader [OF inv fork_fails(2)]
  show ?thesis by (rule call_episode [OF inv fork_fails(2)]) (use q in \<open>auto simp: fork_fails(1) group_ok_def elim: tame_Sys\<close>)
next
  case (wait_kid k q)
  note q = episode_leader [OF inv wait_kid(2)]
  have "set (remove1 (q, Zombie) (kids w)) \<subseteq> set (kids w)" by (rule set_remove1_subset)
  then show ?thesis
    by (intro call_episode [OF inv wait_kid(2)]) (use q in \<open>auto simp: wait_kid(1) group_ok_def elim: tame_Sys\<close>)
next
  case (wait_none k)
  note q = episode_leader [OF inv wait_none(2)]
  show ?thesis by (rule call_episode [OF inv wait_none(2)]) (use q in \<open>auto simp: wait_none(1) group_ok_def elim: tame_Sys\<close>)
next
  case (kill_self sig k)
  note q = episode_leader [OF inv kill_self(2)]
  have "group_ok (w\<lparr>leader := Running (k 0)\<rparr>)" using q by (auto simp: group_ok_def elim: tame_Sys)
  then show ?thesis
    by (intro call_episode [OF inv kill_self(2)])
      (use q due_signal [of p sig "k 0"] in \<open>auto simp: kill_self(1) intro: group_ok_signal\<close>)
next
  case (kill_group sig k)
  note q = episode_leader [OF inv kill_group(2)]
  have "group_ok (w\<lparr>leader := Running (k 0)\<rparr>)" using q by (auto simp: group_ok_def elim: tame_Sys)
  then show ?thesis
    by (intro call_episode [OF inv kill_group(2)])
      (use q due_signal [of p sig "k 0"] in \<open>auto simp: kill_group(1) intro: group_ok_signal\<close>)
next
  case (kill_other t sig k)
  note q = episode_leader [OF inv kill_other(2)]
  show ?thesis by (rule call_episode [OF inv kill_other(2)]) (use q in \<open>auto simp: kill_other(1) group_ok_def elim: tame_Sys\<close>)
next
  case (kid i q r st m)
  have mem: "(q, Running r) \<in> set (kids w)" using kid(2,3) by (metis nth_mem)
  have "group_ok w'"
  proof -
    have sub: "set ((kids w)[i := (q, st)]) \<subseteq> insert (q, st) (set (kids w))" by (rule set_update_subset_insert)
    have "st = Zombie \<or> (\<exists>r'. st = Running r' \<and> calm r')" if "leader w = Running u" for u
      using episode_leader(3) [OF inv that] mem kid_next_calm [OF _ kid(4)] by auto
    with sub inv show ?thesis by (fastforce simp: kid(1) episode_def group_ok_def)
  qed
  with inv kid(1) show ?thesis by (auto simp: episode_def in_front_def put_back_def finished_def history_ok_def)
next
  case (key e es s')
  then show ?thesis using key_episode [OF l kill inv ks] by simp
next
  case (sigchld s')
  then show ?thesis using sigchld_episode [OF l inv] by auto
next
  case prompt
  have "\<not> in_front p c s w" using prompt(3) job_in_fgpid [OF l, of c FG "sh w"] by (auto simp: in_front_def)
  with inv prompt(1) show ?thesis by (auto simp: episode_def put_back_def finished_def group_ok_def history_ok_def)
qed

text \<open>A world that cannot take a step has its shell at the prompt.\<close>

lemma blocked_at_prompt:
  assumes l: "can_launch p s" and inv: "episode p os c s ks w" and blocked: "\<And>w'. \<not> world_step p os w w'"
  shows "at_prompt w" "reports w = []" "put_back p c s w \<or> finished p s w"
proof -
  have r: "reports w = []"
    using sigchld_episode [OF l inv] blocked world_step.sigchld by metis
  have p: "0 < p" using l by (simp add: can_launch_def)
  have nr: "leader w \<noteq> Running q" for q
  proof
    assume q: "leader w = Running q"
    note L = episode_leader [OF inv q]
    show False
    proof (cases q)
      case (Exit c)
      with q blocked world_step.exit show False by metis
    next
      case (Sys c k)
      show False
      proof (cases c)
        case (Sleep n)
        with q Sys blocked world_step.sleep show False by metis
      next
        case Getpid
        with q Sys blocked world_step.getpid show False by metis
      next
        case (Kill t sig)
        show False
        proof (cases "t = p \<or> t = - p")
          case True
          with q Sys Kill blocked world_step.kill_self [of w p sig k os] world_step.kill_group [of w p sig k os] show False by auto
        next
          case False
          with q Sys Kill blocked world_step.kill_other [of w t sig k p os] show False by auto
        qed
      next
        case Fork
        with q Sys blocked world_step.fork_fails show False by metis
      next
        case Wait
        show False
        proof (cases "kids w")
          case Nil
          with q Sys Wait blocked world_step.wait_none show False by metis
        next
          case (Cons x xs)
          obtain a st where x: "x = (a, st)" by fastforce
          from L(3) Cons x consider "st = Zombie" | r where "st = Running r" "calm r" by auto
          then show False
          proof cases
            case 1
            with q Sys Wait blocked world_step.wait_kid [of w k a p os] Cons x show False by auto
          next
            case 2
            from kid_calm [OF 2(2)] obtain st' m where "kid_next r = Some (st', m)" by blast
            with 2(1) blocked world_step.kid [of 0 w a r st' m p os] Cons x show False by auto
          qed
        qed
      next
        case (Write_stderr m)
        with q Sys blocked world_step.puts show False by metis
      qed
    qed
  qed
  then have nf: "\<not> in_front p c s w" using r by (cases "leader w") (auto simp: in_front_def)
  then have d: "put_back p c s w \<or> finished p s w" using inv by (simp add: episode_def)
  then have "fgpid (sh w) \<noteq> p" using p job_in_fgpid [OF l, of c ST "sh w"] by (auto simp: put_back_def finished_def)
  then show "at_prompt w" using blocked world_step.prompt by metis
  show "reports w = []" "put_back p c s w \<or> finished p s w" using r d by simp_all
qed

lemma launch_episode:
  assumes "can_launch p s" "tame (prog ws)"
  shows "episode p os (command_line ws) s ks (launch p ws prog ks s)"
  using assms waiting_job_in [OF assms(1), of "command_line ws"]
  by (simp add: episode_def in_front_def group_ok_def history_ok_def launch_def)

text \<open>\<open>eval\<close> and the handling of the rest is the handling of all events, when it does not end waiting.\<close>

lemma wait_then_deliver:
  assumes "deliver os es s = Inr t" "fgpid t \<noteq> p"
  shows "and_then (wait_loop os p es s) (\<lambda>(es, s). deliver os es s) = Inr t"
  using assms
proof (induction es arbitrary: s)
  case (Cons e es)
  then show ?case by (cases "handle os e s") (auto simp del: handle.simps)
qed simp

lemma eval_waits:
  assumes "external ws" "first_char (last ws) \<noteq> CHR ''&''"
  shows "eval os es (command_line ws) s = wait_loop os (fork_result os) es (waiting (fork_result os) (command_line ws) s)"
proof -
  have "ws \<noteq> []" using assms(1) by (simp add: external_def)
  then show ?thesis
    by (simp add: eval_def external_parse(2) [OF assms] external_not_builtin [OF assms(1)] Let_def waitfg_def waiting_def)
qed

subsection \<open>The shell comes back\<close>

text \<open>C10. The shell, a test program in the foreground and the keyboard: whichever of the four programs is run
  with whatever arguments, and whenever control-C and control-Z are typed while it is in the
  foreground, every interleaving of their steps is finite and ends with the shell back at its prompt
  and no report of a child left. The shell has then done what \<open>eval\<close> does on the events that came up;
  the job is gone when the program has ended, or is in the table as stopped. The second is the case
  only if the program is stopped, or if control-Z was typed when it had ended but the shell had not yet
  been told.\<close>

theorem foreground_program_returns:
  assumes "prog \<in> set test_programs" "external ws" "first_char (last ws) \<noteq> CHR ''&''"
    "can_launch p s" "fork_result os = p" "kill_ok os (- p) SIGINT" "kill_ok os (- p) SIGTSTP"
    "set ks \<subseteq> {Sigint, Sigtstp}"
  shows "\<not> (\<exists>f. f 0 = launch p ws prog ks s \<and> (\<forall>n. world_step p os (f n) (f (Suc n)))) \<and>
    (\<forall>w. (world_step p os)\<^sup>*\<^sup>* (launch p ws prog ks s) w \<and> (\<forall>w'. \<not> world_step p os w w') \<longrightarrow>
       at_prompt w \<and> reports w = [] \<and>
       and_then (eval os (handled w) (command_line ws) s) (\<lambda>(es, s'). deliver os es s') = Inr (sh w) \<and>
       (leader w = Zombie \<and> job_of (sh w) = job_of s \<or>
        ((\<exists>q. leader w = Stopped q) \<or> leader w = Zombie \<and> Sigtstp \<in> set ks) \<and>
        job_of (sh w) = (job_of s)(p \<mapsto> (new_job p FG (command_line ws) s)\<lparr>j_state := ST\<rparr>)))"
proof (intro conjI allI impI)
  show "\<not> (\<exists>f. f 0 = launch p ws prog ks s \<and> (\<forall>n. world_step p os (f n) (f (Suc n))))"
    using wf_progress step_progress unfolding wf_iff_no_infinite_down_chain by metis
next
  fix w assume w: "(world_step p os)\<^sup>*\<^sup>* (launch p ws prog ks s) w \<and> (\<forall>w'. \<not> world_step p os w w')"
  let ?c = "command_line ws"
  have "episode p os ?c s ks w" using conjunct1 [OF w]
    by (induction rule: rtranclp_induct)
      (auto intro: launch_episode [OF assms(4) tame_programs [OF assms(1)]] step_episode [OF assms(4,6,7,8)])
  note inv = this and B = blocked_at_prompt [OF assms(4) this]
  show "at_prompt w" "reports w = []" using B w by blast+
  have d: "put_back p ?c s w \<or> finished p s w" using B w by blast
  have "ST \<noteq> UNDEF" by simp
  note table = job_in_table(2) [OF assms(4) _ this, of ?c "sh w"] and fg = job_in_fgpid [OF assms(4), of ?c ST "sh w"]
  have p: "0 < p" using assms(4) by (simp add: can_launch_def)
  have "fgpid (sh w) \<noteq> p" using d fg p by (auto simp: put_back_def finished_def)
  then show "and_then (eval os (handled w) ?c s) (\<lambda>(es, s'). deliver os es s') = Inr (sh w)"
    using inv wait_then_deliver [of os "handled w" "waiting p ?c s" "sh w" p]
    by (simp add: eval_waits [OF assms(2,3)] assms(5) episode_def history_ok_def)
  show "leader w = Zombie \<and> job_of (sh w) = job_of s \<or>
      ((\<exists>q. leader w = Stopped q) \<or> leader w = Zombie \<and> Sigtstp \<in> set ks) \<and>
      job_of (sh w) = (job_of s)(p \<mapsto> (new_job p FG ?c s)\<lparr>j_state := ST\<rparr>)"
    using d inv table by (cases "leader w") (auto simp: put_back_def finished_def episode_def history_ok_def)
qed

lemma tsh0_can_launch: "0 < p \<Longrightarrow> can_launch p tsh0"
proof -
  have "fgpid tsh0 = 0 \<and> first_slot (\<lambda>j. j_pid j = 0) (jobs tsh0) = Some (nat (nextjid tsh0 - 1))" by code_simp
  then show "0 < p \<Longrightarrow> can_launch p tsh0" by (simp add: can_launch_def tsh0_ok tsh0_empty tsh0_fields)
qed

theorem foreground_program_returns_witness:
  "\<not> (\<exists>f. f 0 = launch 100 [''./mystop'', ''2''] mystop [Sigint, Sigtstp] tsh0 \<and>
       (\<forall>n. world_step 100 (os_ok 100) (f n) (f (Suc n)))) \<and>
   \<not> (\<exists>w. (world_step 100 (os_ok 100))\<^sup>*\<^sup>* (launch 100 [''./mystop'', ''2''] mystop [Sigint, Sigtstp] tsh0) w \<and>
       \<not> (\<exists>w'. world_step 100 (os_ok 100) w w') \<and> \<not> at_prompt w)"
proof -
  have "external [''./mystop'', ''2'']" by code_simp
  moreover have "mystop \<in> set test_programs" "first_char (last [''./mystop'', ''2'']) \<noteq> CHR ''&''"
    "fork_result (os_ok 100) = 100" "kill_ok (os_ok 100) (- 100) SIGINT" "kill_ok (os_ok 100) (- 100) SIGTSTP"
    "set [Sigint, Sigtstp] \<subseteq> {Sigint, Sigtstp}"
    by (simp_all add: test_programs_def first_char_def os_ok_def)
  moreover have "can_launch 100 tsh0" by (rule tsh0_can_launch) simp
  ultimately show ?thesis
    using foreground_program_returns [of mystop "[''./mystop'', ''2'']" 100 tsh0 "os_ok 100" "[Sigint, Sigtstp]"] by blast
qed

text \<open>The late control-Z: the program has ended, control-Z comes before SIGCHLD, and the dead job stays in
  the table as stopped.\<close>

lemma dead_job_stays:
  "(case eval (os_ok 100) [Sigtstp, Sigchld [(100, WExited 0)]] (command_line [''./myspin'', ''0'']) tsh0 of
      Inr (es, s) \<Rightarrow> map_option (\<lambda>s. map_option j_state (job_of s 100))
        (case deliver (os_ok 100) es s of Inr s \<Rightarrow> Some s | Inl _ \<Rightarrow> None)
    | Inl _ \<Rightarrow> None) = Some (Some ST)"
  by code_simp

end
