(* ===== verification/MmCheck.thy ===== *)
theory MmCheck
  imports MmClient
begin

text \<open>
  The heap checker of \<^verbatim>\<open>malloclab/mm.c\<close> (under \<^verbatim>\<open>MMCHECK\<close>): five checks that \<^verbatim>\<open>mm_check\<close>
  runs in turn. A check's value is its result, 1 or 0, with what it prints; the two walks over the
  heap are partial. \<^verbatim>\<open>mm_check\<close> is declared \<^verbatim>\<open>int\<close> and returns nothing, so its value here is
  what it prints.
\<close>

datatype check_line =
    NotMarkedFree int
  | NotCoalesced addr addr
  | AllMarkedFree | NoneEscaped | AllInFreeList | FreeListValid | HeapValid

definition root_slot :: "mm \<Rightarrow> int \<Rightarrow> addr" where
  "root_slot s i = mem_heap_lo s + i * WSIZE"

definition CheckedFreeMarkedInFreeList :: "mm \<Rightarrow> int \<times> check_line list" where
  "CheckedFreeMarkedInFreeList s =
     fold (\<lambda>i (res, out).
         if GET s (root_slot s i) = NULL then (res, out)
         else if GET_ALLOC s (GET s (root_slot s i)) = 0 then (res, out)
         else (0, out @ [NotMarkedFree (i + 1)]))
       [0 .. 9] (1, [])"

partial_function (option) escaped_loop ::
  "mm \<Rightarrow> addr \<Rightarrow> addr \<Rightarrow> addr \<Rightarrow> int \<times> check_line list \<Rightarrow> (int \<times> check_line list) option" where
  "escaped_loop s p2 p lastP acc =
     (if p = NULL then Some acc
      else
        let free = (GET_ALLOC s (HDRP p) = 0);
            acc = (if free \<and> lastP \<noteq> NULL \<and> NEXT_BLKP s lastP = p then (0, snd acc @ [NotCoalesced lastP p]) else acc);
            lastP = (if free then p else lastP)
        in escaped_loop s p2 (if NEXT_BLKP s p > p2 then NULL else NEXT_BLKP s p) lastP acc)"

definition checkEscapedCoalesce :: "mm \<Rightarrow> (int \<times> check_line list) option" where
  "checkEscapedCoalesce s = escaped_loop s (mem_heap_hi s) (heap_listp s + 8) NULL (1, [])"

text \<open>The address of what \<^verbatim>\<open>GET\<close> reads is its argument: \<^verbatim>\<open>&GET(tmpP) == p\<close>.\<close>

partial_function (option) in_lists_loop :: "mm \<Rightarrow> addr \<Rightarrow> addr \<Rightarrow> int \<Rightarrow> int option" where
  "in_lists_loop s p2 p res =
     (if p = NULL then Some res
      else
        let isExist = list_ex (\<lambda>i. p + i * WSIZE = p) [0 .. 9];
            res = (if GET_ALLOC s (HDRP p) = 0 \<and> \<not> isExist then 0 else res)
        in in_lists_loop s p2 (if NEXT_BLKP s p > p2 then NULL else NEXT_BLKP s p) res)"

definition isEveryFreeBlockInFreeList :: "mm \<Rightarrow> int option" where
  "isEveryFreeBlockInFreeList s = in_lists_loop s (mem_heap_hi s) (heap_listp s + 8) 1"

definition checkPointerInFreeListValid :: "mm \<Rightarrow> int" where
  "checkPointerInFreeListValid s =
     (if list_all (\<lambda>i. GET s (root_slot s i) = NULL \<or> GET_SIZE s (HDRP (GET s (root_slot s i))) > 0) [0 .. 9]
      then 1 else 0)"

definition checkPointerInHeapBlockValid :: "mm \<Rightarrow> int" where
  "checkPointerInHeapBlockValid s =
     (if list_all (\<lambda>i. GET s (root_slot s i) = NULL \<or>
         (GET s (root_slot s i) > mem_heap_lo s \<and> GET s (root_slot s i) < mem_heap_hi s)) [0 .. 9]
      then 1 else 0)"

definition mm_check :: "mm \<Rightarrow> check_line list option" where
  "mm_check s =
     (let (c1, out1) = CheckedFreeMarkedInFreeList s in
      case checkEscapedCoalesce s of
        None \<Rightarrow> None
      | Some (c2, out2) \<Rightarrow>
          (case isEveryFreeBlockInFreeList s of
             None \<Rightarrow> None
           | Some c3 \<Rightarrow>
               let c4 = checkPointerInFreeListValid s; c5 = checkPointerInHeapBlockValid s
               in Some (out1 @ out2 @ (if c1 > 0 then [AllMarkedFree] else []) @ (if c2 > 0 then [NoneEscaped] else []) @
                    (if c3 > 0 then [AllInFreeList] else []) @ (if c4 > 0 then [FreeListValid] else []) @
                    (if c5 > 0 then [HeapValid] else []))))"

declare escaped_loop.simps [code]
declare in_lists_loop.simps [code]

definition all_passed :: "check_line list" where
  "all_passed = [AllMarkedFree, NoneEscaped, AllInFreeList, FreeListValid, HeapValid]"

subsection \<open>On a well-formed heap every check passes\<close>

lemma self_listed: "list_ex (\<lambda>i. p + i * WSIZE = p) [0 .. 9]"
  "list_ex (\<lambda>i. i = 0 \<or> WSIZE = 0) [0 .. 9]"
  by (simp_all add: list_ex_iff WSIZE_def)

lemma in_lists_loop_1: "in_lists_loop s p2 p 1 \<in> {None, Some 1}"
proof -
  have "in_lists_loop s p2 p res = Some r \<Longrightarrow> res = 1 \<longrightarrow> r = 1" for p res r
    by (erule in_lists_loop.raw_induct [rotated]) (auto simp: Let_def self_listed split: if_splits)
  then show ?thesis by (cases "in_lists_loop s p2 p 1") auto
qed

text \<open>The heads of the lists: links of a free block, which its header precedes.\<close>

lemma root_head:
  assumes ok: "mm_ok s bs" and i: "0 \<le> i" "i \<le> 9"
  shows "GET s (root_slot s i) = 0 \<or>
    (\<exists>p z. GET s (root_slot s i) = p \<and> (p, z) \<in> frees (first_block s) bs \<and> words s p = 0)"
proof -
  have sh: "heap_shape s bs (frees (first_block s) bs)" using ok by (simp add: mm_ok_def heap_inv_def)
  note D = heap_shapeD [OF sh]
  have slot: "root_slot s i = block_list_start s + 4 * i" "4 dvd root_slot s i"
    using D(1,3) by (auto simp: root_slot_def mem_heap_lo_def WSIZE_def)
  then have g: "GET s (root_slot s i) = words s (block_list_start s + 4 * i)" by (simp add: GET_words)
  have "i \<in> {0..<10}" using i by simp
  with D(13) obtain ps where ps: "class_list (words s) (block_list_start s) i ps"
    "set ps = in_class (frees (first_block s) bs) i"
    unfolding free_lists_def by blast
  then obtain l where d: "dseg (words s) 0 (GET s (root_slot s i)) (map fst ps) l 0" by (auto simp: class_list_def g)
  show ?thesis
  proof (cases ps)
    case (Cons b qs)
    with d have "GET s (root_slot s i) = fst b" "words s (fst b) = 0" by simp_all
    moreover have "(fst b, snd b) \<in> frees (first_block s) bs" using ps(2) Cons by (auto simp: in_class_def)
    ultimately show ?thesis by blast
  qed (use d in simp)
qed

text \<open>One step of the walks at a block: its allocated bit and the next block.\<close>

lemma walk_escaped:
  assumes "tagged (words s) a bs" "sizes_ok bs" "no_adjacent bs" "8 dvd a" "0 < a" "mem_brk s = a + extent bs"
    and "lastP = NULL \<or> NEXT_BLKP s lastP < a \<or> (NEXT_BLKP s lastP = a \<and> (bs = [] \<or> snd (hd bs)))"
  shows "escaped_loop s (mem_brk s - 1) (if a > mem_brk s - 1 then NULL else a) lastP (1, out) = Some (1, out)"
  using assms
proof (induction bs arbitrary: a lastP)
  case Nil
  then show ?case by (simp add: escaped_loop.simps)
next
  case (Cons b bs)
  obtain z al where b: "b = (z, al)" by (cases b)
  from Cons.prems b have z: "8 dvd z" "16 \<le> z" "sizes_ok bs" "tagged (words s) (a + z) bs" "no_adjacent bs"
    "words s (a - 4) = tag_of z al"
    by (auto simp: no_adjacent_def elim: successively.elims)
  note hd = header_reads [OF z(6) \<open>8 dvd a\<close> z(1)]
  have le: "a \<le> mem_brk s - 1" using Cons.prems(6) b z(2) extent_nonneg [OF z(3)] by simp
  have next': "(if al then lastP else a) = NULL \<or> NEXT_BLKP s (if al then lastP else a) < a + z \<or>
      (NEXT_BLKP s (if al then lastP else a) = a + z \<and> (bs = [] \<or> snd (hd bs)))"
    using Cons.prems(3,7) b z(2) hd(2) by (cases bs) (auto simp: no_adjacent_def)
  have "escaped_loop s (mem_brk s - 1) (if a > mem_brk s - 1 then NULL else a) lastP (1, out) =
      escaped_loop s (mem_brk s - 1) (if a + z > mem_brk s - 1 then NULL else a + z) (if al then lastP else a) (1, out)"
    using le Cons.prems(5,7) b hd by (simp add: escaped_loop.simps [of s _ a]) auto
  also have "\<dots> = Some (1, out)"
    using Cons.prems(4-6) b z by (intro Cons.IH next') auto
  finally show ?case .
qed

lemma walk_in_lists:
  assumes "tagged (words s) a bs" "sizes_ok bs" "8 dvd a" "0 < a" "mem_brk s = a + extent bs"
  shows "in_lists_loop s (mem_brk s - 1) (if a > mem_brk s - 1 then NULL else a) 1 = Some 1"
  using assms
proof (induction bs arbitrary: a)
  case Nil
  then show ?case by (simp add: in_lists_loop.simps)
next
  case (Cons b bs)
  obtain z al where b: "b = (z, al)" by (cases b)
  from Cons.prems b have z: "8 dvd z" "16 \<le> z" "sizes_ok bs" "tagged (words s) (a + z) bs" "words s (a - 4) = tag_of z al"
    by auto
  note hd = header_reads [OF z(5) \<open>8 dvd a\<close> z(1)]
  have le: "a \<le> mem_brk s - 1" using Cons.prems(5) b z(2) extent_nonneg [OF z(3)] by simp
  have "in_lists_loop s (mem_brk s - 1) (if a > mem_brk s - 1 then NULL else a) 1 =
      in_lists_loop s (mem_brk s - 1) (if a + z > mem_brk s - 1 then NULL else a + z) 1"
    using le Cons.prems(4) hd by (simp add: in_lists_loop.simps [of s _ a] self_listed)
  also have "\<dots> = Some 1" using Cons.prems(3-5) b z by (intro Cons.IH) auto
  finally show ?case .
qed

lemma header_bits:
  assumes p: "8 dvd p" and w: "words s (p - 4) = tag_of z al" "8 dvd z"
  shows "GET_ALLOC s (HDRP p) = of_bool al" "GET_SIZE s (HDRP p) = z" "GET_ALLOC s p = words s p mod 2"
proof -
  have "4 dvd p" "4 dvd p - 4" using p by (auto elim!: dvdE)
  with w show "GET_ALLOC s (HDRP p) = of_bool al" "GET_SIZE s (HDRP p) = z" "GET_ALLOC s p = words s p mod 2"
    by (simp_all add: GET_ALLOC_words GET_SIZE_words HDRP_def WSIZE_def)
qed

text \<open>What the checks rest on: the tags of the blocks, and heads of lists that look like blocks.\<close>

lemma checks_pass:
  assumes tags: "tagged (words s) (first_block s) bs" "sizes_ok bs" "no_adjacent bs" "bs \<noteq> []"
    and s: "8 dvd block_list_start s" "0 < block_list_start s" "heap_listp s = block_list_start s + 48"
      "mem_brk s = first_block s + extent bs"
    and head: "\<And>i. 0 \<le> i \<Longrightarrow> i \<le> 9 \<Longrightarrow> GET s (root_slot s i) = 0 \<or>
      (GET_ALLOC s (GET s (root_slot s i)) = 0 \<and> 0 < GET_SIZE s (HDRP (GET s (root_slot s i))) \<and>
       mem_heap_lo s < GET s (root_slot s i) \<and> GET s (root_slot s i) < mem_heap_hi s)"
  shows "mm_check s = Some all_passed"
proof -
  have f: "8 dvd first_block s" "0 < first_block s" "heap_listp s + 8 = first_block s" using s by simp_all
  have le: "\<not> first_block s > mem_brk s - 1"
    using tags(2,4) s(4) by (cases bs) (auto dest: extent_nonneg)
  have c2: "checkEscapedCoalesce s = Some (1, [])"
    using walk_escaped [OF tags(1-3) f(1,2) s(4), of NULL "[]"] le
    by (simp add: checkEscapedCoalesce_def mem_heap_hi_def f(3))
  have c3: "isEveryFreeBlockInFreeList s = Some 1"
    using walk_in_lists [OF tags(1,2) f(1,2) s(4)] le by (simp add: isEveryFreeBlockInFreeList_def mem_heap_hi_def f(3))
  have c1: "CheckedFreeMarkedInFreeList s = (1, [])"
    unfolding CheckedFreeMarkedInFreeList_def
    by (rule fold_invariant [where Q = "\<lambda>i. 0 \<le> i \<and> i \<le> 9" and P = "\<lambda>r. r = (1, [])"]) (use head in auto)
  have c4: "checkPointerInFreeListValid s = 1" "checkPointerInHeapBlockValid s = 1"
    unfolding checkPointerInFreeListValid_def checkPointerInHeapBlockValid_def list_all_iff
    by (rule if_P, rule ballI, use head in force)+
  show ?thesis by (simp add: mm_check_def c1 c2 c3 c4 all_passed_def)
qed

lemma head_ok:
  assumes ok: "mm_ok s bs" and i: "0 \<le> i" "i \<le> 9"
  shows "GET s (root_slot s i) = 0 \<or>
    (GET_ALLOC s (GET s (root_slot s i)) = 0 \<and> 0 < GET_SIZE s (HDRP (GET s (root_slot s i))) \<and>
     mem_heap_lo s < GET s (root_slot s i) \<and> GET s (root_slot s i) < mem_heap_hi s)"
proof -
  have "heap_shape s bs (frees (first_block s) bs)" using ok by (simp add: mm_ok_def heap_inv_def)
  note D = heap_shapeD [OF this]
  from root_head [OF ok i] show ?thesis
  proof (elim disjE exE conjE)
    fix p z assume p: "GET s (root_slot s i) = p" "(p, z) \<in> frees (first_block s) bs" "words s p = 0"
    note B = frees_bounds [OF D(7) p(2)]
    have "8 dvd p" using B(5) D(1) by simp
    from header_bits [OF this, of s z False] frees_tagged(1) [OF D(8,7) p(2)] B(4) p(3)
    have "GET_ALLOC s p = 0" "GET_SIZE s (HDRP p) = z" by simp_all
    then show ?thesis using B(1-3) D(2,3,9) by (simp add: p(1) mem_heap_lo_def mem_heap_hi_def)
  qed simp
qed

text \<open>C24. On a well-formed heap \<^verbatim>\<open>mm_check\<close> returns, and all five checks report success and
  nothing else.\<close>

theorem mm_check_passes:
  assumes "mm_ok s bs"
  shows "mm_check s = Some all_passed"
proof -
  have sh: "heap_shape s bs (frees (first_block s) bs)" "no_adjacent bs" "bs \<noteq> []"
    using assms by (simp_all add: mm_ok_def heap_inv_def)
  note D = heap_shapeD [OF sh(1)]
  show ?thesis by (rule checks_pass [OF D(8,7) sh(2,3) D(1,2,4,9) head_ok [OF assms]])
qed

theorem mm_check_passes_witness: "mm_check mm_ready = Some all_passed"
  by (rule mm_check_passes [OF mm_ready_ok(1)])

text \<open>A root is no tag word and no payload word.\<close>

lemma root_write:
  assumes ok: "mm_ok s bs" and p: "(p, z) \<in> allocs (first_block s) bs"
  defines "s' \<equiv> PUT (mem_heap_lo s) p s"
  shows "tagged (words s') (first_block s) bs" "GET s' (root_slot s' 0) = p" "0 \<le> i \<Longrightarrow> i \<le> 9 \<Longrightarrow> i \<noteq> 0 \<Longrightarrow> GET s' (root_slot s' i) = GET s (root_slot s i)"
    "4 dvd q \<Longrightarrow> first_block s - 4 \<le> q \<Longrightarrow> words s' q = words s q" "8 dvd p"
proof -
  have "heap_shape s bs (frees (first_block s) bs)" using ok by (simp add: mm_ok_def heap_inv_def)
  note D = heap_shapeD [OF this]
  have lo: "mem_heap_lo s = block_list_start s" "4 dvd block_list_start s" using D(1,3) by (auto simp: mem_heap_lo_def)
  note B = allocs_bounds [OF D(7) p]
  have p32: "u32 p = p" using B(1-3) D(2,9,11,12) by (simp add: u32_def)
  have w: "words s' = (words s)(block_list_start s := p)"
    using lo by (simp add: s'_def words_PUT p32)
  show "4 dvd q \<Longrightarrow> first_block s - 4 \<le> q \<Longrightarrow> words s' q = words s q" using w by simp
  have slot: "root_slot s' i = block_list_start s + 4 * i" "root_slot s i = block_list_start s + 4 * i"
    "4 dvd block_list_start s + 4 * i" for i
    using lo by (simp_all add: s'_def root_slot_def WSIZE_def mem_heap_lo_def word_view)
  show "GET s' (root_slot s' 0) = p" using w lo by (simp add: slot GET_words)
  show "GET s' (root_slot s' i) = GET s (root_slot s i)" if "0 \<le> i" "i \<le> 9" "i \<noteq> 0"
    using that w slot(3) [of i] by (simp add: slot GET_words)
  show "8 dvd p" using B(5) D(1) by simp
  show "tagged (words s') (first_block s) bs"
    using tag_words_range [OF D(7)] by (intro tagged_frame [OF D(8)]) (fastforce simp: w)
qed

text \<open>C25. What \<^verbatim>\<open>mm_check\<close> cannot see. The test that every free block is in a list succeeds on
  every heap whose walk ends, since it compares the block's address with itself. A heap whose
  first list starts with an allocated block passes all five checks when the block's first payload
  word is even, since the test for marked blocks reads the payload and not the header.\<close>

theorem mm_check_blind:
  assumes ok: "mm_ok s bs" and p: "(p, z) \<in> allocs (first_block s) bs" and even: "even (GET s p)"
  defines "s' \<equiv> PUT (mem_heap_lo s) p s"
  shows "isEveryFreeBlockInFreeList t \<in> {None, Some 1} \<and>
    mm_check s' = Some all_passed \<and> GET s' (root_slot s' 0) = p \<and> GET_ALLOC s' (HDRP p) = 1"
proof (intro conjI)
  show "isEveryFreeBlockInFreeList t \<in> {None, Some 1}" unfolding isEveryFreeBlockInFreeList_def by (rule in_lists_loop_1)
  have sh: "heap_shape s bs (frees (first_block s) bs)" "no_adjacent bs" "bs \<noteq> []"
    using ok by (simp_all add: mm_ok_def heap_inv_def)
  note D = heap_shapeD [OF sh(1)] and B = allocs_bounds [OF heap_shapeD(7) [OF sh(1)] p]
  note R = root_write [OF ok p, folded s'_def]
  have same: "first_block s' = first_block s" "block_list_start s' = block_list_start s" "heap_listp s' = heap_listp s"
    "mem_brk s' = mem_brk s" "mem_start_brk s' = mem_start_brk s"
    by (simp_all add: s'_def word_view mem_heap_lo_def mem_heap_hi_def)
  have above: "words s' q = words s q" if "4 dvd q" "first_block s - 4 \<le> q" for q using R(4) that .
  show root: "GET s' (root_slot s' 0) = p" by (rule R(2))
  have "words s (p - 4) = tag_of z True" using D(8) p by (force simp: tagged_def allocs_def)
  moreover have "4 dvd p" "4 dvd p - 4" using R(5) by (auto elim!: dvdE)
  ultimately have hdr: "words s' (p - 4) = tag_of z True" "words s' p = GET s p"
    using above B(1) by (simp_all add: GET_words)
  note H = header_bits [OF R(5) hdr(1) B(4)]
  show "GET_ALLOC s' (HDRP p) = 1" using H(1) by simp
  have hd0: "GET_ALLOC s' p = 0" "0 < GET_SIZE s' (HDRP p)" "mem_heap_lo s' < p" "p < mem_heap_hi s'"
    using H even hdr(2) B(1-3) D(2,3,9) by (simp_all add: even_iff_mod_2_eq_zero same mem_heap_lo_def mem_heap_hi_def)
  have head: "GET s' (root_slot s' i) = 0 \<or>
    (GET_ALLOC s' (GET s' (root_slot s' i)) = 0 \<and> 0 < GET_SIZE s' (HDRP (GET s' (root_slot s' i))) \<and>
     mem_heap_lo s' < GET s' (root_slot s' i) \<and> GET s' (root_slot s' i) < mem_heap_hi s')" if i: "0 \<le> i" "i \<le> 9" for i
  proof (cases "i = 0")
    case False
    have r: "GET s' (root_slot s' i) = GET s (root_slot s i)" by (rule R(3) [OF i False])
    from root_head [OF ok i] show ?thesis
    proof (elim disjE exE conjE)
      fix q y assume q: "GET s (root_slot s i) = q" "(q, y) \<in> frees (first_block s) bs" "words s q = 0"
      note Q = frees_bounds [OF D(7) q(2)]
      have al: "8 dvd q" "4 dvd q" "4 dvd q - 4" using Q(5) D(1) by (auto elim!: dvdE)
      have "words s' (q - 4) = tag_of y False" "words s' q = 0"
        using above [OF al(3)] above [OF al(2)] Q(1) frees_tagged(1) [OF D(8,7) q(2)] q(3) by simp_all
      with header_bits [OF al(1) _ Q(4), of s' False]
      show ?thesis using Q(1-3) D(2,3,9) by (simp add: r q(1) same mem_heap_lo_def mem_heap_hi_def)
    qed (simp add: r)
  qed (use hd0 root in simp)
  show "mm_check s' = Some all_passed"
    by (rule checks_pass [of s' bs]) (use R(1) D sh(2,3) head in \<open>simp_all add: same\<close>)
qed

definition mm_zeroed :: mm where
  "mm_zeroed = poke (fst mm_one) 0 (snd mm_one)"

theorem mm_check_blind_witness:
  "mm_check (PUT (mem_heap_lo mm_zeroed) (fst mm_one) mm_zeroed) = Some all_passed"
proof -
  from mm_one_ok obtain z bs where o: "mm_ok (snd mm_one) bs"
    "allocs (first_block (snd mm_one)) bs = {(fst mm_one, z)}" by blast
  then have m: "(fst mm_one, z) \<in> allocs (first_block (snd mm_one)) bs" by simp
  have "16 \<le> z" using allocs_bounds(3) [OF ok_sizes [OF o(1)] m] .
  then have ok: "mm_ok mm_zeroed bs" unfolding mm_zeroed_def by (intro poke_inv [OF o(1) m]) simp_all
  have in_z: "(fst mm_one, z) \<in> allocs (first_block mm_zeroed) bs"
    using m by (simp add: mm_zeroed_def poke_def)
  have "even (GET mm_zeroed (fst mm_one))"
    by (simp add: mm_zeroed_def poke_def GET_def load32_def)
  from mm_check_blind [OF ok in_z this] show ?thesis by simp
qed

end
