(* ===== verification/MmWrap.thy ===== *)
theory MmWrap
  imports MmProps
begin

text \<open>
  Requests near the top of \<^verbatim>\<open>size_t\<close>: the block size that \<^verbatim>\<open>mm_malloc\<close> computes wraps around, and the best
  fit for it is a block that cannot hold the request.
\<close>

lemma adjusted_size_wrapped:
  assumes "4294967281 \<le> n" "n < 4294967296"
  shows "adjusted_size n = 0 \<or> adjusted_size n = 8"
proof -
  have "u32 (n + 15) = (n + 15 - 4294967296) mod 4294967296" unfolding u32_def by (simp only: minus_mod_self2) simp
  also have "\<dots> = n + 15 - 4294967296" using assms by (intro mod_pos_pos_trivial) simp_all
  finally have u: "u32 (n + 15) = n - 4294967281" by simp
  define k where "k = (n - 4294967281) div 8"
  have k: "k = 0 \<or> k = 1" using assms by (auto simp: k_def)
  have "adjusted_size n = u32 (8 * (u32 (n + 15) div 8))"
    using assms by (simp add: adjusted_size_def DSIZE_def ac_simps)
  then have "adjusted_size n = u32 (8 * k)" by (simp only: u k_def)
  with k show ?thesis by auto
qed

text \<open>A best fit for a size that every block has.\<close>

lemma find_fit_small:
  assumes ok: "mm_ok s bs" and b: "(y, False) \<in> set bs" and a: "a \<le> 16"
  obtains p z where "find_fit a s = Some p" "p \<noteq> 0" "(p, z) \<in> frees (first_block s) bs"
    "z \<le> mem_brk s - first_block s" "first_block s = block_list_start s + 56" "0 < block_list_start s" "mem_brk s < 4294967296"
proof -
  have sh: "heap_shape s bs (frees (first_block s) bs)" using ok by (simp add: mm_ok_def heap_inv_def)
  note D = heap_shapeD [OF sh]
  have free: "free_ok (words s) (block_list_start s) (frees (first_block s) bs)" by (rule shape_free_ok [OF sh D(14)])
  from find_fit_best [OF D(13) free D(4), of a] obtain p where
    p: "find_fit a s = Some p" "best_fit a (frees (first_block s) bs) p" by blast
  from b obtain q where q: "(q, y) \<in> frees (first_block s) bs" by (auto simp: inv_mem_frees [where a = "first_block s"])
  have "16 \<le> y" using D(7) b by (auto simp: sizes_ok_def list_all_iff)
  then have "p \<noteq> 0" using p(2) q a by (force simp: best_fit_def)
  with p(2) obtain z where z: "(p, z) \<in> frees (first_block s) bs" by (auto simp: best_fit_def)
  from frees_bounds [OF D(7) z] D(9) have "z \<le> mem_brk s - first_block s" by simp
  with p(1) \<open>p \<noteq> 0\<close> z D(2,11,12) show thesis by (intro that) simp_all
qed

text \<open>What such a request does to the block: 8 bytes are cut off and the rest goes back to the lists; with 0 bytes
  the whole block goes back, merged with itself, since it is its own neighbour. No other block of the lists is
  touched, so the insertion returns.\<close>

lemma insert_returns:
  assumes "free_lists (words t) (block_list_start t) G" "free_ok (words t) (block_list_start t) (insert (q, y) G)"
    "(q, y) \<notin> G"
  shows "\<exists>s'. insert_free_block q t = Some s'"
  using insert_free_block_lists [OF assms] by blast

lemma free_ok_frame:
  "free_ok w s0 F \<Longrightarrow> (\<And>x y. (x, y) \<in> F \<Longrightarrow> w' (x - 4) = w (x - 4)) \<Longrightarrow> free_ok w' s0 F"
  by (auto simp: free_ok_def)

lemma free_ok_insert:
  "free_ok w s0 (insert (p, z) F) \<longleftrightarrow>
   free_ok w s0 F \<and> 8 dvd p \<and> s0 + 56 \<le> p \<and> p < 4294967296 \<and> tag_size (w (p - 4)) = z"
  by (auto simp: free_ok_def)

lemma link_wordsE:
  assumes "q \<in> link_words s0 F"
  obtains "q < s0 + 40" | x y where "(x, y) \<in> F" "q = x \<or> q = x + 4"
  using assms by (auto simp: link_words_def)

lemma others_kept:
  fixes s t :: mm and p z :: int and bs :: "blk list"
  defines "F \<equiv> frees (first_block s) bs" and "s1 \<equiv> remove_free_block p s"
  assumes sh: "heap_shape s bs F" and p: "(p, z) \<in> F"
    and frame: "\<And>q. q < p - 8 \<or> p + z - 4 \<le> q \<Longrightarrow> words t q = words s1 q"
  shows "free_lists (words t) (block_list_start s) (F - {(p, z)})"
    and "free_ok (words t) (block_list_start s) (F - {(p, z)})"
    and "\<And>x y. (x, y) \<in> F - {(p, z)} \<Longrightarrow> x + 16 \<le> p \<or> p + z \<le> x"
    and "heap_shape s1 bs (F - {(p, z)})" "same_fields s s1"
proof -
  note D = heap_shapeD [OF sh]
  have s1: "heap_shape s1 bs (F - {(p, z)})" "same_fields s s1"
    using shape_remove [OF sh p] unfolding s1_def by blast+
  show "heap_shape s1 bs (F - {(p, z)})" "same_fields s s1" by fact+
  have b: "block_list_start s1 = block_list_start s" using s1(2) by (simp add: same_fields_def)
  note D1 = heap_shapeD [OF s1(1)]
  have ok: "free_ok (words s1) (block_list_start s1) (F - {(p, z)})" by (rule shape_free_ok [OF s1(1) D1(14)])
  have p56: "block_list_start s + 56 \<le> p" using frees_bounds(1) [OF D(7) p [unfolded F_def]] .
  show apart: "x + 16 \<le> p \<or> p + z \<le> x" if "(x, y) \<in> F - {(p, z)}" for x y
  proof -
    have m: "(x, y, False) \<in> set (blocks (first_block s) bs)" "(p, z, False) \<in> set (blocks (first_block s) bs)"
      using that p by (auto simp: F_def frees_def)
    from blocks_disjoint [OF D(7) m] blocks_bounds(3) [OF D(7) m(1)] that show ?thesis by auto
  qed
  have "words t q = words s1 q" if "q \<in> link_words (block_list_start s) (F - {(p, z)})" for q
  proof (rule frame)
    from that consider "q < block_list_start s + 40" | x y where "(x, y) \<in> F - {(p, z)}" "q = x \<or> q = x + 4"
      by (rule link_wordsE)
    then show "q < p - 8 \<or> p + z - 4 \<le> q"
    proof cases
      case (2 x y)
      with apart [OF 2(1)] show ?thesis by auto
    qed (use p56 in simp)
  qed
  with D1(13) show "free_lists (words t) (block_list_start s) (F - {(p, z)})"
    unfolding b by (rule free_lists_frame) 
  have "words t (x - 4) = words s1 (x - 4)" if "(x, y) \<in> F - {(p, z)}" for x y
    using apart [OF that] by (intro frame) auto
  with ok show "free_ok (words t) (block_list_start s) (F - {(p, z)})"
    unfolding b by (rule free_ok_frame)
qed

text \<open>The block of the request, and what follows once it is out of its list.\<close>

lemma wrapped_block:
  fixes s :: mm and p z :: int and bs :: "blk list"
  defines "s1 \<equiv> remove_free_block p s"
  assumes inv: "heap_inv s bs" and p: "(p, z) \<in> frees (first_block s) bs"
  shows "8 dvd z" "16 \<le> z" "8 dvd p" "block_list_start s + 56 \<le> p" "p + z < 4294967296" "0 < block_list_start s"
    "8 dvd block_list_start s" "words s1 (p + z - 4) mod 2 = 1" "GET_SIZE s (HDRP p) = z" "same_fields s s1"
    "4 dvd p - 4" "4 dvd p - 8" "4 dvd p + z - 8" "4 dvd p + z - 4" "4 dvd p" "4 dvd p + 4" "4 dvd p + 8" "4 dvd p + 12"
    "\<And>x y. (x, y) \<in> frees (first_block s) bs - {(p, z)} \<Longrightarrow> x + 16 \<le> p \<or> p + z \<le> x"
    "\<And>t :: mm. (\<And>q. q < p - 8 \<or> p + z - 4 \<le> q \<Longrightarrow> words t q = words s1 q) \<Longrightarrow>
      free_lists (words t) (block_list_start s) (frees (first_block s) bs - {(p, z)})"
    "\<And>t :: mm. (\<And>q. q < p - 8 \<or> p + z - 4 \<le> q \<Longrightarrow> words t q = words s1 q) \<Longrightarrow>
      free_ok (words t) (block_list_start s) (frees (first_block s) bs - {(p, z)})"
proof -
  let ?F = "frees (first_block s) bs" and ?b = "block_list_start s"
  have sh: "heap_shape s bs ?F" and adj: "no_adjacent bs" using inv by (simp_all add: heap_inv_def)
  note D = heap_shapeD [OF sh]
  obtain L R where LR: "bs = L @ (z, False) # R" "p = first_block s + extent L"
    using p by (auto simp: frees_def elim: blocks_split)
  have R: "R = [] \<or> snd (hd R)" using adj by (auto simp: LR no_adjacent_append no_adjacent_Cons)
  show z: "8 dvd z" "16 \<le> z" using D(7) by (auto simp: LR sizes_ok_def)
  have okLR: "sizes_ok L" "sizes_ok R" using D(7) by (auto simp: LR sizes_ok_def)
  show pp: "8 dvd p" "?b + 56 \<le> p" "p + z < 4294967296" "0 < ?b" "8 dvd ?b"
    using D(1,2,9,11,12) extent_dvd [OF okLR(1)] extent_nonneg [OF okLR(1)] extent_nonneg [OF okLR(2)] by (simp_all add: LR)
  note K = others_kept [OF sh p, folded s1_def]
  have K1: "heap_shape s1 bs (?F - {(p, z)})" and sf: "same_fields s s1" using K(4,5) [of s1] by simp_all
  show "same_fields s s1" by (rule sf)
  have p1: "p = first_block s1 + extent L" using same_fieldsD(5) [OF sf] by (simp add: LR(2))
  show "words s1 (p + z - 4) mod 2 = 1"
    using seam_reads(5) [OF K1 [unfolded LR(1)] p1] head_tag_alloc [OF okLR(2)] R by auto
  show "GET_SIZE s (HDRP p) = z" using coalesce_reads(3) [OF sh [unfolded LR(1)] LR(2)] .
  show "4 dvd p - 4" "4 dvd p - 8" "4 dvd p + z - 8" "4 dvd p + z - 4" "4 dvd p" "4 dvd p + 4" "4 dvd p + 8" "4 dvd p + 12"
    using around_dvd4 [OF pp(1) z(1)] pp(1) by (simp_all, presburger+)
  show "x + 16 \<le> p \<or> p + z \<le> x" if "(x, y) \<in> ?F - {(p, z)}" for x y
    by (rule K(3) [OF _ that]) simp
  show "free_lists (words t) ?b (?F - {(p, z)})"
    if "\<And>q. q < p - 8 \<or> p + z - 4 \<le> q \<Longrightarrow> words t q = words s1 q" for t :: mm
    by (rule K(1), erule that)
  show "free_ok (words t) ?b (?F - {(p, z)})"
    if "\<And>q. q < p - 8 \<or> p + z - 4 \<le> q \<Longrightarrow> words t q = words s1 q" for t :: mm
    by (rule K(2), erule that)
qed

lemmas tag_reads = macro_defs GET_SIZE_words GET_ALLOC_words words_PUT

lemma coalesce_rest:
  fixes s t :: mm
  assumes inv: "heap_inv s bs" and p: "(p, z) \<in> frees (first_block s) bs" and z24: "24 \<le> z"
    and w: "words t = (words (remove_free_block p s))
      (p - 4 := 9, p := 9, p + 4 := z - 8, p + z - 8 := z - 8, p + 12 := 0, p + 8 := 0)"
    and b: "block_list_start t = block_list_start s"
  shows "\<exists>s'. coalesce (p + 8) t = Some (p + 8, s')"
proof -
  let ?F = "frees (first_block s) bs"
  note B = wrapped_block [OF inv p]
  have z: "tag_size (z - 8) = z - 8" "tag_size 9 = 8" using B(1) by (simp_all add: tag_size_def)
  have r: "words t p = 9" "words t (p - 4) = 9" "words t (p + 4) = z - 8" "words t (4 + p) = z - 8"
    "words t (p + z - 4) mod 2 = 1"
    using z24 B(8) by (simp_all add: w)
  have rd: "PREV_BLKP t (p + 8) = p" "FTRP t p = p" "GET_ALLOC t p = 1" "NEXT_BLKP t (p + 8) = p + z"
    "GET_ALLOC t (HDRP (p + z)) = 1"
    using B(11-18) r z by (simp_all add: tag_reads)
  have c: "coalesce (p + 8) t = insert_free_block (p + 8) t \<bind> (\<lambda>s. Some (p + 8, s))"
    by (simp add: coalesce_def rd Let_def)
  have frame: "words t q = words (remove_free_block p s) q" if "q < p - 8 \<or> p + z - 4 \<le> q" for q
    using that z24 by (auto simp: w)
  have "free_ok (words t) (block_list_start t) (insert (p + 8, z - 8) (?F - {(p, z)}))"
    using B(21) [OF frame] B(3-6) z24 r z unfolding b by (simp add: free_ok_insert add.commute)
  moreover have "(p + 8, z - 8) \<notin> ?F - {(p, z)}" using B(19) [of "p + 8" "z - 8"] z24 by auto
  ultimately show ?thesis using insert_returns [of t "?F - {(p, z)}" "p + 8" "z - 8"] B(20) [OF frame] c unfolding b by auto
qed

text \<open>A block that is its own neighbour: it takes the other blocks of its class out of their list.\<close>

lemma coalesce_itself:
  fixes s t :: mm
  assumes inv: "heap_inv s bs" and p: "(p, z) \<in> frees (first_block s) bs"
    and w: "words t = (words (remove_free_block p s))
      (p - 4 := 1, p - 8 := 1, p - 4 := z, p + z - 8 := z, p + 4 := 0, p := 0)"
    and b: "block_list_start t = block_list_start s"
  shows "\<exists>s'. coalesce p t = Some (p, s')"
proof -
  let ?F = "frees (first_block s) bs" and ?b = "block_list_start s" and ?root = "block_list_start s + 4 * category z"
  let ?G = "?F - {(p, z)}" and ?G' = "{b \<in> ?F - {(p, z)}. category (snd b) \<noteq> category z}"
  note B = wrapped_block [OF inv p] and apart = wrapped_block(19) [OF inv p]
  have "z mod 2 = 0" using B(1) by presburger
  then have t1: "tag_size 1 = 0" "z mod 2 = 0" by (simp_all add: tag_size_def)
  have r: "words t (p - 8) = 1" "words t (p - 4) = z" "words t (p + z - 8) = z"
    "words t p = 0" "words t (p + 4) = 0" "words t (p + z - 4) mod 2 = 1"
    using B(2,8) by (auto simp: w)
  have rd: "PREV_BLKP t p = p" "FTRP t p = p + z - 8" "GET_ALLOC t (p + z - 8) = 0" "NEXT_BLKP t p = p + z"
    "GET_ALLOC t (HDRP (p + z)) = 1" "GET_SIZE t (HDRP p) = z"
    using B(1,11-18) r t1 by (simp_all add: tag_reads)
  define y where "y = u32 (2 * z)"
  define s8 where "s8 = remove_free_block p t"
  define s9 where "s9 = PUT (FTRP s8 p) y s8"
  define s10 where "s10 = PUT (HDRP (PREV_BLKP s9 p)) y s9"
  have y: "8 dvd y" "tag_size y = y" "u32 y = y"
    using B(1) by (auto simp: y_def u32_def dvd_mod_iff intro: dvd_mod)
  have "words s8 = (words t)(?root := 0, p + 4 := 0, p := 0)" "same_fields t s8"
    using remove_free_block_words [of t p] r B(1,3,7) by (simp_all add: s8_def b)
  note w8 = this(1) and e8 = same_fieldsD [OF this(2)]
  have root: "?b \<le> ?root" "?root < ?b + 40" using category_range [of z] by auto
  have w9: "words s9 = (words s8)(p + z - 8 := y)"
    using B(1,2,4,11-18) r root y by (simp add: s9_def tag_reads w8)
  have w10: "words s10 = (words s9)(p - 4 := y)" "PREV_BLKP s10 p = p"
    using B(1,2,4,11-18) r root y t1 by (simp_all add: s10_def tag_reads w9 w8)
  have c: "coalesce p t = insert_free_block p s10 \<bind> (\<lambda>s. Some (p, s))"
    unfolding coalesce_def Let_def rd
    by (simp add: s8_def [symmetric] y_def [symmetric] s9_def [symmetric] s10_def [symmetric] w10(2))
  have frame: "words t q = words (remove_free_block p s) q" if "q < p - 8 \<or> p + z - 4 \<le> q" for q
    using that B(2) by (auto simp: w)
  have K: "free_lists (words t) ?b ?G" "free_ok (words t) ?b ?G" by (rule B(20,21), erule frame)+
  have notp: "(p, k) \<notin> ?G" for k using apart [of p k] B(2) by auto
  have "free_lists (words s8) ?b ?G'"
  proof (rule free_lists_update [OF K(1,2) category_range [of z], where ps = "[]" and N = "{p}"])
    show "class_list (words s8) ?b (category z) []" by (simp add: class_list_def w8)
  qed (use notp B(3,4) in \<open>auto simp: in_class_def w8\<close>)
  moreover have "words s10 q = words s8 q" if "q \<in> link_words ?b ?G'" for q
  proof -
    from that consider "q < ?b + 40" | x k where "(x, k) \<in> ?G" "q = x \<or> q = x + 4"
      by (rule link_wordsE) auto
    then have "q \<noteq> p - 4 \<and> q \<noteq> p + z - 8"
    proof cases
      case (2 x k)
      with apart [OF 2(1)] B(2) show ?thesis by auto
    qed (use B(2,4) in simp)
    then show ?thesis by (simp add: w10(1) w9)
  qed
  ultimately have lists: "free_lists (words s10) ?b ?G'" by (rule free_lists_frame)
  have "words s10 (x - 4) = words t (x - 4)" if "(x, k) \<in> ?G" for x k
    using free_okD(1,2) [OF K(2) that] apart [OF that] root B(2,3) by (auto simp: w10(1) w9 w8)
  then have "free_ok (words s10) ?b ?G" by (rule free_ok_frame [OF K(2)])
  then have "free_ok (words s10) ?b ?G'" by (rule free_ok_subset) auto
  then have "free_ok (words s10) ?b (insert (p, y) ?G')"
    using B(2-6) y by (simp add: free_ok_insert w10(1))
  moreover have "block_list_start s10 = ?b" using b e8 by (simp add: s10_def s9_def PUT_mm_fields)
  moreover have "(p, y) \<notin> ?G'" using notp by simp
  ultimately show ?thesis using insert_returns [of s10 ?G' p y] lists c by auto
qed

lemma place_small:
  assumes inv: "heap_inv s bs" and p: "(p, z) \<in> frees (first_block s) bs" and a: "a = 0 \<or> a = 8"
  shows "\<exists>s'. place p a s = Some s'"
proof (cases "16 \<le> u32 (z - a)")
  case False
  then show ?thesis by (simp add: place_def wrapped_block(9) [OF inv p] Let_def MINFB_SIZE_def DSIZE_def)
next
  case split: True
  note B = wrapped_block [OF inv p]
  have u: "u32 (z - a) = z - a" "tag_size (z - a) = z - a" using a B(1,2,4-6) by auto
  define s1 where "s1 = remove_free_block p s"
  define s2 where "s2 = PUT (HDRP p) (PACK a 1) s1"
  define s3 where "s3 = PUT (FTRP s2 p) (PACK a 1) s2"
  define s4 where "s4 = PUT (HDRP (NEXT_BLKP s3 p)) (PACK (z - a) 0) s3"
  define s5 where "s5 = PUT (FTRP s4 (NEXT_BLKP s3 p)) (PACK (z - a) 0) s4"
  define s6 where "s6 = PUT (NEXT_LINKNODE_RP (NEXT_BLKP s3 p)) 0 s5"
  define s7 where "s7 = PUT (PREV_LINKNODE_RP (NEXT_BLKP s3 p)) 0 s6"
  have place: "place p a s = coalesce (NEXT_BLKP s3 p) s7 \<bind> (\<lambda>(_, s). Some s)"
    using split unfolding place_def Let_def B(9) u
    by (simp add: MINFB_SIZE_def DSIZE_def del: PACK_0 add: s1_def [symmetric] s2_def [symmetric] s3_def [symmetric]
        s4_def [symmetric] s5_def [symmetric] s6_def [symmetric] s7_def [symmetric])
  have b7: "block_list_start s7 = block_list_start s"
    using same_fieldsD(5) [OF B(10)] by (simp add: s7_def s6_def s5_def s4_def s3_def s2_def s1_def PUT_mm_fields)
  note four = B(11-18)
  from a show ?thesis
  proof
    assume a: "a = 8"
    have t: "PACK 8 1 = 9" "tag_size 9 = 8" by (simp_all add: PACK_def tag_size_def)
    have w3: "words s3 = (words s1)(p - 4 := 9, p := 9)" using four by (simp add: s3_def s2_def a t tag_reads)
    have nxt: "NEXT_BLKP s3 p = p + 8" using four by (simp add: tag_reads w3 t)
    have w4: "words s4 = (words s3)(p + 4 := z - 8)"
      unfolding s4_def nxt a using four by (simp add: tag_reads u [unfolded a] ac_simps)
    have w5: "words s5 = (words s4)(p + z - 8 := z - 8)"
      unfolding s5_def nxt a using four by (simp add: tag_reads u [unfolded a] w4)
    have "words s7 = (words s5)(p + 12 := 0, p + 8 := 0)"
      unfolding s7_def s6_def nxt using four by (simp add: tag_reads ac_simps)
    then have "words s7 = (words (remove_free_block p s))
      (p - 4 := 9, p := 9, p + 4 := z - 8, p + z - 8 := z - 8, p + 12 := 0, p + 8 := 0)" by (simp add: w5 w4 w3 s1_def)
    moreover have "24 \<le> z" using split u by (simp add: a)
    ultimately show ?thesis using coalesce_rest [OF inv p _ _ b7] place nxt by auto
  next
    assume a: "a = 0"
    have t: "PACK 0 1 = 1" "tag_size 1 = 0" by (simp_all add: PACK_def tag_size_def)
    have w3: "words s3 = (words s1)(p - 4 := 1, p - 8 := 1)" using four by (simp add: s3_def s2_def a t tag_reads)
    have nxt: "NEXT_BLKP s3 p = p" using four by (simp add: tag_reads w3 t)
    have w4: "words s4 = (words s3)(p - 4 := z)"
      unfolding s4_def nxt a using four u [unfolded a] by (simp add: tag_reads)
    have w5: "words s5 = (words s4)(p + z - 8 := z)"
      unfolding s5_def nxt a using four u [unfolded a] by (simp add: tag_reads w4)
    have "words s7 = (words s5)(p + 4 := 0, p := 0)" unfolding s7_def s6_def nxt using four by (simp add: tag_reads)
    then have "words s7 = (words (remove_free_block p s))
      (p - 4 := 1, p - 8 := 1, p - 4 := z, p + z - 8 := z, p + 4 := 0, p := 0)" by (simp only: w5 w4 w3 s1_def)
    from coalesce_itself [OF inv p this b7] show ?thesis using place nxt by auto
  qed
qed

text \<open>C26. For sizes below \<open>2 ^ 32 - 15\<close>, and only for these, the block that \<^verbatim>\<open>mm_malloc\<close> looks for has room for
  the payload and two tags. A request of a larger size, which no heap can hold, returns when there is a free block,
  and not with NULL: it places 0 or 8 bytes in a free block that is smaller than the request and gives its address.\<close>

theorem mm_malloc_size_wraps:
  assumes "mm_ok s bs" "(y, False) \<in> set bs" "2 ^ 32 - 15 \<le> n" "n < 2 ^ 32"
  shows "(\<forall>m. 0 < m \<longrightarrow> m < 2 ^ 32 \<longrightarrow> (m + 8 \<le> adjusted_size m) = (m < 2 ^ 32 - 15)) \<and>
    (\<exists>p z s'. mm_malloc n s = Some (p, s') \<and> p \<noteq> NULL \<and> (p, z) \<in> frees (first_block s) bs \<and> z < n \<and>
      adjusted_size n \<le> 8 \<and> place p (adjusted_size n) s = Some s')"
proof (intro conjI allI impI)
  fix m :: int
  assume m: "0 < m" "m < 2 ^ 32"
  show "(m + 8 \<le> adjusted_size m) = (m < 2 ^ 32 - 15)"
  proof (cases "m < 4294967281")
    case True
    then show ?thesis using adjusted_size_bounds(3) [OF m(1)] by simp
  next
    case False
    then show ?thesis using adjusted_size_wrapped [of m] m by auto
  qed
next
  have a: "adjusted_size n = 0 \<or> adjusted_size n = 8" using adjusted_size_wrapped [of n] assms(3,4) by simp
  then have "adjusted_size n \<le> 16" by auto
  from find_fit_small [OF assms(1,2) this] obtain p z where
    p: "find_fit (adjusted_size n) s = Some p" "p \<noteq> 0" "(p, z) \<in> frees (first_block s) bs"
      "z \<le> mem_brk s - first_block s" "first_block s = block_list_start s + 56" "0 < block_list_start s" "mem_brk s < 4294967296" .
  have "heap_inv s bs" using assms(1) by (simp add: mm_ok_def)
  from place_small [OF this p(3) a] obtain s' where s': "place p (adjusted_size n) s = Some s'" ..
  then have "mm_malloc n s = Some (p, s')" using p(1,2) assms(3) by (simp add: mm_malloc_def)
  with s' show "\<exists>p z s'. mm_malloc n s = Some (p, s') \<and> p \<noteq> NULL \<and> (p, z) \<in> frees (first_block s) bs \<and> z < n \<and>
      adjusted_size n \<le> 8 \<and> place p (adjusted_size n) s = Some s'"
    using p a assms(3) by (intro exI [of _ p] exI [of _ z] exI [of _ s']) auto
qed

theorem mm_malloc_size_wraps_witness:
  "\<exists>p z s'. mm_malloc (2 ^ 32 - 1) mm_ready = Some (p, s') \<and> p \<noteq> NULL \<and>
     (p, z) \<in> frees (first_block mm_ready) [(4096, False)] \<and> z < 2 ^ 32 - 1"
  using mm_malloc_size_wraps [OF mm_ready_ok(1), of 4096 "2 ^ 32 - 1"] by auto

text \<open>The other sum that wraps: a growth that takes the break past the end of the address space is accepted by
  \<^verbatim>\<open>mem_sbrk\<close>, and the break moves back below the heap.\<close>

lemma growth_wraps:
  assumes "mm_ok s bs" "\<not> in_space s a" "mem_brk s + grow_size a - 2 ^ 32 \<le> mem_max_addr s"
  shows "mem_sbrk (grow_size a) s = Some (mem_brk s, s\<lparr>mem_brk := mem_brk s + grow_size a - 2 ^ 32\<rparr>) \<and>
    mem_brk s + grow_size a - 2 ^ 32 < mem_brk s"
proof -
  have "heap_shape s bs (frees (first_block s) bs)" using assms(1) by (simp add: mm_ok_def heap_inv_def)
  note D = heap_shapeD [OF this]
  from assms(2,3) D(11,12) show ?thesis using mem_sbrk_wraps [of s "grow_size a"] by (simp add: in_space_def)
qed

end
