(* ===== verification/OldMm.thy ===== *)
theory OldMm
  imports MmProps
begin

text \<open>
  The earlier version of the allocator's internal functions in \<^verbatim>\<open>malloclab/function.c\<close>, with eight free
  lists where \<^verbatim>\<open>mm.c\<close> has ten: all blocks above 4096 bytes share the last list. No target of the Makefile
  compiles it. Its macros (\<^verbatim>\<open>function.h\<close>) are those of \<^verbatim>\<open>mm.c\<close>, and so are the loops that do not choose a
  list (\<open>insert_position\<close>, \<open>find_from\<close>).
\<close>

definition old_category :: "int \<Rightarrow> int" where
  "old_category sz =
     (if sz \<le> 8 then 0
      else if sz \<le> 16 then 0
      else if sz \<le> 32 then 0
      else if sz \<le> 64 then 1
      else if sz \<le> 128 then 2
      else if sz \<le> 256 then 3
      else if sz \<le> 512 then 4
      else if sz \<le> 2048 then 5
      else if sz \<le> 4096 then 6
      else 7)"

definition old_freeCategory_root :: "mm \<Rightarrow> int \<Rightarrow> addr" where
  "old_freeCategory_root s sz = block_list_start s + old_category sz * WSIZE"

definition old_insert_free_block :: "addr \<Rightarrow> mm \<Rightarrow> mm option" where
  "old_insert_free_block p s =
     (let root = old_freeCategory_root s (GET_SIZE s (HDRP p)) in
      do {
        (prevp, nextp) \<leftarrow> insert_position s p root (GET s root);
        Some (if prevp = root then
                let s = PUT root p s;
                    s = PUT (NEXT_LINKNODE_RP p) nextp s;
                    s = PUT (PREV_LINKNODE_RP p) NULL s
                in if nextp \<noteq> NULL then PUT (PREV_LINKNODE_RP nextp) p s else s
              else
                let s = PUT (NEXT_LINKNODE_RP prevp) p s;
                    s = PUT (PREV_LINKNODE_RP p) prevp s;
                    s = PUT (NEXT_LINKNODE_RP p) nextp s
                in if nextp \<noteq> NULL then PUT (PREV_LINKNODE_RP nextp) p s else s)
      })"

definition old_remove_free_block :: "addr \<Rightarrow> mm \<Rightarrow> mm" where
  "old_remove_free_block p s =
     (let root = old_freeCategory_root s (GET_SIZE s (HDRP p));
          prevp = GET s (PREV_LINKNODE_RP p);
          nextp = GET s (NEXT_LINKNODE_RP p);
          s = (if prevp = NULL then
                 let s = (if nextp \<noteq> NULL then PUT (PREV_LINKNODE_RP nextp) 0 s else s)
                 in PUT root nextp s
               else
                 let s = (if nextp \<noteq> NULL then PUT (PREV_LINKNODE_RP nextp) prevp s else s)
                 in PUT (NEXT_LINKNODE_RP prevp) nextp s);
          s = PUT (NEXT_LINKNODE_RP p) NULL s
      in PUT (PREV_LINKNODE_RP p) NULL s)"

definition old_find_fit :: "int \<Rightarrow> mm \<Rightarrow> addr option" where
  "old_find_fit sz s = find_from s sz (old_freeCategory_root s sz)"

definition old_coalesce :: "addr \<Rightarrow> mm \<Rightarrow> (addr \<times> mm) option" where
  "old_coalesce bp s =
     (let prev_alloc = GET_ALLOC s (FTRP s (PREV_BLKP s bp));
          next_alloc = GET_ALLOC s (HDRP (NEXT_BLKP s bp));
          sz = GET_SIZE s (HDRP bp);
          (bp, s) =
            (if prev_alloc \<noteq> 0 \<and> next_alloc \<noteq> 0 then (bp, s)
             else if prev_alloc \<noteq> 0 \<and> next_alloc = 0 then
               let sz = u32 (sz + GET_SIZE s (HDRP (NEXT_BLKP s bp)));
                   s = old_remove_free_block (NEXT_BLKP s bp) s;
                   s = PUT (HDRP bp) (PACK sz 0) s;
                   s = PUT (FTRP s bp) (PACK sz 0) s
               in (bp, s)
             else if prev_alloc = 0 \<and> next_alloc \<noteq> 0 then
               let sz = u32 (sz + GET_SIZE s (HDRP (PREV_BLKP s bp)));
                   s = old_remove_free_block (PREV_BLKP s bp) s;
                   s = PUT (FTRP s bp) (PACK sz 0) s;
                   s = PUT (HDRP (PREV_BLKP s bp)) (PACK sz 0) s
               in (PREV_BLKP s bp, s)
             else
               let sz = u32 (sz + (GET_SIZE s (FTRP s (NEXT_BLKP s bp)) + GET_SIZE s (HDRP (PREV_BLKP s bp))));
                   s = old_remove_free_block (PREV_BLKP s bp) s;
                   s = old_remove_free_block (NEXT_BLKP s bp) s;
                   s = PUT (FTRP s (NEXT_BLKP s bp)) (PACK sz 0) s;
                   s = PUT (HDRP (PREV_BLKP s bp)) (PACK sz 0) s
               in (PREV_BLKP s bp, s))
      in do {
        s \<leftarrow> old_insert_free_block bp s;
        Some (bp, s)
      })"

definition old_extend_heap :: "int \<Rightarrow> mm \<Rightarrow> (addr \<times> mm) option" where
  "old_extend_heap dwords s =
     (let sz = (if dwords mod 2 \<noteq> 0 then u32 (u32 (dwords + 1) * DSIZE) else u32 (dwords * DSIZE)) in
      case mem_sbrk (s32 sz) s of
        None \<Rightarrow> Some (NULL, s)
      | Some (bp, s) \<Rightarrow>
          let s = PUT (HDRP bp) (PACK sz 0) s;
              s = PUT (FTRP s bp) (PACK sz 0) s;
              s = PUT (NEXT_LINKNODE_RP bp) NULL s;
              s = PUT (PREV_LINKNODE_RP bp) NULL s;
              s = PUT (HDRP (NEXT_BLKP s bp)) (PACK 0 1) s
          in old_coalesce bp s)"

definition old_place :: "addr \<Rightarrow> int \<Rightarrow> mm \<Rightarrow> mm option" where
  "old_place bp asize s =
     (let csize = GET_SIZE s (HDRP bp);
          s = old_remove_free_block bp s
      in if u32 (csize - asize) \<ge> MINFB_SIZE * DSIZE then
           let s = PUT (HDRP bp) (PACK asize 1) s;
               s = PUT (FTRP s bp) (PACK asize 1) s;
               bp = NEXT_BLKP s bp;
               s = PUT (HDRP bp) (PACK (u32 (csize - asize)) 0) s;
               s = PUT (FTRP s bp) (PACK (u32 (csize - asize)) 0) s;
               s = PUT (NEXT_LINKNODE_RP bp) 0 s;
               s = PUT (PREV_LINKNODE_RP bp) 0 s
           in do { (_, s) \<leftarrow> old_coalesce bp s; Some s }
         else
           let s = PUT (HDRP bp) (PACK csize 1) s
           in Some (PUT (FTRP s bp) (PACK csize 1) s))"

subsection \<open>Agreement with mm.c\<close>

lemma old_category_min: "old_category sz = min 7 (category sz)"
  by (simp add: old_category_def category_def)

lemma old_root_same: "sz \<le> 8192 \<Longrightarrow> old_freeCategory_root s sz = get_freeCategory_root s sz"
  by (simp add: old_freeCategory_root_def get_freeCategory_root_def old_category_def category_def)

lemma old_insert_same: "GET_SIZE s (HDRP p) \<le> 8192 \<Longrightarrow> old_insert_free_block p s = insert_free_block p s"
  by (simp add: old_insert_free_block_def insert_free_block_def old_root_same)

lemma old_remove_same: "GET_SIZE s (HDRP p) \<le> 8192 \<Longrightarrow> old_remove_free_block p s = remove_free_block p s"
  by (simp add: old_remove_free_block_def remove_free_block_def old_root_same)

text \<open>A list whose blocks are all too small is passed over.\<close>

lemma find_from_skip:
  assumes lists: "free_lists (words s) s0 F" and ok: "free_ok (words s) s0 F"
    and hl: "heap_listp s = s0 + 48" and i: "0 \<le> i" "i < 10"
    and small: "\<And>y. category y = i \<Longrightarrow> y < z"
  shows "find_from s z (s0 + 4 * i) = find_from s z (s0 + 4 * (i + 1))"
proof -
  from lists i obtain ps where ps: "class_list (words s) s0 i ps" "set ps = in_class F i"
    unfolding free_lists_def by force
  then obtain l where seg: "dseg (words s) 0 (words s (s0 + 4 * i)) (map fst ps) l 0"
    by (auto simp: class_list_def)
  have "sizes_read s ps" using ok ps(2) by (intro sizes_readI) (auto simp: in_class_def)
  moreover have "i \<in> {0..<10}" using i by simp
  ultimately have inner: "find_in_list s z (GET s (s0 + 4 * i)) = Some (head_addr (not_smaller z ps))"
    using seg find_in_list_eq GET_words root_dvd4 free_ok_s0 [OF ok] by metis
  have "\<forall>b \<in> set ps. snd b < z" using ps(2) small by (auto simp: in_class_def)
  then have "not_smaller z ps = []" by (simp add: dropWhile_eq_Nil_conv)
  then have "head_addr (not_smaller z ps) = 0" by (simp only: head_addr_simps)
  with i inner show ?thesis
    by (simp add: find_from.simps [of s z "s0 + 4 * i"] hl WSIZE_def distrib_left add.assoc)
qed

lemma old_find_fit_same:
  assumes inv: "heap_inv s bs"
  shows "old_find_fit z s = find_fit z s"
proof (cases "z \<le> 8192")
  case True
  then show ?thesis by (simp add: old_find_fit_def find_fit_def old_root_same)
next
  case False
  have sh: "heap_shape s bs (frees (first_block s) bs)" using inv by (simp add: heap_inv_def)
  note D = heap_shapeD [OF sh]
  note skip = find_from_skip [OF D(13) shape_free_ok [OF sh D(14)] D(4)]
  have s7: "find_from s z (block_list_start s + 28) = find_from s z (block_list_start s + 32)"
    using skip [of 7 z] False by (simp add: category_def split: if_splits)
  have s8: "find_from s z (block_list_start s + 32) = find_from s z (block_list_start s + 36)" if "16384 < z"
    using skip [of 8 z] that by (simp add: category_def split: if_splits)
  show ?thesis
  proof (cases "z \<le> 16384")
    case True
    with False s7 show ?thesis
      by (simp add: old_find_fit_def find_fit_def old_freeCategory_root_def get_freeCategory_root_def old_category_def
          category_def WSIZE_def)
  next
    case False
    with s7 s8 show ?thesis
      by (simp add: old_find_fit_def find_fit_def old_freeCategory_root_def get_freeCategory_root_def old_category_def
          category_def WSIZE_def)
  qed
qed

text \<open>Merging. The block that goes into a list at the end has the merged size, which bounds those of its parts.\<close>

definition merged_size :: "blk list \<Rightarrow> int \<Rightarrow> blk list \<Rightarrow> int" where
  "merged_size L z R = fst (merge_right (snd (merge_left L z)) R)"

lemma old_coalesce_alone:
  assumes "GET_ALLOC s (FTRP s (PREV_BLKP s p)) \<noteq> 0" "GET_ALLOC s (HDRP (NEXT_BLKP s p)) \<noteq> 0" "GET_SIZE s (HDRP p) \<le> 8192"
  shows "old_coalesce p s = coalesce p s"
  using assms by (simp add: old_coalesce_def coalesce_def Let_def old_insert_same)

lemma old_coalesce_next:
  assumes P: "pending s L z ((y, False) # R)" and p: "p = first_block s + extent L"
    and A: "L = [] \<or> snd (last L)" and small: "z + y \<le> 8192"
  shows "old_coalesce p s = coalesce p s"
proof -
  have sh: "heap_shape s (L @ (z, False) # (y, False) # R)
      (frees (first_block s) L \<union> frees (first_block s + extent L + z) ((y, False) # R))"
    using P by (simp add: pending_def)
  note D = heap_shapeD [OF sh] and R = coalesce_reads [OF sh p] and S = seam_reads [OF sh p]
  have ok: "sizes_ok L" "8 dvd z" "16 \<le> z" "8 dvd y" "16 \<le> y" using D(7) by auto
  have pp: "8 dvd p" using D(1) extent_dvd [OF ok(1)] by (simp add: p)
  have n: "GET_SIZE s (HDRP (NEXT_BLKP s p)) = y"
    using S(5) ok around_dvd4 [OF pp ok(2)] by (simp add: R HDRP_def WSIZE_def GET_SIZE_words head_tag_def)
  have u: "u32 (z + y) = z + y" using small ok by simp
  define s1 where "s1 = remove_free_block (p + z) s"
  define s2 where "s2 = PUT (HDRP p) (z + y) s1"
  define s3 where "s3 = PUT (FTRP s2 p) (z + y) s2"
  have four: "4 dvd p - 4" "4 dvd p + (z + y) - 8" using around_dvd4 [OF pp, of "z + y"] ok by simp_all
  have w2: "words s2 (p - 4) = z + y" using four u by (simp add: s2_def HDRP_def WSIZE_def words_PUT)
  have "FTRP s2 p = p + (z + y) - 8"
    using ok four by (simp add: FTRP_def HDRP_def WSIZE_def DSIZE_def GET_SIZE_words w2)
  then have "words s3 (p - 4) = z + y" using ok four u w2 by (simp add: s3_def words_PUT)
  then have "GET_SIZE s3 (HDRP p) = z + y" using ok four by (simp add: HDRP_def WSIZE_def GET_SIZE_words)
  then have ins: "old_insert_free_block p s3 = insert_free_block p s3" using small by (simp add: old_insert_same)
  have rem: "old_remove_free_block (p + z) s = s1" using n small ok unfolding s1_def by (simp add: old_remove_same R)
  show ?thesis
    using A unfolding old_coalesce_def coalesce_def Let_def R(1-3) n unfolding R(4)
    by (simp add: u rem s1_def [symmetric] s2_def [symmetric] s3_def [symmetric] ins)
qed

lemma old_coalesce_prev:
  assumes P: "pending s (L @ [(x, False)]) z R" and p: "p = first_block s + extent L + x"
    and A: "R = [] \<or> snd (hd R)" and small: "x + z \<le> 8192"
  shows "old_coalesce p s = coalesce p s"
proof -
  let ?L = "L @ [(x, False)]" and ?F = "frees (first_block s) (L @ [(x, False)]) \<union> frees (first_block s + extent (L @ [(x, False)]) + z) R"
  have sh: "heap_shape s (?L @ (z, False) # R) ?F" using P by (simp add: pending_def)
  have pL: "p = first_block s + extent ?L" by (simp add: p)
  note D = heap_shapeD [OF sh] and R = coalesce_reads [OF sh pL] and S = seam_reads [OF sh pL]
  have ok: "sizes_ok L" "8 dvd z" "16 \<le> z" "8 dvd x" "16 \<le> x" using D(7) by auto
  have pp: "8 dvd p" using D(1) extent_dvd [OF ok(1)] ok by (simp add: p)
  have lt: "last_tag ?L = x" by (simp add: last_tag_def)
  have prev: "PREV_BLKP s p = p - x" using R(5) ok by (simp add: lt)
  have four: "4 dvd p - x - 4" "4 dvd p + z - 8" "4 dvd p - 8"
    using around_dvd4 [OF pp ok(2)] around_dvd4 [OF pp ok(4)] by simp_all
  have n: "GET_SIZE s (HDRP (PREV_BLKP s p)) = x"
    using S(2) ok four by (simp add: R HDRP_def WSIZE_def GET_SIZE_words lt)
  have u: "u32 (z + x) = x + z" "u32 (x + z) = x + z" using small ok by simp_all
  define s1 where "s1 = remove_free_block (p - x) s"
  have "(p - x, x) \<in> ?F" by (simp add: p)
  note s1 = shape_remove [OF sh this, folded s1_def]
  have pL1: "p = first_block s1 + extent ?L" using same_fieldsD [OF s1(3)] pL by simp
  note R1 = coalesce_reads [OF s1(1) pL1] and S1 = seam_reads [OF s1(1) pL1]
  define s2 where "s2 = PUT (FTRP s1 p) (x + z) s1"
  define s3 where "s3 = PUT (HDRP (PREV_BLKP s2 p)) (x + z) s2"
  have ftr: "FTRP s1 p = p + z - 8" by (simp add: FTRP_def DSIZE_def R1)
  have w2: "words s2 = (words s1)(p + z - 8 := x + z)" using four u by (simp add: s2_def ftr words_PUT)
  have prev2: "PREV_BLKP s2 p = p - x"
    using S1(1) ok four by (simp add: PREV_BLKP_def DSIZE_def GET_SIZE_words w2 lt)
  have w3: "words s3 = (words s2)(p - x - 4 := x + z)"
    using four u by (simp add: s3_def prev2 HDRP_def WSIZE_def words_PUT)
  have prev3: "PREV_BLKP s3 p = p - x"
    using S1(1) ok four by (simp add: PREV_BLKP_def DSIZE_def GET_SIZE_words w3 w2 lt)
  have "GET_SIZE s3 (HDRP (p - x)) = x + z" using ok four by (simp add: HDRP_def WSIZE_def GET_SIZE_words w3)
  then have ins: "old_insert_free_block (p - x) s3 = insert_free_block (p - x) s3" using small by (simp add: old_insert_same)
  have rem: "old_remove_free_block (p - x) s = s1" using n small ok unfolding s1_def by (simp add: old_remove_same prev)
  show ?thesis
    using A unfolding old_coalesce_def coalesce_def Let_def R(1-3) n u unfolding prev
    by (simp add: rem s1_def [symmetric] s2_def [symmetric] s3_def [symmetric] prev3 ins)
qed

lemma old_coalesce_both:
  assumes P: "pending s (L @ [(x, False)]) z ((y, False) # R)" and p: "p = first_block s + extent L + x"
    and small: "x + z + y \<le> 8192"
  shows "old_coalesce p s = coalesce p s"
proof -
  let ?L = "L @ [(x, False)]" and ?R = "(y, False) # R"
  let ?F = "frees (first_block s) ?L \<union> frees (first_block s + extent ?L + z) ?R"
  have sh: "heap_shape s (?L @ (z, False) # ?R) ?F" using P by (simp add: pending_def)
  have pL: "p = first_block s + extent ?L" by (simp add: p)
  note D = heap_shapeD [OF sh] and R = coalesce_reads [OF sh pL] and S = seam_reads [OF sh pL]
  have ok: "sizes_ok L" "8 dvd z" "16 \<le> z" "8 dvd x" "16 \<le> x" "8 dvd y" "16 \<le> y" using D(7) by auto
  have pp: "8 dvd p" using D(1) extent_dvd [OF ok(1)] ok by (simp add: p)
  have lt: "last_tag ?L = x" "head_tag ?R = y" by (simp_all add: last_tag_def head_tag_def)
  have prev: "PREV_BLKP s p = p - x" using R(5) ok by (simp add: lt)
  have four: "4 dvd p - x - 4" "4 dvd p + (z + y) - 8" "4 dvd p - 8" "4 dvd p + z - 4" "4 dvd p + z + y - 8"
    using around_dvd4 [OF pp ok(2)] around_dvd4 [OF pp ok(4)] around_dvd4 [OF pp, of "z + y"] ok
    by (simp_all add: add.assoc)
  have n: "GET_SIZE s (FTRP s (NEXT_BLKP s p)) = y" "GET_SIZE s (HDRP (PREV_BLKP s p)) = x"
    using S ok four by (simp_all add: R FTRP_def HDRP_def WSIZE_def DSIZE_def GET_SIZE_words lt)
  have u: "u32 (z + (y + x)) = x + z + y" "u32 (x + z + y) = x + z + y" using small ok by simp_all
  define s1 where "s1 = remove_free_block (p - x) s"
  have "(p - x, x) \<in> ?F" by (simp add: p)
  note s1 = shape_remove [OF sh this, folded s1_def]
  have pL1: "p = first_block s1 + extent ?L" using same_fieldsD [OF s1(3)] pL by simp
  note R1 = coalesce_reads [OF s1(1) pL1] and S1 = seam_reads [OF s1(1) pL1]
  define s2 where "s2 = remove_free_block (p + z) s1"
  have "(p + z, y) \<in> ?F - {(p - x, x)}" using ok by (auto simp: p)
  note s2 = shape_remove [OF s1(1) this, folded s2_def]
  have pL2: "p = first_block s2 + extent ?L" using same_fieldsD [OF s2(3)] pL1 by simp
  note R2 = coalesce_reads [OF s2(1) pL2] and S2 = seam_reads [OF s2(1) pL2]
  define s3 where "s3 = PUT (FTRP s2 (NEXT_BLKP s2 p)) (x + z + y) s2"
  define s4 where "s4 = PUT (HDRP (PREV_BLKP s3 p)) (x + z + y) s3"
  have ftr: "FTRP s2 (NEXT_BLKP s2 p) = p + z + y - 8"
    using S2(5) ok four by (simp add: R2 FTRP_def HDRP_def WSIZE_def DSIZE_def GET_SIZE_words lt)
  have w3: "words s3 = (words s2)(p + z + y - 8 := x + z + y)" using four u by (simp add: s3_def ftr words_PUT)
  have prev3: "PREV_BLKP s3 p = p - x"
    using S2(1) ok four by (simp add: PREV_BLKP_def DSIZE_def GET_SIZE_words w3 lt)
  have w4: "words s4 = (words s3)(p - x - 4 := x + z + y)"
    using four u by (simp add: s4_def prev3 HDRP_def WSIZE_def words_PUT)
  have prev4: "PREV_BLKP s4 p = p - x"
    using S2(1) ok four by (simp add: PREV_BLKP_def DSIZE_def GET_SIZE_words w4 w3 lt)
  have "GET_SIZE s4 (HDRP (p - x)) = x + z + y" using ok four by (simp add: HDRP_def WSIZE_def GET_SIZE_words w4)
  then have ins: "old_insert_free_block (p - x) s4 = insert_free_block (p - x) s4" using small by (simp add: old_insert_same)
  have rem1: "old_remove_free_block (p - x) s = s1" using n(2) small ok unfolding s1_def by (simp add: old_remove_same prev)
  have "GET_SIZE s1 (HDRP (p + z)) = y" using S1(5) ok four by (simp add: HDRP_def WSIZE_def GET_SIZE_words lt)
  then have rem2: "old_remove_free_block (p + z) s1 = s2" using small ok unfolding s2_def by (simp add: old_remove_same)
  show ?thesis
    unfolding old_coalesce_def coalesce_def Let_def R(1-3) n u
    by (simp add: prev R1(4) rem1 rem2 s1_def [symmetric] s2_def [symmetric] s3_def [symmetric] s4_def [symmetric] prev4 ins)
qed

lemma old_coalesce_same:
  assumes P: "pending s L z R" and p: "p = first_block s + extent L" and small: "merged_size L z R \<le> 8192"
  shows "old_coalesce p s = coalesce p s"
proof (cases "L = [] \<or> snd (last L)")
  case A: True
  show ?thesis
  proof (cases "R = [] \<or> snd (hd R)")
    case True
    then have "merged_size L z R = z" using A by (cases R) (auto simp: merged_size_def merge_left_def elim: merge_right.elims)
    moreover have sh: "heap_shape s (L @ (z, False) # R) (frees (first_block s) L \<union> frees (first_block s + extent L + z) R)"
      using P by (simp add: pending_def)
    ultimately show ?thesis
      using small A True by (intro old_coalesce_alone) (simp_all add: coalesce_reads(1-3) [OF sh p])
  next
    case False
    then obtain R' y where R: "R = (y, False) # R'" by (metis (full_types) list.collapse prod.collapse)
    then show ?thesis using old_coalesce_next [OF P [unfolded R] p A] A small by (auto simp: merged_size_def merge_left_def)
  qed
next
  case False
  then obtain L' x where L: "L = L' @ [(x, False)]" by (metis (full_types) append_butlast_last_id prod.collapse)
  then have pL: "p = first_block s + extent L' + x" using p by simp
  show ?thesis
  proof (cases "R = [] \<or> snd (hd R)")
    case True
    then have "merged_size L z R = x + z" by (cases R) (auto simp: L merged_size_def merge_left_def elim: merge_right.elims)
    with small show ?thesis using old_coalesce_prev [OF P [unfolded L] pL True] by simp
  next
    case False
    then obtain R' y where R: "R = (y, False) # R'" by (metis (full_types) list.collapse prod.collapse)
    with small show ?thesis using old_coalesce_both [OF P [unfolded L R] pL] by (simp add: L merged_size_def merge_left_def)
  qed
qed

text \<open>Allocating in a free block, whole or split, and growing the heap.\<close>

lemma old_place_cut:
  assumes "16 \<le> u32 (GET_SIZE s (HDRP p) - a)" "GET_SIZE s (HDRP p) \<le> 8192"
  shows "old_place p a s =
    (case cut_block p a (GET_SIZE s (HDRP p)) (remove_free_block p s) of (q, t) \<Rightarrow> do { (_, t) \<leftarrow> old_coalesce q t; Some t })"
  using assms by (simp add: old_place_def cut_block_def Let_def MINFB_SIZE_def DSIZE_def old_remove_same)

lemma old_place_same:
  assumes inv: "heap_inv s (L @ (z, False) # R)" and p: "p = first_block s + extent L"
    and a: "8 dvd a" "16 \<le> a" "a \<le> z" and small: "z \<le> 8192"
  shows "old_place p a s = place p a s"
proof -
  have sh: "heap_shape s (L @ (z, False) # R) (frees (first_block s) (L @ (z, False) # R))" and
    R: "R = [] \<or> snd (hd R)" using inv by (auto simp: heap_inv_def no_adjacent_append no_adjacent_Cons)
  have z: "GET_SIZE s (HDRP p) = z" using coalesce_reads(3) [OF sh p] .
  have u: "u32 (z - a) = z - a" using a small by simp
  show ?thesis
  proof (cases "16 \<le> z - a")
    case True
    from cut_pending [OF inv p a(1,2) True] obtain t where
      t: "cut_block p a z (remove_free_block p s) = (p + a, t)" "pending t (L @ [(a, True)]) (z - a) R"
        "p + a = first_block t + extent (L @ [(a, True)])" by blast
    have "merged_size (L @ [(a, True)]) (z - a) R = z - a"
      using R by (cases R) (auto simp: merged_size_def merge_left_def elim: merge_right.elims)
    then have "old_coalesce (p + a) t = coalesce (p + a) t" using old_coalesce_same [OF t(2,3)] small a by simp
    then show ?thesis using True place_cut [of s p a] old_place_cut [of s p a] small by (simp add: z u t(1))
  next
    case False
    then show ?thesis
      using small by (simp add: old_place_def place_def Let_def old_remove_same MINFB_SIZE_def DSIZE_def z u)
  qed
qed

lemma old_extend_same:
  assumes inv: "heap_inv s bs" and d: "2 \<le> d" "d < 536870911" and z: "z = extend_size d"
    and fits: "z < 2147483648" "mem_brk s + z \<le> mem_max_addr s" and small: "merged_size bs z [] \<le> 8192"
  shows "old_extend_heap d s = extend_heap d s"
proof -
  have sh: "heap_shape s bs (frees (first_block s) bs)" using inv by (simp add: heap_inv_def)
  note D = heap_shapeD [OF sh]
  have zz: "16 \<le> z" "8 dvd z" using d by (auto simp: z extend_size_def)
  have "0 \<le> mem_brk s" using D(2,9) extent_nonneg [OF D(7)] by simp
  then have sbrk: "mem_sbrk (s32 z) s = Some (mem_brk s, s\<lparr>mem_brk := mem_brk s + z\<rparr>)"
    using fits zz D(12) by (simp add: mem_sbrk_exact)
  have sz: "(if d mod 2 \<noteq> 0 then u32 (u32 (d + 1) * DSIZE) else u32 (d * DSIZE)) = z"
    using extend_size_word [of d] d z by simp
  have "old_extend_heap d s = old_coalesce (mem_brk s) (fresh_block (mem_brk s) z (s\<lparr>mem_brk := mem_brk s + z\<rparr>))"
    unfolding old_extend_heap_def fresh_block_def sz by (simp add: Let_def sbrk del: PACK_0)
  then show ?thesis
    using extend_heap_fresh [OF inv d z fits] old_coalesce_same [OF fresh_pending(1,2) [OF inv zz fits(2) refl] small] by simp
qed

lemma old_extend_refused:
  "mem_sbrk (s32 (if d mod 2 \<noteq> 0 then u32 (u32 (d + 1) * DSIZE) else u32 (d * DSIZE))) s = None \<Longrightarrow>
     old_extend_heap d s = Some (NULL, s) \<and> extend_heap d s = Some (NULL, s)"
  by (simp add: old_extend_heap_def extend_heap_def Let_def)

lemma old_root_differs: "8192 < z \<Longrightarrow> old_freeCategory_root s z \<noteq> get_freeCategory_root s z"
  by (simp add: old_freeCategory_root_def get_freeCategory_root_def old_category_def category_def WSIZE_def)

text \<open>C17. The older allocator functions against those of \<^verbatim>\<open>mm.c\<close>. Both choose the same list exactly for
  blocks of up to 8192 bytes, and on every well-formed heap the search finds the same block for every size,
  although it starts in another list for the larger ones. Up to that size the changes are the same ones:
  allocating in a free block of at most 8192 bytes, whether it is split or not, leaves the same memory; so does
  coalescing a block that was just freed, or that was just got by growing the heap, with any of its neighbours, when
  the merged block has at most 8192 bytes.\<close>

theorem old_allocator_agrees:
  assumes "mm_ok s bs"
  shows "(old_freeCategory_root s z = get_freeCategory_root s z \<longleftrightarrow> z \<le> 8192) \<and>
    old_find_fit z s = find_fit z s \<and>
    (bs = L @ (y, False) # R \<and> y \<le> 8192 \<and> 8 dvd a \<and> 16 \<le> a \<and> a \<le> y \<longrightarrow>
       old_place (first_block s + extent L) a s = place (first_block s + extent L) a s) \<and>
    (pending t L y R \<and> merged_size L y R \<le> 8192 \<longrightarrow>
       old_coalesce (first_block t + extent L) t = coalesce (first_block t + extent L) t) \<and>
    (2 \<le> d \<and> d < 268435455 \<and> mem_brk s + extend_size d \<le> mem_max_addr s \<and> merged_size bs (extend_size d) [] \<le> 8192 \<longrightarrow>
       old_extend_heap d s = extend_heap d s)"
proof -
  have inv: "heap_inv s bs" using assms by (simp add: mm_ok_def)
  show ?thesis
  proof (intro conjI impI)
    show "(old_freeCategory_root s z = get_freeCategory_root s z) = (z \<le> 8192)"
      using old_root_same old_root_differs [of z s] by (metis not_le)
    show "old_find_fit z s = find_fit z s" by (rule old_find_fit_same [OF inv])
    show "old_place (first_block s + extent L) a s = place (first_block s + extent L) a s"
      if "bs = L @ (y, False) # R \<and> y \<le> 8192 \<and> 8 dvd a \<and> 16 \<le> a \<and> a \<le> y"
      using that inv old_place_same [of s L y R _ a] by simp
    show "old_coalesce (first_block t + extent L) t = coalesce (first_block t + extent L) t"
      if "pending t L y R \<and> merged_size L y R \<le> 8192"
      using that old_coalesce_same by blast
    show "old_extend_heap d s = extend_heap d s"
      if "2 \<le> d \<and> d < 268435455 \<and> mem_brk s + extend_size d \<le> mem_max_addr s \<and> merged_size bs (extend_size d) [] \<le> 8192"
      using that by (intro old_extend_same [OF inv]) (auto simp: extend_size_def)
  qed
qed

text \<open>After \<^verbatim>\<open>mm_init\<close> the heap is one free block of 4096 bytes: a search, an allocation that splits it, and a growth
  that merges with it.\<close>

theorem old_allocator_agrees_witness:
  "old_find_fit 20000 mm_ready = find_fit 20000 mm_ready \<and>
   old_freeCategory_root mm_ready 20000 \<noteq> get_freeCategory_root mm_ready 20000 \<and>
   old_place 4152 24 mm_ready = place 4152 24 mm_ready \<and>
   old_extend_heap 512 mm_ready = extend_heap 512 mm_ready"
proof (intro conjI)
  note C = old_allocator_agrees [OF mm_ready_ok(1)]
  show "old_find_fit 20000 mm_ready = find_fit 20000 mm_ready" using C by simp
  show "old_freeCategory_root mm_ready 20000 \<noteq> get_freeCategory_root mm_ready 20000" using C [of 20000] by simp
  show "old_place 4152 24 mm_ready = place 4152 24 mm_ready" using C [of _ "[]" 4096 "[]" 24] by (simp add: mm_ready_ok(2))
  show "old_extend_heap 512 mm_ready = extend_heap 512 mm_ready"
    using C [of _ _ _ _ _ _ 512] by (simp add: mm_ready_ok(3,6) extend_size_def merged_size_def merge_left_def)
qed

end
