(* ===== verification/Clock.thy ===== *)
theory Clock
  imports Prelude "HOL-Library.Word" Complex_Main
begin

text \<open>
  The cycle counter of \<^verbatim>\<open>malloclab/clock.c\<close> (its x86 half). The processor's counter, process
  times and \<^verbatim>\<open>sleep\<close> are the fields of an environment that acts on a world of any type; the file's
  static variables are the fields of \<open>clk\<close>. A \<^verbatim>\<open>double\<close> is a rational here: rounding, which
  only counters above \<open>2 ^ 53\<close> meet, is not modelled.
\<close>

record 'w env =
  rdtsc :: "'w \<Rightarrow> (32 word \<times> 32 word) \<times> 'w"
  tms_utime :: "'w \<Rightarrow> int \<times> 'w"
  sleep_for :: "int \<Rightarrow> 'w \<Rightarrow> 'w"
  test_fun :: "'w \<Rightarrow> 'w"                       \<comment> \<open>the function to time, on its argument\<close>
  buf_malloc :: "int \<Rightarrow> 'w \<Rightarrow> bool \<times> 'w"     \<comment> \<open>whether libc's \<^verbatim>\<open>malloc\<close> gives a buffer\<close>
  gettimeofday :: "'w \<Rightarrow> (int \<times> int) \<times> 'w"
  setitimers :: "int \<Rightarrow> 'w \<Rightarrow> 'w"
  getitimer_real :: "'w \<Rightarrow> (int \<times> int) \<times> 'w"

record 'w clk =
  world :: 'w
  cyc_hi :: "32 word"
  cyc_lo :: "32 word"
  cyc_per_tick :: rat
  start_tick :: int

definition access_counter :: "'w env \<Rightarrow> ('w, 'a) clk_scheme \<Rightarrow> (32 word \<times> 32 word) \<times> ('w, 'a) clk_scheme" where
  "access_counter E s = (let (c, w) = rdtsc E (world s) in (c, s\<lparr>world := w\<rparr>))"

definition start_counter :: "'w env \<Rightarrow> ('w, 'a) clk_scheme \<Rightarrow> ('w, 'a) clk_scheme" where
  "start_counter E s = (let ((hi, lo), s) = access_counter E s in s\<lparr>cyc_hi := hi, cyc_lo := lo\<rparr>)"

definition get_counter :: "'w env \<Rightarrow> ('w, 'a) clk_scheme \<Rightarrow> rat \<times> ('w, 'a) clk_scheme" where
  "get_counter E s =
     (let ((ncyc_hi, ncyc_lo), s) = access_counter E s;
          lo = ncyc_lo - cyc_lo s;
          borrow = (if lo > ncyc_lo then 1 else 0);
          hi = ncyc_hi - cyc_hi s - borrow
      in (of_int (uint hi) * 2 ^ 30 * 4 + of_int (uint lo), s))"

definition ovhd :: "'w env \<Rightarrow> ('w, 'a) clk_scheme \<Rightarrow> rat \<times> ('w, 'a) clk_scheme" where
  "ovhd E s = (let (_, s) = get_counter E (start_counter E s) in get_counter E (start_counter E s))"

text \<open>The value is the rate in MHz; for \<open>sleeptime = 0\<close> the code divides by zero.\<close>

definition mhz_full :: "'w env \<Rightarrow> int \<Rightarrow> ('w, 'a) clk_scheme \<Rightarrow> rat \<times> ('w, 'a) clk_scheme" where
  "mhz_full E sleeptime s =
     (let s = start_counter E s;
          s = s\<lparr>world := sleep_for E sleeptime (world s)\<rparr>;
          (c, s) = get_counter E s
      in (c / (1000000 * of_int sleeptime), s))"

definition mhz :: "'w env \<Rightarrow> ('w, 'a) clk_scheme \<Rightarrow> rat \<times> ('w, 'a) clk_scheme" where
  "mhz E s = mhz_full E 2 s"

subsection \<open>Compensation for timer interrupts\<close>

definition NEVENT :: int where "NEVENT = 100"
definition THRESHOLD :: rat where "THRESHOLD = 1000"
definition RECORDTHRESH :: rat where "RECORDTHRESH = 3000"

definition utime :: "'w env \<Rightarrow> ('w, 'a) clk_scheme \<Rightarrow> int \<times> ('w, 'a) clk_scheme" where
  "utime E s = (let (c, w) = tms_utime E (world s) in (c, s\<lparr>world := w\<rparr>))"

text \<open>The loop waits for \<open>NEVENT\<close> ticks: None when they never come.\<close>

partial_function (option) callibrate_loop ::
  "'w env \<Rightarrow> int \<Rightarrow> rat \<Rightarrow> int \<Rightarrow> ('w, 'a) clk_scheme \<Rightarrow> ('w, 'a) clk_scheme option" where
  "callibrate_loop E e oldt oldc s =
     (if e < NEVENT then
        let (newt, s) = get_counter E s in
        if newt - oldt \<ge> THRESHOLD then
          let (newc, s) = utime E s in
          if newc > oldc then
            let cpt = (newt - oldt) / of_int (newc - oldc);
                s = (if (cyc_per_tick s = 0 \<or> cyc_per_tick s > cpt) \<and> cpt > RECORDTHRESH
                     then s\<lparr>cyc_per_tick := cpt\<rparr> else s)
            in callibrate_loop E (e + 1) newt newc s
          else callibrate_loop E e newt oldc s
        else callibrate_loop E e oldt oldc s
      else Some s)"

definition callibrate :: "'w env \<Rightarrow> ('w, 'a) clk_scheme \<Rightarrow> ('w, 'a) clk_scheme option" where
  "callibrate E s =
     (let (oldc, s) = utime E s;
          s = start_counter E s;
          (oldt, s) = get_counter E s
      in callibrate_loop E 0 oldt oldc s)"

definition start_comp_counter :: "'w env \<Rightarrow> ('w, 'a) clk_scheme \<Rightarrow> ('w, 'a) clk_scheme option" where
  "start_comp_counter E s =
     (case (if cyc_per_tick s = 0 then callibrate E s else Some s) of
        None \<Rightarrow> None
      | Some s \<Rightarrow> let (t, s) = utime E s in Some (start_counter E (s\<lparr>start_tick := t\<rparr>)))"

definition get_comp_counter :: "'w env \<Rightarrow> ('w, 'a) clk_scheme \<Rightarrow> rat \<times> ('w, 'a) clk_scheme" where
  "get_comp_counter E s =
     (let (time, s) = get_counter E s;
          (t, s) = utime E s;
          ticks = t - start_tick s
      in (time - of_int ticks * cyc_per_tick s, s))"

declare callibrate_loop.simps [code]

subsection \<open>The difference of two readings\<close>

definition cycles :: "32 word \<times> 32 word \<Rightarrow> int" where
  "cycles c = uint (fst c) * 2 ^ 32 + uint (snd c)"

lemma u32_sub: "uint (a - b :: 32 word) = (uint a - uint b) mod 2 ^ 32"
  unfolding uint_word_ariths by simp

lemma sub_mod:
  fixes a b m :: int
  assumes "0 \<le> a" "a < m" "0 \<le> b" "b < m"
  shows "(a - b) mod m = a - b + (if a < b then m else 0)"
proof (cases "a < b")
  case True
  have "(a - b) mod m = (a - b + m) mod m" by simp
  also have "\<dots> = a - b + m" using True assms by (intro mod_pos_pos_trivial) auto
  finally show ?thesis using True by simp
qed (use assms in simp)

lemma borrow_iff: "a - b > (a :: 32 word) \<longleftrightarrow> uint a < uint b"
proof -
  have a: "0 \<le> uint a" "uint a < 2 ^ 32" "0 \<le> uint b" "uint b < 2 ^ 32"
    using uint_bounded [of a] uint_bounded [of b] by simp_all
  then show ?thesis using sub_mod [of "uint a" "2 ^ 32" "uint b"] by (auto simp: word_less_def u32_sub)
qed

lemma sub64:
  "uint (nhi - hi - (if nlo - lo > nlo then 1 else 0) :: 32 word) * 2 ^ 32 + uint (nlo - lo :: 32 word) =
   (cycles (nhi, nlo) - cycles (hi, lo)) mod 2 ^ 64"
proof -
  let ?b = "if uint nlo < uint lo then 1 else 0 :: int"
  have r: "0 \<le> uint x" "uint x < 2 ^ 32" for x :: "32 word" using uint_bounded [of x] by simp_all
  have lo: "uint (nlo - lo) = uint nlo - uint lo + ?b * 2 ^ 32"
    using r [of nlo] r [of lo] sub_mod [of "uint nlo" "2 ^ 32" "uint lo"] by (simp add: u32_sub)
  have hi: "uint (nhi - hi - (if nlo - lo > nlo then 1 else 0)) = (uint nhi - uint hi - ?b) mod 2 ^ 32"
    by (auto simp: borrow_iff u32_sub mod_simps)
  obtain k where k: "(uint nhi - uint hi - ?b) mod 2 ^ 32 = uint nhi - uint hi - ?b - k * 2 ^ 32"
    using minus_mult_div_eq_mod [of "uint nhi - uint hi - ?b" "2 ^ 32"] by (metis mult.commute)
  let ?r = "uint (nhi - hi - (if nlo - lo > nlo then 1 else 0)) * 2 ^ 32 + uint (nlo - lo)"
  have eq: "?r = cycles (nhi, nlo) - cycles (hi, lo) - k * 2 ^ 64"
    unfolding hi k lo cycles_def by (simp add: algebra_simps)
  have two: "0 \<le> a * 2 ^ 32 + b \<and> a * 2 ^ 32 + b < 2 ^ 64" if "0 \<le> a" "a < 2 ^ 32" "0 \<le> b" "b < 2 ^ 32" for a b :: int
    using that by auto
  have "0 \<le> ?r" "?r < 2 ^ 64"
    using two [OF r r, of "nhi - hi - (if nlo - lo > nlo then 1 else 0)" "nlo - lo"] by blast+
  then have "?r = ?r mod 2 ^ 64" by simp
  also have "\<dots> = (cycles (nhi, nlo) - cycles (hi, lo)) mod 2 ^ 64"
    unfolding eq using mod_mult_self1 [of "cycles (nhi, nlo) - cycles (hi, lo)" "- k" "2 ^ 64"] by simp
  finally show ?thesis .
qed

text \<open>C28. \<^verbatim>\<open>get_counter\<close> is the 64-bit difference between the processor's counter now and at the
  last \<^verbatim>\<open>start_counter\<close>, whatever the borrow between the two 32-bit halves: modulo \<open>2 ^ 64\<close>, so that
  one overflow of the counter in between does not matter.\<close>

theorem get_counter_elapsed:
  "fst (get_counter E ((start_counter E s)\<lparr>world := w\<rparr>)) =
   rat_of_int ((cycles (fst (rdtsc E w)) - cycles (fst (rdtsc E (world s)))) mod 2 ^ 64)"
proof -
  obtain hi lo w0 nhi nlo w1 where r: "rdtsc E (world s) = ((hi, lo), w0)" "rdtsc E w = ((nhi, nlo), w1)"
    by (metis surj_pair)
  show ?thesis
    unfolding get_counter_def start_counter_def access_counter_def Let_def
    by (simp add: r sub64 [symmetric] del: power_numeral) simp
qed

end
