(* ===== verification/Fcyc.thy ===== *)
theory Fcyc
  imports Clock "HOL-Library.Multiset"
begin

text \<open>
  The K-best sampler (\<^verbatim>\<open>malloclab/fcyc.c\<close>). The file's static variables extend the clock's
  state. The function to time and the cache buffer's allocation belong to the environment; what the
  buffer holds is \<open>cache_mem\<close>, read only to keep the cache busy.
\<close>

record 'w fcyc = "'w clk" +
  kbest :: int
  maxsamples :: int
  epsilon :: rat
  compensate :: bool
  clear_cache :: bool
  cache_bytes :: int
  cache_block :: int
  cache_buf :: bool                   \<comment> \<open>not NULL\<close>
  cache_mem :: "int \<Rightarrow> int"
  sink :: int
  "values" :: "rat list"
  samplecount :: int

datatype fcyc_stop =
    NoBuffer         \<comment> \<open>the fatal error of \<open>clear\<close>\<close>
  | Hang             \<comment> \<open>a loop that does not end\<close>
  | BadIndex         \<comment> \<open>an access outside \<open>values\<close>\<close>

text \<open>The call of \<^verbatim>\<open>calloc\<close> for the \<^verbatim>\<open>k\<close> values is taken to succeed; its result is not tested.\<close>

definition init_sampler :: "'w fcyc \<Rightarrow> 'w fcyc" where
  "init_sampler s = s\<lparr>values := replicate (nat (kbest s)) 0, samplecount := 0\<rparr>"

text \<open>The insertion of \<open>values[pos]\<close> into the sorted values before it.\<close>

fun bubble :: "nat \<Rightarrow> rat list \<Rightarrow> rat list" where
  "bubble 0 vs = vs"
| "bubble (Suc i) vs =
     (if vs ! i > vs ! Suc i then bubble i (vs[Suc i := vs ! i, i := vs ! Suc i]) else vs)"

definition value_at :: "int \<Rightarrow> 'w fcyc \<Rightarrow> fcyc_stop + rat" where
  "value_at i s = (if 0 \<le> i \<and> i < int (length (values s)) then Inr (values s ! nat i) else Inl BadIndex)"

definition store_value :: "int \<Rightarrow> rat \<Rightarrow> 'w fcyc \<Rightarrow> fcyc_stop + rat list" where
  "store_value i val s = (if 0 \<le> i \<and> i < int (length (values s)) then Inr ((values s)[nat i := val]) else Inl BadIndex)"

definition add_sample :: "rat \<Rightarrow> 'w fcyc \<Rightarrow> fcyc_stop + 'w fcyc" where
  "add_sample val s =
     and_then
       (if samplecount s < kbest s then and_then (store_value (samplecount s) val s) (\<lambda>vs. Inr (samplecount s, vs))
        else and_then (value_at (kbest s - 1) s) (\<lambda>worst.
          if val < worst then and_then (store_value (kbest s - 1) val s) (\<lambda>vs. Inr (kbest s - 1, vs))
          else Inr (0, values s)))
       (\<lambda>(pos, vs). Inr (s\<lparr>values := bubble (nat pos) vs, samplecount := samplecount s + 1\<rparr>))"

definition has_converged :: "'w fcyc \<Rightarrow> fcyc_stop + bool" where
  "has_converged s =
     (if samplecount s \<ge> kbest s then
        and_then (value_at 0 s) (\<lambda>best. and_then (value_at (kbest s - 1) s) (\<lambda>worst.
          Inr ((1 + epsilon s) * best \<ge> worst)))
      else Inr False)"

text \<open>\<open>clear\<close> reads one word per cache block; \<open>incr\<close> and the end are counted in words.\<close>

partial_function (option) clear_loop :: "int \<Rightarrow> (int \<Rightarrow> int) \<Rightarrow> int \<Rightarrow> int \<Rightarrow> int \<Rightarrow> int option" where
  "clear_loop incr m cend c x = (if c < cend then clear_loop incr m cend (c + incr) (s32 (x + m c)) else Some x)"

definition clear :: "'w env \<Rightarrow> 'w fcyc \<Rightarrow> fcyc_stop + 'w fcyc" where
  "clear E s =
     and_then
       (if cache_buf s then Inr s
        else let (ok, w) = buf_malloc E (cache_bytes s) (world s)
             in if ok then Inr (s\<lparr>world := w, cache_buf := True\<rparr>) else Inl NoBuffer)
       (\<lambda>s. case clear_loop (s32 (u32 (cache_block s) div 4)) (cache_mem s) (u32 (cache_bytes s) div 4) 0 (sink s) of
              None \<Rightarrow> Inl Hang
            | Some x \<Rightarrow> Inr (s\<lparr>sink := x\<rparr>))"

text \<open>One measurement: the body of either loop of \<open>fcyc\<close> up to \<open>add_sample\<close>.\<close>

definition measure_once :: "'w env \<Rightarrow> 'w fcyc \<Rightarrow> fcyc_stop + (rat \<times> 'w fcyc)" where
  "measure_once E s =
     and_then (if clear_cache s then clear E s else Inr s) (\<lambda>s.
       if compensate s then
         (case start_comp_counter E s of
            None \<Rightarrow> Inl Hang
          | Some s \<Rightarrow> Inr (get_comp_counter E (s\<lparr>world := test_fun E (world s)\<rparr>)))
       else
         let s = start_counter E s
         in Inr (get_counter E (s\<lparr>world := test_fun E (world s)\<rparr>)))"

lemma clock_more:
  "clk.more (start_counter E s) = clk.more s" "clk.more (snd (get_counter E s)) = clk.more s"
  "clk.more (snd (utime E s)) = clk.more s" "clk.more (snd (get_comp_counter E s)) = clk.more s"
  by (simp_all add: start_counter_def get_counter_def access_counter_def utime_def get_comp_counter_def split_beta Let_def)

lemma callibrate_loop_more: "callibrate_loop E e oldt oldc s = Some s' \<Longrightarrow> clk.more s' = clk.more s"
proof (erule callibrate_loop.raw_induct [rotated], goal_cases)
  case (1 loop E e oldt oldc s s')
  note more = clock_more(2,3)
  from 1(2) show ?case
    unfolding Let_def split_beta by (auto split: if_splits dest!: 1(1) simp: more)
qed

lemma start_comp_more: "start_comp_counter E s = Some s' \<Longrightarrow> clk.more s' = clk.more s"
  by (auto simp: start_comp_counter_def callibrate_def clock_more split_beta Let_def
      split: if_splits option.splits dest!: callibrate_loop_more)

text \<open>What a measurement leaves alone: everything of the sampler but the cache buffer.\<close>

definition same_sampler :: "'w fcyc \<Rightarrow> 'w fcyc \<Rightarrow> bool" where
  "same_sampler s s' \<longleftrightarrow> kbest s' = kbest s \<and> maxsamples s' = maxsamples s \<and> epsilon s' = epsilon s \<and>
     compensate s' = compensate s \<and> clear_cache s' = clear_cache s \<and> values s' = values s \<and> samplecount s' = samplecount s"

lemma more_same_sampler: "clk.more s' = clk.more s \<Longrightarrow> same_sampler s s'"
  by (cases s; cases s') (simp add: same_sampler_def)

lemma clear_same_sampler: "clear E s = Inr s' \<Longrightarrow> same_sampler s s'"
  by (auto simp: clear_def and_then_Inr Let_def split_beta same_sampler_def split: if_splits option.splits)

lemma same_sampler_trans: "same_sampler s t \<Longrightarrow> same_sampler t u \<Longrightarrow> same_sampler s u"
  by (simp add: same_sampler_def)

lemma same_sampler_world [simp]: "same_sampler s (t\<lparr>world := w\<rparr>) = same_sampler s t"
  by (simp add: same_sampler_def)

lemma measure_same_sampler: "measure_once E s = Inr (c, s') \<Longrightarrow> same_sampler s s'"
proof -
  assume "measure_once E s = Inr (c, s')"
  then obtain s1 where s1: "(if clear_cache s then clear E s else Inr s) = Inr s1"
    and r: "(if compensate s1 then
         (case start_comp_counter E s1 of
            None \<Rightarrow> Inl Hang
          | Some t \<Rightarrow> Inr (get_comp_counter E (t\<lparr>world := test_fun E (world t)\<rparr>)))
       else let t = start_counter E s1 in Inr (get_counter E (t\<lparr>world := test_fun E (world t)\<rparr>))) = Inr (c, s')"
    unfolding measure_once_def and_then_Inr by blast
  have one: "same_sampler s s1"
    using s1 clear_same_sampler by (auto simp: same_sampler_def split: if_splits)
  have cnt: "same_sampler t (snd (get_counter E t))" "same_sampler t (snd (get_comp_counter E t))"
    "same_sampler t (start_counter E t)" for t :: "'a fcyc"
    by (rule more_same_sampler, simp add: clock_more)+
  have "same_sampler s1 s'"
  proof (cases "compensate s1")
    case True
    with r obtain t where t: "start_comp_counter E s1 = Some t" "get_comp_counter E (t\<lparr>world := test_fun E (world t)\<rparr>) = (c, s')"
      by (auto split: option.splits)
    have a: "same_sampler s1 (t\<lparr>world := test_fun E (world t)\<rparr>)" using more_same_sampler [OF start_comp_more [OF t(1)]] by simp
    show ?thesis using same_sampler_trans [OF a cnt(2)] t(2) by simp
  next
    case False
    let ?t = "start_counter E s1"
    have a: "same_sampler s1 (?t\<lparr>world := test_fun E (world ?t)\<rparr>)" using cnt(3) by simp
    have "get_counter E (?t\<lparr>world := test_fun E (world ?t)\<rparr>) = (c, s')" using r False by (simp add: Let_def)
    with same_sampler_trans [OF a cnt(1)] show ?thesis by simp
  qed
  with one show ?thesis by (rule same_sampler_trans)
qed

function fcyc_loop :: "'w env \<Rightarrow> 'w fcyc \<Rightarrow> fcyc_stop + 'w fcyc" where
  "fcyc_loop E s =
     and_then (measure_once E s) (\<lambda>(cyc, s1).
     and_then (add_sample cyc s1) (\<lambda>s2.
     and_then (has_converged s2) (\<lambda>conv.
       if \<not> conv \<and> samplecount s2 < maxsamples s2 then fcyc_loop E s2 else Inr s2)))"
  by pat_completeness auto

lemma add_sample_count: "add_sample c s = Inr s' \<Longrightarrow> samplecount s' = samplecount s + 1 \<and> maxsamples s' = maxsamples s"
  by (auto simp: add_sample_def and_then_Inr)

termination fcyc_loop
proof (relation "measure (\<lambda>(E, s). nat (maxsamples s - samplecount s))", goal_cases)
  case (2 E s r cyc s1 s2 conv)
  from 2(1,2) have "same_sampler s s1" by (auto intro: measure_same_sampler)
  with add_sample_count [OF 2(3)] 2(5) show ?case by (simp add: same_sampler_def)
qed simp

declare fcyc_loop.simps [simp del]

definition fcyc :: "'w env \<Rightarrow> 'w fcyc \<Rightarrow> fcyc_stop + (rat \<times> 'w fcyc)" where
  "fcyc E s =
     and_then (fcyc_loop E (init_sampler s)) (\<lambda>s.
     and_then (value_at 0 s) (\<lambda>result. Inr (result, s\<lparr>values := []\<rparr>)))"

subsection \<open>Parameters\<close>

definition set_fcyc_clear_cache :: "bool \<Rightarrow> 'w fcyc \<Rightarrow> 'w fcyc" where
  "set_fcyc_clear_cache c s = s\<lparr>clear_cache := c\<rparr>"

definition set_fcyc_cache_size :: "int \<Rightarrow> 'w fcyc \<Rightarrow> 'w fcyc" where
  "set_fcyc_cache_size bytes s =
     (if bytes \<noteq> cache_bytes s then s\<lparr>cache_bytes := bytes, cache_buf := False\<rparr> else s)"

definition set_fcyc_cache_block :: "int \<Rightarrow> 'w fcyc \<Rightarrow> 'w fcyc" where
  "set_fcyc_cache_block bytes s = s\<lparr>cache_block := bytes\<rparr>"

definition set_fcyc_compensate :: "bool \<Rightarrow> 'w fcyc \<Rightarrow> 'w fcyc" where
  "set_fcyc_compensate c s = s\<lparr>compensate := c\<rparr>"

definition set_fcyc_k :: "int \<Rightarrow> 'w fcyc \<Rightarrow> 'w fcyc" where
  "set_fcyc_k k s = s\<lparr>kbest := k\<rparr>"

definition set_fcyc_maxsamples :: "int \<Rightarrow> 'w fcyc \<Rightarrow> 'w fcyc" where
  "set_fcyc_maxsamples n s = s\<lparr>maxsamples := n\<rparr>"

definition set_fcyc_epsilon :: "rat \<Rightarrow> 'w fcyc \<Rightarrow> 'w fcyc" where
  "set_fcyc_epsilon e s = s\<lparr>epsilon := e\<rparr>"

declare clear_loop.simps [code]

subsection \<open>What the sampler keeps\<close>

text \<open>The specification: the k smallest samples in order, padded with the zeros of \<^verbatim>\<open>calloc\<close> while
  there are fewer than k.\<close>

definition k_smallest :: "nat \<Rightarrow> rat list \<Rightarrow> rat list" where
  "k_smallest k xs = take k (sort xs) @ replicate (k - length xs) 0"

definition sampler_ok :: "nat \<Rightarrow> rat list \<Rightarrow> 'w fcyc \<Rightarrow> bool" where
  "sampler_ok k xs s \<longleftrightarrow> 0 < k \<and> kbest s = int k \<and> samplecount s = int (length xs) \<and> values s = k_smallest k xs"

lemma insort_snoc:
  fixes x y :: rat
  assumes "sorted (ys @ [y])"
  shows "insort x (ys @ [y]) = (if y > x then insort x ys @ [y] else ys @ [y, x])"
proof -
  let ?r = "if y > x then insort x ys @ [y] else ys @ [y, x]"
  have "sorted ?r" using assms by (auto simp: sorted_append sorted_insort set_insort_key)
  then have "sort ?r = ?r" by (rule sort_key_id_if_sorted [of "\<lambda>x. x", unfolded list.map_ident])
  moreover have "sort ?r = insort x (ys @ [y])"
    by (rule properties_for_sort) (use assms in \<open>simp_all add: sorted_insort\<close>)
  ultimately show ?thesis by simp
qed

lemma bubble_insort: "sorted ys \<Longrightarrow> bubble (length ys) (ys @ x # zs) = insort x ys @ zs"
proof (induction ys arbitrary: zs rule: rev_induct)
  case (snoc y ys)
  have "(ys @ [y]) @ x # zs = ys @ y # x # zs" by simp
  moreover have "(ys @ y # x # zs) ! length ys = y" "(ys @ y # x # zs) ! Suc (length ys) = x"
    by (simp_all add: nth_append)
  moreover have "(ys @ y # x # zs)[Suc (length ys) := y, length ys := x] = ys @ x # y # zs"
    by (simp add: list_update_append)
  ultimately show ?case
    using snoc insort_snoc [OF snoc.prems, of x] by (simp add: sorted_append)
qed simp

lemma sort_snoc: "sort (xs @ [x]) = insort x (sort xs :: rat list)"
  by (rule properties_for_sort) (simp_all add: sorted_insort)

lemma take_insort:
  fixes x :: rat
  assumes "sorted ys" "k \<le> length ys" "0 < k"
  shows "take k (insort x ys) = (if x < ys ! (k - 1) then insort x (take (k - 1) ys) else take k ys)"
  using assms
proof (induction ys arbitrary: k)
  case (Cons y ys)
  obtain j where k: "k = Suc j" using Cons.prems(3) by (cases k) auto
  show ?case
  proof (cases j)
    case 0
    then show ?thesis by (auto simp: k)
  next
    case (Suc i)
    have len: "i < length ys" "sorted ys" "\<forall>z \<in> set ys. y \<le> z" using Cons.prems k Suc by auto
    have ge: "y \<le> ys ! l" if "l \<le> i" for l using len that by simp
    have same: "y # take i ys = take (Suc i) ys" if x: "x \<le> y" "\<not> x < ys ! i"
    proof -
      have eq: "ys ! l = y" if "l \<le> i" for l
        using ge [OF that] x sorted_nth_mono [OF len(2) that len(1)] by simp
      show ?thesis
      proof (rule nth_equalityI)
        fix l assume "l < length (y # take i ys)"
        then show "(y # take i ys) ! l = take (Suc i) ys ! l" using len(1) eq by (cases l) auto
      qed (use len(1) in simp)
    qed
    have xy: "x = y" if "x \<le> y" "\<not> x < ys ! i" using ge [of i] that by simp
    from Cons.IH [of j] Cons.prems Suc len ge [of i] same xy show ?thesis
      by (cases "x \<le> y"; cases "x < ys ! i") (simp_all add: k)
  qed
qed simp

lemma sampler_init: "0 < kbest s \<Longrightarrow> sampler_ok (nat (kbest s)) [] (init_sampler s)"
  by (simp add: sampler_ok_def init_sampler_def k_smallest_def)

lemma k_smallest_length [simp]: "length (k_smallest k xs) = k"
  by (simp add: k_smallest_def)

lemma add_sample_ok:
  assumes ok: "sampler_ok k xs s"
  obtains s' where "add_sample val s = Inr s'" "sampler_ok k (xs @ [val]) s'"
    "s' = s\<lparr>values := values s', samplecount := samplecount s'\<rparr>"
proof -
  have K: "0 < k" "kbest s = int k" "samplecount s = int (length xs)" "values s = k_smallest k xs"
    using ok by (simp_all add: sampler_ok_def)
  have len: "length (values s) = k" by (simp add: K(4) k_smallest_def)
  have "\<exists>pos vs. (if samplecount s < kbest s then and_then (store_value (samplecount s) val s) (\<lambda>vs. Inr (samplecount s, vs))
        else and_then (value_at (kbest s - 1) s) (\<lambda>worst.
          if val < worst then and_then (store_value (kbest s - 1) val s) (\<lambda>vs. Inr (kbest s - 1, vs))
          else Inr (0, values s))) =
      (Inr (pos, vs) :: fcyc_stop + _) \<and> bubble (nat pos) vs = k_smallest k (xs @ [val])"
  proof (cases "length xs < k")
    case True
    then have v: "values s = sort xs @ 0 # replicate (k - Suc (length xs)) 0"
      by (simp add: K(4) k_smallest_def Suc_diff_Suc [symmetric] flip: replicate_Suc)
    have "(values s)[length xs := val] = sort xs @ val # replicate (k - Suc (length xs)) 0"
      unfolding v by (metis length_sort list_update_length)
    with bubble_insort [of "sort xs" val "replicate (k - Suc (length xs)) 0"] True K
    show ?thesis by (simp add: k_smallest_def sort_snoc store_value_def len)
  next
    case False
    then have v: "values s = take k (sort xs)" by (simp add: K(4) k_smallest_def)
    have last: "value_at (kbest s - 1) s = Inr (sort xs ! (k - 1))"
      using K(1,2) False by (simp add: value_at_def v nat_diff_distrib)
    have t: "take k (sort xs) = take (k - 1) (sort xs) @ [sort xs ! (k - 1)]"
      using K(1) False take_Suc_conv_app_nth [of "k - 1" "sort xs"] by simp
    have "(values s)[k - 1 := val] = take (k - 1) (sort xs) @ [val]"
      unfolding v t using K(1) False by (simp add: list_update_append)
    with bubble_insort [of "take (k - 1) (sort xs)" val "[]"] False
    have "bubble (k - 1) ((values s)[k - 1 := val]) = insort val (take (k - 1) (sort xs))"
      by (simp add: sorted_wrt_take)
    with take_insort [of "sort xs" k val] False K(1,2,3) last v
    show ?thesis by (auto simp: k_smallest_def sort_snoc nat_diff_distrib store_value_def len)
  qed
  then obtain pos vs where p: "(if samplecount s < kbest s then and_then (store_value (samplecount s) val s) (\<lambda>vs. Inr (samplecount s, vs))
        else and_then (value_at (kbest s - 1) s) (\<lambda>worst.
          if val < worst then and_then (store_value (kbest s - 1) val s) (\<lambda>vs. Inr (kbest s - 1, vs))
          else Inr (0, values s))) =
      (Inr (pos, vs) :: fcyc_stop + _)" "bubble (nat pos) vs = k_smallest k (xs @ [val])" by blast
  show thesis
    by (rule that [of "s\<lparr>values := bubble (nat pos) vs, samplecount := samplecount s + 1\<rparr>"])
      (use K p in \<open>simp_all add: add_sample_def sampler_ok_def\<close>)
qed

subsection \<open>The measurement loop\<close>

text \<open>The samples one after the other, as the code measures them.\<close>

fun samples :: "nat \<Rightarrow> 'w env \<Rightarrow> 'w fcyc \<Rightarrow> rat list" where
  "samples 0 E s = []"
| "samples (Suc n) E s =
     (case measure_once E s of
        Inl _ \<Rightarrow> []
      | Inr (cyc, s1) \<Rightarrow> (case add_sample cyc s1 of Inl _ \<Rightarrow> [cyc] | Inr s2 \<Rightarrow> cyc # samples n E s2))"

definition converged :: "nat \<Rightarrow> rat \<Rightarrow> rat list \<Rightarrow> bool" where
  "converged k eps xs \<longleftrightarrow> k \<le> length xs \<and> (1 + eps) * sort xs ! 0 \<ge> sort xs ! (k - 1)"

definition stops :: "nat \<Rightarrow> rat \<Rightarrow> int \<Rightarrow> rat list \<Rightarrow> bool" where
  "stops k eps m xs \<longleftrightarrow> converged k eps xs \<or> m \<le> int (length xs)"

lemma has_converged_ok: "sampler_ok k xs s \<Longrightarrow> has_converged s = Inr (converged k (epsilon s) xs)"
  by (auto simp: has_converged_def value_at_def sampler_ok_def converged_def k_smallest_def nat_diff_distrib)

lemma sampler_ok_same: "same_sampler s s' \<Longrightarrow> sampler_ok k xs s \<Longrightarrow> sampler_ok k xs s'"
  by (simp add: same_sampler_def sampler_ok_def)

lemma measure_stop: "measure_once E s = Inl e \<Longrightarrow> e \<noteq> BadIndex \<and> (clear_cache s \<or> compensate s)"
  by (auto simp: measure_once_def clear_def and_then_def Let_def split: if_splits sum.splits option.splits prod.splits)

definition loop_result :: "nat \<Rightarrow> rat list \<Rightarrow> 'w env \<Rightarrow> 'w fcyc \<Rightarrow> fcyc_stop + 'w fcyc \<Rightarrow> bool" where
  "loop_result k xs E s r \<longleftrightarrow>
     (case r of
        Inl e \<Rightarrow> e \<noteq> BadIndex \<and> (clear_cache s \<or> compensate s)
      | Inr s' \<Rightarrow> \<exists>n \<ge> 1. length (samples n E s) = n \<and> sampler_ok k (xs @ samples n E s) s' \<and>
          stops k (epsilon s) (maxsamples s) (xs @ samples n E s) \<and>
          (\<forall>j \<in> {1..<n}. \<not> stops k (epsilon s) (maxsamples s) (xs @ take j (samples n E s))))"

lemma fcyc_loop_spec: "sampler_ok k xs s \<Longrightarrow> loop_result k xs E s (fcyc_loop E s)"
proof (induction E s arbitrary: xs rule: fcyc_loop.induct)
  case (1 E s)
  show ?case
  proof (cases "measure_once E s")
    case (Inl e)
    then show ?thesis using measure_stop [OF Inl] by (simp add: loop_result_def fcyc_loop.simps [of E s])
  next
    case (Inr r)
    obtain c s1 where r: "r = (c, s1)" by (cases r)
    note m = Inr [unfolded r]
    have same: "same_sampler s s1" by (rule measure_same_sampler [OF m])
    from add_sample_ok [OF sampler_ok_same [OF same "1.prems"], of c] obtain s2 where
      a: "add_sample c s1 = Inr s2" "sampler_ok k (xs @ [c]) s2" "s2 = s1\<lparr>values := values s2, samplecount := samplecount s2\<rparr>" .
    have f: "epsilon s2 = epsilon s" "maxsamples s2 = maxsamples s" "clear_cache s2 = clear_cache s" "compensate s2 = compensate s"
      using arg_cong [OF a(3), of epsilon] arg_cong [OF a(3), of maxsamples] arg_cong [OF a(3), of clear_cache]
        arg_cong [OF a(3), of compensate] same by (simp_all add: same_sampler_def)
    have conv: "has_converged s2 = Inr (converged k (epsilon s) (xs @ [c]))" using has_converged_ok [OF a(2)] f by simp
    have cnt: "samplecount s2 = int (length (xs @ [c]))" using a(2) by (simp add: sampler_ok_def)
    show ?thesis
    proof (cases "stops k (epsilon s) (maxsamples s) (xs @ [c])")
      case True
      then have "fcyc_loop E s = Inr s2"
        using m a(1) conv cnt f by (subst fcyc_loop.simps) (auto simp: stops_def)
      then show ?thesis
        using True m a by (auto simp: loop_result_def intro!: exI [of _ 1])
    next
      case False
      then have cont: "\<not> converged k (epsilon s) (xs @ [c])" "samplecount s2 < maxsamples s2"
        using cnt f by (simp_all add: stops_def)
      then have step: "fcyc_loop E s = fcyc_loop E s2"
        using m a(1) conv by (subst fcyc_loop.simps) simp
      have IH: "loop_result k (xs @ [c]) E s2 (fcyc_loop E s2)"
        using "1.IH" [OF m refl a(1) conv _ a(2)] cont by simp
      have smp: "samples (Suc n) E s = c # samples n E s2" for n using m a(1) by simp
      show ?thesis
      proof (cases "fcyc_loop E s2")
        case (Inl e)
        with IH step f show ?thesis by (simp add: loop_result_def)
      next
        case (Inr s')
        with IH f obtain n where n: "1 \<le> n" "length (samples n E s2) = n" "sampler_ok k (xs @ c # samples n E s2) s'"
          "stops k (epsilon s) (maxsamples s) (xs @ c # samples n E s2)"
          "\<forall>j \<in> {1..<n}. \<not> stops k (epsilon s) (maxsamples s) (xs @ c # take j (samples n E s2))"
          by (auto simp: loop_result_def)
        have "\<not> stops k (epsilon s) (maxsamples s) (xs @ take j (samples (Suc n) E s))" if "j \<in> {1..<Suc n}" for j
          using that n(5) False by (cases j; cases "j = 1") (auto simp: smp simp del: samples.simps)
        with n step Inr show ?thesis
          unfolding loop_result_def by (auto simp: smp simp del: samples.simps intro!: exI [of _ "Suc n"])
      qed
    qed
  qed
qed

text \<open>C29. \<^verbatim>\<open>fcyc\<close> returns the smallest of the cycle counts it measured, and stops at the first count
  after which the k best agree within epsilon or \<open>maxsamples\<close> is reached; it never leaves the array of
  the k best values, and it returns whenever it neither clears the cache nor compensates.\<close>

theorem fcyc_k_best:
  assumes "0 < kbest s"
  shows "case fcyc E s of
      Inl e \<Rightarrow> e \<noteq> BadIndex \<and> (clear_cache s \<or> compensate s)
    | Inr (r, s') \<Rightarrow> \<exists>n \<ge> 1. let xs = samples n E (init_sampler s) in
        length xs = n \<and> r = Min (set xs) \<and>
        stops (nat (kbest s)) (epsilon s) (maxsamples s) xs \<and>
        (\<forall>j \<in> {1..<n}. \<not> stops (nat (kbest s)) (epsilon s) (maxsamples s) (take j xs))"
proof -
  let ?s = "init_sampler s" and ?k = "nat (kbest s)"
  have f: "epsilon ?s = epsilon s" "maxsamples ?s = maxsamples s" "clear_cache ?s = clear_cache s" "compensate ?s = compensate s"
    by (simp_all add: init_sampler_def)
  from fcyc_loop_spec [OF sampler_init [OF assms], of E] have L: "loop_result ?k [] E ?s (fcyc_loop E ?s)" .
  show ?thesis
  proof (cases "fcyc_loop E ?s")
    case (Inl e)
    with L f show ?thesis by (simp add: loop_result_def fcyc_def)
  next
    case (Inr s')
    with L f obtain n where n: "1 \<le> n" "length (samples n E ?s) = n" "sampler_ok ?k (samples n E ?s) s'"
      "stops ?k (epsilon s) (maxsamples s) (samples n E ?s)"
      "\<forall>j \<in> {1..<n}. \<not> stops ?k (epsilon s) (maxsamples s) (take j (samples n E ?s))"
      by (auto simp: loop_result_def)
    let ?xs = "samples n E ?s"
    have "length (sort ?xs) \<noteq> 0" using n(1,2) by simp
    then have ne: "sort ?xs \<noteq> []" "?xs \<noteq> []" by force+
    have "values s' ! 0 = sort ?xs ! 0" using n(2,3) n(1) by (auto simp: sampler_ok_def k_smallest_def nth_append)
    also have "\<dots> = Min (set ?xs)"
    proof (rule Min_eqI [symmetric])
      show "sort ?xs ! 0 \<in> set ?xs" using nth_mem [of 0 "sort ?xs"] ne by simp
      fix y assume "y \<in> set ?xs"
      then have "y \<in> set (sort ?xs)" by simp
      then obtain i where "i < length (sort ?xs)" "y = sort ?xs ! i" by (metis in_set_conv_nth)
      then show "sort ?xs ! 0 \<le> y" by (simp add: sorted_nth_mono)
    qed simp
    finally have v: "value_at 0 s' = Inr (Min (set ?xs))" using n(3) by (simp add: value_at_def sampler_ok_def)
    with n Inr show ?thesis by (auto simp: fcyc_def Let_def)
  qed
qed

text \<open>A processor whose counter is the world itself and a function that takes 7, 5, 5, 5, ... cycles.\<close>

definition env_example :: "nat env" where
  "env_example = \<lparr>rdtsc = \<lambda>w. ((0, of_nat w), w), tms_utime = \<lambda>w. (0, w), sleep_for = \<lambda>_ w. w,
     test_fun = \<lambda>w. if w = 0 then 7 else w + 5, buf_malloc = \<lambda>_ w. (True, w), gettimeofday = \<lambda>w. ((int w, 0), w),
     setitimers = \<lambda>_ w. w, getitimer_real = \<lambda>w. ((86400 - int w, 0), w)\<rparr>"

definition fcyc_start :: "nat fcyc" where
  "fcyc_start = \<lparr>world = 0, cyc_hi = 0, cyc_lo = 0, cyc_per_tick = 0, start_tick = 0, kbest = 3, maxsamples = 20,
     epsilon = 1 / 100, compensate = False, clear_cache = False, cache_bytes = 2 ^ 19, cache_block = 32,
     cache_buf = False, cache_mem = \<lambda>_. 0, sink = 0, values = [], samplecount = 0\<rparr>"

theorem fcyc_k_best_witness:
  "\<exists>r s' n. fcyc env_example fcyc_start = Inr (r, s') \<and> 1 \<le> n \<and>
     r = Min (set (samples n env_example (init_sampler fcyc_start)))"
proof -
  have "0 < kbest fcyc_start" by (simp add: fcyc_start_def)
  from fcyc_k_best [OF this, of env_example] show ?thesis
    by (auto simp: fcyc_start_def Let_def split: sum.splits prod.splits)
qed

end
