(* ===== verification/Ftimer.thy ===== *)
theory Ftimer
  imports Fcyc
begin

text \<open>
  The timers in seconds: \<^verbatim>\<open>malloclab/ftimer.c\<close> and the wrapper \<^verbatim>\<open>malloclab/fsecs.c\<close>, which the
  driver calls with the timing method that \<^verbatim>\<open>config.h\<close> selects. The statics of \<^verbatim>\<open>ftimer.c\<close> are the
  constants that \<open>init_etime\<close> stores.
\<close>

definition MAX_ETIME :: int where "MAX_ETIME = 86400"

text \<open>\<^verbatim>\<open>for (i = 0; i < n; i++) f(argp);\<close>\<close>

fun run_times :: "nat \<Rightarrow> 'w env \<Rightarrow> 'w \<Rightarrow> 'w" where
  "run_times 0 E w = w"
| "run_times (Suc n) E w = run_times n E (test_fun E w)"

definition init_etime :: "'w env \<Rightarrow> 'w \<Rightarrow> 'w" where
  "init_etime E w = setitimers E MAX_ETIME w"

definition get_etime :: "'w env \<Rightarrow> 'w \<Rightarrow> rat \<times> 'w" where
  "get_etime E w =
     (let ((sec, usec), w) = getitimer_real E w
      in (of_int (MAX_ETIME - sec) + of_int (0 - usec) * (1 / 1000000), w))"

text \<open>None is the division by \<open>n = 0\<close>.\<close>

definition ftimer_itimer :: "'w env \<Rightarrow> int \<Rightarrow> 'w \<Rightarrow> (rat \<times> 'w) option" where
  "ftimer_itimer E n w =
     (let w = init_etime E w;
          (start, w) = get_etime E w;
          w = run_times (nat n) E w;
          (stop, w) = get_etime E w;
          tmeas = stop - start
      in if n = 0 then None else Some (tmeas / of_int n, w))"

definition ftimer_gettod :: "'w env \<Rightarrow> int \<Rightarrow> 'w \<Rightarrow> (rat \<times> 'w) option" where
  "ftimer_gettod E n w =
     (let ((stv_sec, stv_usec), w) = gettimeofday E w;
          w = run_times (nat n) E w;
          ((etv_sec, etv_usec), w) = gettimeofday E w;
          diff = 1000 * of_int (etv_sec - stv_sec) + 1 / 1000 * of_int (etv_usec - stv_usec)
      in if n = 0 then None
         else let diff = diff / of_int n in Some (1 / 1000 * diff, w))"

datatype timing = USE_FCYC | USE_ITIMER | USE_GETTOD

text \<open>\<^verbatim>\<open>fsecs.c\<close>: its static \<open>Mhz\<close> goes along with the sampler's state.\<close>

definition init_fsecs :: "timing \<Rightarrow> 'w env \<Rightarrow> 'w fcyc \<Rightarrow> rat \<times> 'w fcyc" where
  "init_fsecs t E s =
     (if t = USE_FCYC then
        let s = set_fcyc_maxsamples 20 s;
            s = set_fcyc_clear_cache True s;
            s = set_fcyc_compensate True s;
            s = set_fcyc_epsilon (1 / 100) s;
            s = set_fcyc_k 3 s
        in mhz E s
      else (0, s))"

definition fsecs :: "timing \<Rightarrow> 'w env \<Rightarrow> rat \<Rightarrow> 'w fcyc \<Rightarrow> (rat \<times> 'w fcyc) option" where
  "fsecs t E Mhz s =
     (case t of
        USE_FCYC \<Rightarrow> (case fcyc E s of Inl _ \<Rightarrow> None | Inr (c, s) \<Rightarrow> Some (c / (Mhz * 1000000), s))
      | USE_ITIMER \<Rightarrow> (case ftimer_itimer E 10 (world s) of None \<Rightarrow> None | Some (r, w) \<Rightarrow> Some (r, s\<lparr>world := w\<rparr>))
      | USE_GETTOD \<Rightarrow> (case ftimer_gettod E 10 (world s) of None \<Rightarrow> None | Some (r, w) \<Rightarrow> Some (r, s\<lparr>world := w\<rparr>)))"

subsection \<open>Seconds per run\<close>

text \<open>A time of day in seconds, and the value of an interval timer that counts down.\<close>

definition seconds :: "int \<times> int \<Rightarrow> rat" where
  "seconds t = of_int (fst t) + of_int (snd t) / 1000000"

lemma gettod_seconds:
  assumes "n \<noteq> 0"
  shows "ftimer_gettod E n w =
    (let (t0, w) = gettimeofday E w; (t1, w) = gettimeofday E (run_times (nat n) E w)
     in Some ((seconds t1 - seconds t0) / of_int n, w))"
  using assms
  by (simp add: ftimer_gettod_def seconds_def Let_def split_beta) (simp add: field_simps)

lemma itimer_seconds:
  assumes "n \<noteq> 0"
  shows "ftimer_itimer E n w =
    (let (t0, w) = getitimer_real E (setitimers E MAX_ETIME w); (t1, w) = getitimer_real E (run_times (nat n) E w)
     in Some ((seconds t0 - seconds t1) / of_int n, w))"
  using assms
  by (simp add: ftimer_itimer_def get_etime_def init_etime_def seconds_def Let_def split_beta)

text \<open>\<^verbatim>\<open>fsecs\<close> reports seconds per run: with either of the two clocks it is a tenth of the time that
  passes during ten runs of the function, read at the clock's own resolution, and the world it
  leaves is the one after the ten runs and the last reading.\<close>

lemma fsecs_per_run:
  "fsecs USE_GETTOD E m s =
     (let (t0, w) = gettimeofday E (world s); (t1, w) = gettimeofday E (run_times 10 E w)
      in Some ((seconds t1 - seconds t0) / 10, s\<lparr>world := w\<rparr>)) \<and>
   fsecs USE_ITIMER E m s =
     (let (t0, w) = getitimer_real E (setitimers E MAX_ETIME (world s)); (t1, w) = getitimer_real E (run_times 10 E w)
      in Some ((seconds t0 - seconds t1) / 10, s\<lparr>world := w\<rparr>))"
  by (simp add: fsecs_def gettod_seconds itimer_seconds Let_def split_beta)

end
