(* ===== verification/ClockAlpha.thy ===== *)
theory ClockAlpha
  imports Clock
begin

text \<open>
  The other halves of \<^verbatim>\<open>malloclab/clock.c\<close>: the Alpha's 32-bit process counter, whose value is what the three
  instructions of \<^verbatim>\<open>counterRoutine\<close> return, and the functions of platforms without a counter, which end the
  program.
\<close>

definition alpha_start_counter :: "('w \<Rightarrow> 32 word \<times> 'w) \<Rightarrow> ('w, 'a) clk_scheme \<Rightarrow> ('w, 'a) clk_scheme" where
  "alpha_start_counter counter s =
     (let s = s\<lparr>cyc_hi := 0\<rparr>; (c, w) = counter (world s) in s\<lparr>world := w, cyc_lo := c\<rparr>)"

definition alpha_get_counter :: "('w \<Rightarrow> 32 word \<times> 'w) \<Rightarrow> ('w, 'a) clk_scheme \<Rightarrow> rat \<times> ('w, 'a) clk_scheme" where
  "alpha_get_counter counter s =
     (let (ncyc_lo, w) = counter (world s);
          s = s\<lparr>world := w\<rparr>;
          ncyc_hi = 0;
          lo = ncyc_lo - cyc_lo s;
          borrow = (if lo > ncyc_lo then 1 else 0);
          hi = ncyc_hi - cyc_hi s - borrow
      in (of_int (uint hi) * 2 ^ 30 * 4 + of_int (uint lo), s))"

text \<open>What the functions of the remaining platforms print before they exit with status 1.\<close>

definition no_counter_text :: "string \<Rightarrow> string" where
  "no_counter_text name =
     ''ERROR: You are trying to use a '' @ name @ '' routine in clock.c'' @ [CHR 0x0A] @
     ''that has not been implemented yet on this platform.'' @ [CHR 0x0A] @
     ''Please choose another timing package in config.h.'' @ [CHR 0x0A]"

definition other_start_counter :: "int \<times> string" where
  "other_start_counter = (1, no_counter_text ''start_counter'')"

definition other_get_counter :: "int \<times> string" where
  "other_get_counter = (1, no_counter_text ''get_counter'')"

text \<open>The Alpha's counter runs over after \<open>2 ^ 32\<close> cycles. The subtraction is that of the 64-bit counter with
  both high halves 0, so the borrow goes into the high half: a run that the counter overflows in is
  reported as nearly \<open>2 ^ 64\<close> cycles, and not as the \<open>2 ^ 32\<close>-difference.\<close>

lemma alpha_counter_elapsed:
  fixes counter :: "'w \<Rightarrow> 32 word \<times> 'w"
  defines "from s \<equiv> uint (fst (counter (world s)))" and "till w \<equiv> uint (fst (counter w))"
  shows "fst (alpha_get_counter counter ((alpha_start_counter counter s)\<lparr>world := w\<rparr>)) =
    rat_of_int ((till w - from s) mod 2 ^ 64)"
proof -
  obtain lo w0 nlo w1 where r: "counter (world s) = (lo, w0)" "counter w = (nlo, w1)" by (metis surj_pair)
  have "(uint nlo - uint lo) mod 2 ^ 64 = uint (0 - 0 - (if nlo - lo > nlo then 1 else 0) :: 32 word) * 2 ^ 32 + uint (nlo - lo)"
    using sub64 [of 0 0 nlo lo] by (simp add: cycles_def)
  then show ?thesis
    unfolding alpha_get_counter_def alpha_start_counter_def Let_def from_def till_def
    by (simp add: r del: power_numeral) simp
qed

lemma alpha_counter_overflow:
  assumes "uint (fst (counter w)) < uint (fst (counter (world s)))"
  shows "fst (alpha_get_counter counter ((alpha_start_counter counter s)\<lparr>world := w\<rparr>)) \<ge> 2 ^ 64 - 2 ^ 32"
proof -
  let ?a = "uint (fst (counter w))" and ?b = "uint (fst (counter (world s)))"
  have "0 \<le> ?a" "?a < 2 ^ 64" "0 \<le> ?b" "?b < 2 ^ 64" "?b < 2 ^ 32"
    using uint_bounded [of "fst (counter w)"] uint_bounded [of "fst (counter (world s))"] by simp_all
  then have "(?a - ?b) mod 2 ^ 64 = ?a - ?b + 2 ^ 64" using sub_mod [of ?a "2 ^ 64" ?b] assms by simp
  moreover have "2 ^ 64 - 2 ^ 32 \<le> a - b + 2 ^ 64" if "0 \<le> a" "b < 2 ^ 32" for a b :: int using that by simp
  note this [OF \<open>0 \<le> ?a\<close> \<open>?b < 2 ^ 32\<close>]
  ultimately have "2 ^ 64 - 2 ^ 32 \<le> (?a - ?b) mod 2 ^ 64" by simp
  then have "rat_of_int (2 ^ 64 - 2 ^ 32) \<le> rat_of_int ((?a - ?b) mod 2 ^ 64)" by (simp only: of_int_le_iff)
  then show ?thesis unfolding alpha_counter_elapsed by simp
qed

end
