(* ===== verification/Memlist.thy ===== *)
theory Memlist
  imports Prelude
begin

text \<open>
  The list of traced memory blocks (\<^verbatim>\<open>linklab/utils/memlist.c\<close>): items sorted by address behind a
  dummy element. A list is the sequence of items after the dummy; \<^verbatim>\<open>NULL\<close> is None. The libc calls
  the file makes for itself and \<^verbatim>\<open>get_callinfo\<close> are arguments: whether \<^verbatim>\<open>calloc\<close> gave memory, and
  what the call information is. The locale \<open>block_log\<close> is what the tracers rely on.
\<close>

type_synonym addr = int

record item =
  ptr :: addr
  item_size :: int
  cnt :: int
  fname :: string
  ofs :: int

record callinfo =
  ci_result :: int
  ci_fname :: string
  ci_ofs :: int

datatype memlist_stop = ExitFailure | NullDeref

definition new_list :: "bool \<Rightarrow> bool \<Rightarrow> bool \<Rightarrow> memlist_stop + item list option" where
  "new_list calloc_found free_found calloc_ok =
     (if \<not> calloc_found then Inl ExitFailure
      else if \<not> free_found then Inl ExitFailure
      else Inr (if calloc_ok then Some [] else None))"

text \<open>The search and the three cases of \<open>alloc\<close>, with the item it returns.\<close>

fun insert_item :: "item \<Rightarrow> item list \<Rightarrow> item list \<times> item" where
  "insert_item i [] = ([i], i)"
| "insert_item i (c # cs) =
     (if ptr c < ptr i then (let (cs, r) = insert_item i cs in (c # cs, r))
      else if ptr c = ptr i then
        (let c = c\<lparr>item_size := item_size i, cnt := s32 (cnt c + 1)\<rparr> in (c # cs, c))
      else (i # c # cs, i))"

definition new_item :: "addr \<Rightarrow> int \<Rightarrow> callinfo \<Rightarrow> item" where
  "new_item p sz ci =
     (if ci_result ci < 0 then \<lparr>ptr = p, item_size = sz, cnt = 1, fname = ''???'', ofs = 0\<rparr>
      else \<lparr>ptr = p, item_size = sz, cnt = 1, fname = ci_fname ci, ofs = ci_ofs ci\<rparr>)"

definition alloc :: "bool \<Rightarrow> callinfo \<Rightarrow> item list option \<Rightarrow> addr \<Rightarrow> int
    \<Rightarrow> memlist_stop + (item option \<times> item list option)" where
  "alloc calloc_ok ci list p sz =
     (case list of
        None \<Rightarrow> Inr (None, None)
      | Some is \<Rightarrow>
          if \<not> calloc_ok then Inl NullDeref
          else let (is, r) = insert_item (new_item p sz ci) is in Inr (Some r, Some is))"

fun dealloc_items :: "addr \<Rightarrow> item list \<Rightarrow> item list \<times> item option" where
  "dealloc_items p [] = ([], None)"
| "dealloc_items p (c # cs) =
     (if ptr c \<noteq> p then (let (cs, r) = dealloc_items p cs in (c # cs, r))
      else (let c = c\<lparr>cnt := s32 (cnt c - 1)\<rparr> in (c # cs, Some c)))"

definition dealloc :: "item list option \<Rightarrow> addr \<Rightarrow> item option \<times> item list option" where
  "dealloc list p =
     (case list of
        None \<Rightarrow> (None, None)
      | Some is \<Rightarrow> let (is, r) = dealloc_items p is in (r, Some is))"

fun find_item :: "addr \<Rightarrow> item list \<Rightarrow> item option" where
  "find_item p [] = None"
| "find_item p (c # cs) = (if p > ptr c then find_item p cs else if ptr c = p then Some c else None)"

definition find :: "item list option \<Rightarrow> addr \<Rightarrow> item option" where
  "find list p = (case list of None \<Rightarrow> None | Some is \<Rightarrow> find_item p is)"

subsection \<open>The contract\<close>

text \<open>What an observer sees of a block: the size of its last allocation and its reference count.
  Counts stay in \<open>int\<close> as long as fewer than \<open>2 ^ 31\<close> calls are made; \<open>ticks\<close> counts the calls.\<close>

locale block_log =
  fixes empty :: 'l
    and insert :: "'l \<Rightarrow> addr \<Rightarrow> int \<Rightarrow> callinfo \<Rightarrow> 'l"
    and release :: "'l \<Rightarrow> addr \<Rightarrow> 'l"
    and look :: "'l \<Rightarrow> addr \<Rightarrow> (int \<times> int) option"
    and inv :: "nat \<Rightarrow> 'l \<Rightarrow> bool"
  assumes inv_empty: "inv 0 empty"
    and inv_insert: "inv n l \<Longrightarrow> n < 2147483646 \<Longrightarrow> inv (Suc n) (insert l p sz ci)"
    and inv_release: "inv n l \<Longrightarrow> n < 2147483646 \<Longrightarrow> inv (Suc n) (release l p)"
    and look_empty: "look empty p = None"
    and look_insert: "inv n l \<Longrightarrow> n < 2147483646 \<Longrightarrow> look (insert l p sz ci) q =
      (if q = p then Some (sz, (case look l p of None \<Rightarrow> 1 | Some (_, c) \<Rightarrow> c + 1)) else look l q)"
    and look_release: "inv n l \<Longrightarrow> n < 2147483646 \<Longrightarrow> look (release l p) q =
      (if q = p then (case look l p of None \<Rightarrow> None | Some (sz, c) \<Rightarrow> Some (sz, c - 1)) else look l q)"

datatype log_op = Insert addr int callinfo | Release addr

fun apply_op :: "('l \<Rightarrow> addr \<Rightarrow> int \<Rightarrow> callinfo \<Rightarrow> 'l) \<Rightarrow> ('l \<Rightarrow> addr \<Rightarrow> 'l) \<Rightarrow> log_op \<Rightarrow> 'l \<Rightarrow> 'l" where
  "apply_op ins rel (Insert p sz ci) l = ins l p sz ci"
| "apply_op ins rel (Release p) l = rel l p"

text \<open>The history of one block, oldest operation first: the size of the last allocation and the
  number of allocations less the number of releases since the first allocation.\<close>

fun history :: "addr \<Rightarrow> log_op list \<Rightarrow> (int \<times> int) option \<Rightarrow> (int \<times> int) option" where
  "history p [] r = r"
| "history p (Insert q sz ci # os) r =
     history p os (if q = p then Some (sz, (case r of None \<Rightarrow> 1 | Some (_, c) \<Rightarrow> c + 1)) else r)"
| "history p (Release q # os) r =
     history p os (if q = p then (case r of None \<Rightarrow> None | Some (sz, c) \<Rightarrow> Some (sz, c - 1)) else r)"

context block_log begin

lemma run_inv: "inv n l \<Longrightarrow> n + length os < 2147483647 \<Longrightarrow> inv (n + length os) (fold (apply_op insert release) os l)"
proof (induction os arbitrary: n l)
  case (Cons oper os)
  then have "inv (Suc n) (apply_op insert release oper l)" by (cases oper) (simp_all add: inv_insert inv_release)
  from Cons.IH [OF this] Cons.prems(2) show ?case by simp
qed simp

lemma run_look:
  "inv n l \<Longrightarrow> n + length os < 2147483647 \<Longrightarrow>
   look (fold (apply_op insert release) os l) p = history p os (look l p)"
proof (induction os arbitrary: n l)
  case (Cons oper os)
  then have i: "inv (Suc n) (apply_op insert release oper l)" by (cases oper) (simp_all add: inv_insert inv_release)
  have "look (apply_op insert release oper l) p = history p [oper] (look l p)"
    using Cons.prems by (cases oper) (auto simp: look_insert look_release)
  moreover have "history p (oper # os) r = history p os (history p [oper] r)" for r by (cases oper) simp_all
  ultimately show ?case using Cons.IH [OF i] Cons.prems(2) by simp
qed simp

lemma run_from_empty:
  assumes "length os < 2147483647"
  shows "inv (length os) (fold (apply_op insert release) os empty)"
    "look (fold (apply_op insert release) os empty) p = history p os None"
  using run_inv [OF inv_empty, of os] run_look [OF inv_empty, of os p] assms by (simp_all add: look_empty)

end

subsection \<open>The list meets it\<close>

definition sorted_items :: "item list \<Rightarrow> bool" where
  "sorted_items is \<longleftrightarrow> sorted_wrt (<) (map ptr is)"

definition counts_ok :: "nat \<Rightarrow> item list \<Rightarrow> bool" where
  "counts_ok n is \<longleftrightarrow> (\<forall>i \<in> set is. \<bar>cnt i\<bar> \<le> int n)"

definition look_item :: "item list \<Rightarrow> addr \<Rightarrow> (int \<times> int) option" where
  "look_item is p = map_option (\<lambda>i. (item_size i, cnt i)) (find_item p is)"

definition list_insert :: "item list \<Rightarrow> addr \<Rightarrow> int \<Rightarrow> callinfo \<Rightarrow> item list" where
  "list_insert is p sz ci = fst (insert_item (new_item p sz ci) is)"

definition list_release :: "item list \<Rightarrow> addr \<Rightarrow> item list" where
  "list_release is p = fst (dealloc_items p is)"

lemma new_item_fields [simp]: "ptr (new_item p sz ci) = p" "item_size (new_item p sz ci) = sz" "cnt (new_item p sz ci) = 1"
  by (simp_all add: new_item_def)

lemma sorted_items_simps [simp]:
  "sorted_items []" "sorted_items (c # cs) \<longleftrightarrow> (\<forall>i \<in> set cs. ptr c < ptr i) \<and> sorted_items cs"
  by (simp_all add: sorted_items_def)

lemma counts_ok_simps [simp]: "counts_ok n []" "counts_ok n (c # cs) \<longleftrightarrow> \<bar>cnt c\<bar> \<le> int n \<and> counts_ok n cs"
  by (simp_all add: counts_ok_def)

lemma counts_ok_mono: "counts_ok n is \<Longrightarrow> n \<le> m \<Longrightarrow> counts_ok m is"
  by (fastforce simp: counts_ok_def)

lemma insert_ptrs: "ptr ` set (fst (insert_item i is)) = Set.insert (ptr i) (ptr ` set is)"
  by (induction "is") (auto simp: split_beta Let_def)

lemma dealloc_ptrs: "map ptr (fst (dealloc_items p is)) = map ptr is"
  by (induction "is") (auto simp: split_beta Let_def)

lemma sorted_insert: "sorted_items is \<Longrightarrow> sorted_items (fst (insert_item i is))"
proof (induction "is")
  case (Cons c cs)
  have "\<forall>j \<in> set (fst (insert_item i cs)). ptr c < ptr j" if "ptr c < ptr i"
    using that Cons.prems insert_ptrs [of i cs] by (metis image_iff insert_iff sorted_items_simps(2))
  with Cons show ?case by (fastforce simp: split_beta Let_def)
qed simp

lemma sorted_dealloc: "sorted_items (fst (dealloc_items p is)) = sorted_items is"
  by (simp add: sorted_items_def dealloc_ptrs)

lemma counts_insert:
  "counts_ok n is \<Longrightarrow> n < 2147483646 \<Longrightarrow> cnt i = 1 \<Longrightarrow> counts_ok (Suc n) (fst (insert_item i is))"
  by (induction "is") (auto simp: split_beta Let_def intro: counts_ok_mono)

lemma counts_dealloc: "counts_ok n is \<Longrightarrow> n < 2147483646 \<Longrightarrow> counts_ok (Suc n) (fst (dealloc_items p is))"
  by (induction "is") (auto simp: split_beta Let_def intro: counts_ok_mono)

lemma find_none: "\<forall>i \<in> set is. p < ptr i \<Longrightarrow> find_item p is = None"
  by (cases "is") auto

lemma find_insert:
  "sorted_items is \<Longrightarrow> counts_ok n is \<Longrightarrow> n < 2147483646 \<Longrightarrow> cnt i = 1 \<Longrightarrow>
   look_item (fst (insert_item i is)) q =
     (if q = ptr i then Some (item_size i, (case look_item is q of None \<Rightarrow> 1 | Some (_, c) \<Rightarrow> c + 1)) else look_item is q)"
proof (induction "is")
  case (Cons c cs)
  have n: "find_item (ptr i) (c # cs) = None" if "ptr i < ptr c" using that by simp
  show ?case
    using Cons n by (auto simp: look_item_def split_beta Let_def)
qed (simp add: look_item_def)

lemma find_dealloc:
  "sorted_items is \<Longrightarrow> counts_ok n is \<Longrightarrow> n < 2147483646 \<Longrightarrow>
   look_item (fst (dealloc_items p is)) q =
     (if q = p then (case look_item is q of None \<Rightarrow> None | Some (sz, c) \<Rightarrow> Some (sz, c - 1)) else look_item is q)"
proof (induction "is")
  case (Cons c cs)
  have n: "find_item p cs = None" if "p < ptr c" using that Cons.prems(1) by (intro find_none) force
  show ?case
    using Cons n by (auto simp: look_item_def split_beta Let_def)
qed (simp add: look_item_def)

interpretation ml: block_log "[]" list_insert list_release look_item "\<lambda>n is. sorted_items is \<and> counts_ok n is"
proof
  fix n "is" p q sz ci assume i: "sorted_items is \<and> counts_ok n is" "n < 2147483646"
  show "sorted_items (list_insert is p sz ci) \<and> counts_ok (Suc n) (list_insert is p sz ci)"
    using i by (simp add: list_insert_def sorted_insert counts_insert)
  show "look_item (list_insert is p sz ci) q =
      (if q = p then Some (sz, (case look_item is p of None \<Rightarrow> 1 | Some (_, c) \<Rightarrow> c + 1)) else look_item is q)"
    using i find_insert [of "is" n "new_item p sz ci" q] by (simp add: list_insert_def)
next
  fix n "is" p q assume i: "sorted_items is \<and> counts_ok n is" "n < 2147483646"
  show "sorted_items (list_release is p) \<and> counts_ok (Suc n) (list_release is p)"
    using i by (simp add: list_release_def sorted_dealloc counts_dealloc)
  show "look_item (list_release is p) q =
      (if q = p then (case look_item is p of None \<Rightarrow> None | Some (sz, c) \<Rightarrow> Some (sz, c - 1)) else look_item is q)"
    using i find_dealloc [of "is" n p q] by (auto simp: list_release_def)
qed (simp_all add: look_item_def)

subsection \<open>The functions of the file\<close>

text \<open>A sequence of calls of \<open>alloc\<close> and \<open>dealloc\<close>, memory for the items given.\<close>

fun run_calls :: "log_op list \<Rightarrow> item list option \<Rightarrow> memlist_stop + item list option" where
  "run_calls [] l = Inr l"
| "run_calls (Insert p sz ci # os) l = and_then (alloc True ci l p sz) (\<lambda>(_, l). run_calls os l)"
| "run_calls (Release p # os) l = run_calls os (snd (dealloc l p))"

lemma run_calls_fold: "run_calls os (Some is) = Inr (Some (fold (apply_op list_insert list_release) os is))"
proof (induction os arbitrary: "is")
  case (Cons oper os)
  then show ?case
    by (cases oper) (simp_all add: alloc_def dealloc_def list_insert_def list_release_def split_beta Let_def)
qed simp

text \<open>After any sequence of fewer than \<open>2 ^ 31 - 1\<close> calls of \<^verbatim>\<open>alloc\<close> and \<^verbatim>\<open>dealloc\<close> on a new list the list
  is sorted by address without duplicates, and \<^verbatim>\<open>find\<close> gives for every block what its history
  says: nothing before its first allocation, then the size of its last allocation and the number of
  its allocations less the number of its releases.\<close>

lemma memlist_history:
  assumes "length os < 2147483647"
  shows "\<exists>is. run_calls os (Some []) = Inr (Some is) \<and> sorted_items is \<and>
    (\<forall>p. map_option (\<lambda>i. (item_size i, cnt i)) (find (Some is) p) = history p os None)"
proof -
  let ?is = "fold (apply_op list_insert list_release) os []"
  have "look_item ?is p = history p os None" for p by (rule ml.run_from_empty(2) [OF assms])
  then show ?thesis
    using ml.run_from_empty(1) [OF assms] by (intro exI [of _ ?is]) (simp add: run_calls_fold find_def look_item_def)
qed

definition ci_main :: callinfo where
  "ci_main = \<lparr>ci_result = 0, ci_fname = ''main'', ci_ofs = 16\<rparr>"

definition calls_example :: "log_op list" where
  "calls_example = [Insert 64 10 ci_main, Insert 32 7 ci_main, Release 64, Insert 64 20 ci_main]"

lemma memlist_history_witness:
  "\<exists>is. run_calls calls_example (Some []) = Inr (Some is) \<and>
     map_option (\<lambda>i. (item_size i, cnt i)) (find (Some is) 64) = Some (20, 1)"
proof -
  have h: "history 64 calls_example None = Some (20, 1)" "length calls_example < 2147483647"
    by (simp_all add: calls_example_def)
  from memlist_history [OF h(2)] obtain "is" where "run_calls calls_example (Some []) = Inr (Some is)"
    "\<forall>p. map_option (\<lambda>i. (item_size i, cnt i)) (find (Some is) p) = history p calls_example None" by blast
  with h(1) show ?thesis by (intro exI [of _ "is"]) simp
qed

end
