(* ===== verification/Memtrace.thy ===== *)
theory Memtrace
  imports Memlist
begin

text \<open>
  The four versions of the memory tracer (\<^verbatim>\<open>linklab/part1\<close>, \<^verbatim>\<open>part2\<close>, \<^verbatim>\<open>part3\<close>, \<^verbatim>\<open>bonus\<close>,
  each in \<^verbatim>\<open>memtrace.c\<close>): wrappers of the allocation functions that log each call, keep statistics
  and the block list, and pass the call on to libc. A call of the traced program carries what libc
  returned; with it come the call information and whether libc had memory for the tracer's own item.
  The tracer's output is a list of log lines, its calls of libc a second list.
  \<^verbatim>\<open>unsigned long\<close> is 64 bits wide.
\<close>

datatype log_line =
    LogStart | LogMalloc int addr | LogCalloc int int addr | LogRealloc addr int addr | LogFree addr
  | LogStatistics int int int | LogNonfreedStart | LogBlock addr int int string int
  | LogDoubleFree | LogIllFree | LogStop

datatype libc_call = CMalloc int | CCalloc int int | CRealloc addr int | CFree addr

datatype tracer_stop = InList memlist_stop | NullItem | DivByZero

record tracer =
  n_malloc :: int
  alloc_times :: int
  free_size :: int
  mt_list :: "item list option"
  mt_log :: "log_line list"
  libc_log :: "libc_call list"

datatype mem_call = Malloc int addr | Calloc int int addr | Realloc addr int addr | Free addr

definition u64 :: "int \<Rightarrow> int" where
  "u64 x = x mod 2 ^ 64"

definition LOG :: "log_line \<Rightarrow> tracer \<Rightarrow> tracer" where
  "LOG l t = t\<lparr>mt_log := mt_log t @ [l]\<rparr>"

definition libc :: "libc_call \<Rightarrow> tracer \<Rightarrow> tracer" where
  "libc c t = t\<lparr>libc_log := libc_log t @ [c]\<rparr>"

definition tracer0 :: tracer where
  "tracer0 = \<lparr>n_malloc = 0, alloc_times = 0, free_size = 0, mt_list = None, mt_log = [], libc_log = []\<rparr>"

definition init :: "bool \<Rightarrow> bool \<Rightarrow> bool \<Rightarrow> tracer_stop + tracer" where
  "init calloc_found free_found calloc_ok =
     (case new_list calloc_found free_found calloc_ok of
        Inl e \<Rightarrow> Inl (InList e)
      | Inr l \<Rightarrow> Inr ((LOG LogStart tracer0)\<lparr>mt_list := l\<rparr>))"

definition list_alloc :: "bool \<Rightarrow> callinfo \<Rightarrow> addr \<Rightarrow> int \<Rightarrow> tracer \<Rightarrow> tracer_stop + tracer" where
  "list_alloc ok ci p sz t =
     (case alloc ok ci (mt_list t) p sz of
        Inl e \<Rightarrow> Inl (InList e)
      | Inr (_, l) \<Rightarrow> Inr (t\<lparr>mt_list := l\<rparr>))"

definition list_dealloc :: "addr \<Rightarrow> tracer \<Rightarrow> tracer" where
  "list_dealloc p t = t\<lparr>mt_list := snd (dealloc (mt_list t) p)\<rparr>"

definition count_alloc :: "int \<Rightarrow> tracer \<Rightarrow> tracer" where
  "count_alloc sz t = t\<lparr>n_malloc := u64 (n_malloc t + sz), alloc_times := s32 (alloc_times t + 1)\<rparr>"

definition count_free :: "item \<Rightarrow> tracer \<Rightarrow> tracer" where
  "count_free i t = t\<lparr>free_size := s32 (free_size t + item_size i)\<rparr>"

subsection \<open>The wrappers\<close>

definition tr_malloc :: "int \<Rightarrow> addr \<Rightarrow> bool \<Rightarrow> callinfo \<Rightarrow> tracer \<Rightarrow> tracer_stop + tracer" where
  "tr_malloc sz p ok ci t =
     (let t = libc (CMalloc sz) t;
          t = LOG (LogMalloc sz p) t;
          t = count_alloc sz t
      in list_alloc ok ci p sz t)"

definition tr_calloc :: "int \<Rightarrow> int \<Rightarrow> addr \<Rightarrow> bool \<Rightarrow> callinfo \<Rightarrow> tracer \<Rightarrow> tracer_stop + tracer" where
  "tr_calloc nmemb sz p ok ci t =
     (let t = libc (CCalloc nmemb sz) t;
          t = LOG (LogCalloc nmemb sz p) t
      in and_then (list_alloc ok ci p sz t) (\<lambda>t. Inr (count_alloc sz t)))"

text \<open>Part 1 looks the old block up and does not use it.\<close>

definition part1_realloc :: "addr \<Rightarrow> int \<Rightarrow> addr \<Rightarrow> bool \<Rightarrow> callinfo \<Rightarrow> tracer \<Rightarrow> tracer_stop + tracer" where
  "part1_realloc old sz p ok ci t =
     (let t = libc (CRealloc old sz) t;
          t = LOG (LogRealloc old sz p) t;
          t = list_dealloc old t
      in and_then (list_alloc ok ci p sz t) (\<lambda>t. Inr (count_alloc sz t)))"

definition tr_realloc :: "addr \<Rightarrow> int \<Rightarrow> addr \<Rightarrow> bool \<Rightarrow> callinfo \<Rightarrow> tracer \<Rightarrow> tracer_stop + tracer" where
  "tr_realloc old sz p ok ci t =
     (let t = libc (CRealloc old sz) t;
          t = LOG (LogRealloc old sz p) t
      in case find (mt_list t) old of
           None \<Rightarrow> Inl NullItem
         | Some tempp \<Rightarrow>
             let t = count_free tempp t;
                 t = list_dealloc old t
             in and_then (list_alloc ok ci p sz t) (\<lambda>t. Inr (count_alloc sz t)))"

definition part1_free :: "addr \<Rightarrow> tracer \<Rightarrow> tracer_stop + tracer" where
  "part1_free p t =
     (let t = list_dealloc p t;
          t = LOG (LogFree p) t
      in Inr (libc (CFree p) t))"

definition tr_free :: "addr \<Rightarrow> tracer \<Rightarrow> tracer_stop + tracer" where
  "tr_free p t =
     (let t = list_dealloc p t;
          t = LOG (LogFree p) t
      in case find (mt_list t) p of
           None \<Rightarrow> Inl NullItem
         | Some tempp \<Rightarrow> Inr (libc (CFree p) (count_free tempp t)))"

definition bonus_free :: "addr \<Rightarrow> tracer \<Rightarrow> tracer_stop + tracer" where
  "bonus_free p t =
     (let t = LOG (LogFree p) t
      in case find (mt_list t) p of
           None \<Rightarrow> Inr (LOG LogIllFree t)
         | Some tempp \<Rightarrow>
             if cnt tempp \<le> 0 then Inr (LOG LogDoubleFree t)
             else let t = count_free tempp t;
                      t = list_dealloc p t
                  in Inr (libc (CFree p) t))"

text \<open>The interface each library exports.\<close>

fun part1_call :: "mem_call \<Rightarrow> bool \<Rightarrow> callinfo \<Rightarrow> tracer \<Rightarrow> tracer_stop + tracer" where
  "part1_call (Malloc sz p) ok ci t = tr_malloc sz p ok ci t"
| "part1_call (Realloc old sz p) ok ci t = part1_realloc old sz p ok ci t"
| "part1_call (Calloc n sz p) ok ci t = tr_calloc n sz p ok ci t"
| "part1_call (Free p) ok ci t = part1_free p t"

fun part3_call :: "mem_call \<Rightarrow> bool \<Rightarrow> callinfo \<Rightarrow> tracer \<Rightarrow> tracer_stop + tracer" where
  "part3_call (Malloc sz p) ok ci t = tr_malloc sz p ok ci t"
| "part3_call (Realloc old sz p) ok ci t = tr_realloc old sz p ok ci t"
| "part3_call (Calloc n sz p) ok ci t = tr_calloc n sz p ok ci t"
| "part3_call (Free p) ok ci t = tr_free p t"

text \<open>Part 2 has the wrappers of part 3.\<close>

definition part2_call :: "mem_call \<Rightarrow> bool \<Rightarrow> callinfo \<Rightarrow> tracer \<Rightarrow> tracer_stop + tracer" where
  "part2_call = part3_call"

fun bonus_call :: "mem_call \<Rightarrow> bool \<Rightarrow> callinfo \<Rightarrow> tracer \<Rightarrow> tracer_stop + tracer" where
  "bonus_call (Malloc sz p) ok ci t = tr_malloc sz p ok ci t"
| "bonus_call (Realloc old sz p) ok ci t = tr_realloc old sz p ok ci t"
| "bonus_call (Calloc n sz p) ok ci t = tr_calloc n sz p ok ci t"
| "bonus_call (Free p) ok ci t = bonus_free p t"

subsection \<open>The report at the end\<close>

definition show_bloks :: "(item \<Rightarrow> string) \<Rightarrow> tracer \<Rightarrow> tracer_stop + tracer" where
  "show_bloks name t =
     (case mt_list t of
        None \<Rightarrow> Inl NullItem
      | Some is \<Rightarrow> Inr (t\<lparr>mt_log := mt_log t @
          map (\<lambda>i. LogBlock (ptr i) (item_size i) (cnt i) (name i) (ofs i)) (filter (\<lambda>i. cnt i > 0) is)\<rparr>))"

definition statistics :: "int \<Rightarrow> tracer \<Rightarrow> tracer_stop + tracer" where
  "statistics freed t =
     (if alloc_times t = 0 then Inl DivByZero
      else Inr (LOG (LogStatistics (n_malloc t) (n_malloc t div u64 (alloc_times t)) freed) t))"

definition part1_fini :: "tracer \<Rightarrow> tracer_stop + tracer" where
  "part1_fini t = and_then (statistics 0 t) (\<lambda>t. Inr (LOG LogStop t))"

text \<open>The functions of parts 2, 3 and bonus end with \<^verbatim>\<open>free_list(list)\<close>, which logs nothing; \<open>MemlistStore\<close> has it, on the nodes
  in memory.\<close>

definition fini_with :: "(item \<Rightarrow> string) \<Rightarrow> tracer \<Rightarrow> tracer_stop + tracer" where
  "fini_with name t =
     and_then (statistics (free_size t) t) (\<lambda>t.
     and_then (show_bloks name (LOG LogNonfreedStart t)) (\<lambda>t. Inr (LOG LogStop t)))"

definition part2_fini :: "tracer \<Rightarrow> tracer_stop + tracer" where
  "part2_fini = fini_with (\<lambda>_. ''Nothing'')"

definition part3_fini :: "tracer \<Rightarrow> tracer_stop + tracer" where
  "part3_fini = fini_with fname"

definition bonus_fini :: "tracer \<Rightarrow> tracer_stop + tracer" where
  "bonus_fini = fini_with fname"

text \<open>A traced program: its calls with what libc answered.\<close>

fun trace_run :: "(mem_call \<Rightarrow> bool \<Rightarrow> callinfo \<Rightarrow> tracer \<Rightarrow> tracer_stop + tracer)
    \<Rightarrow> (mem_call \<times> bool \<times> callinfo) list \<Rightarrow> tracer \<Rightarrow> tracer_stop + tracer" where
  "trace_run call [] t = Inr t"
| "trace_run call ((c, ok, ci) # cs) t = and_then (call c ok ci t) (trace_run call cs)"

end
