(* ===== verification/MemtraceProps.thy ===== *)
theory MemtraceProps
  imports Memtrace
begin

text \<open>
  What the tracers guarantee: the bonus version never passes a block to libc's \<^verbatim>\<open>free\<close> more often
  than libc gave it out and reports exactly the blocks still in use; the other versions stop at
  addresses they do not know. The proofs use the contract of the block list through its
  interpretation \<open>ml\<close>.
\<close>

subsection \<open>Counting\<close>

text \<open>How often a program was given the block \<open>p\<close>, and how often it passed it to \<^verbatim>\<open>realloc\<close>.\<close>

fun got :: "addr \<Rightarrow> mem_call \<Rightarrow> nat" where
  "got p (Malloc sz q) = of_bool (q = p)"
| "got p (Calloc n sz q) = of_bool (q = p)"
| "got p (Realloc old sz q) = of_bool (q = p)"
| "got p (Free q) = 0"

fun moved :: "addr \<Rightarrow> mem_call \<Rightarrow> nat" where
  "moved p (Realloc old sz q) = of_bool (old = p)"
| "moved p c = 0"

definition total :: "(mem_call \<Rightarrow> nat) \<Rightarrow> (mem_call \<times> bool \<times> callinfo) list \<Rightarrow> nat" where
  "total f cs = sum_list (map (f \<circ> fst) cs)"

definition freed :: "addr \<Rightarrow> libc_call list \<Rightarrow> nat" where
  "freed p log = count_list log (CFree p)"

definition tracks :: "nat \<Rightarrow> (addr \<Rightarrow> nat) \<Rightarrow> (addr \<Rightarrow> nat) \<Rightarrow> (addr \<Rightarrow> nat) \<Rightarrow> item list \<Rightarrow> bool" where
  "tracks n A M F is \<longleftrightarrow> (sorted_items is \<and> counts_ok n is) \<and>
     (\<forall>p. case look_item is p of
            None \<Rightarrow> A p = 0 \<and> M p = 0 \<and> F p = 0
          | Some (sz, c) \<Rightarrow> c = int (A p) - int (F p) - int (M p) \<and> F p \<le> A p)"

lemma tracks_look:
  "tracks n A M F is \<Longrightarrow> look_item is p = Some (sz, c) \<Longrightarrow> c = int (A p) - int (F p) - int (M p) \<and> F p \<le> A p"
  "tracks n A M F is \<Longrightarrow> look_item is p = None \<Longrightarrow> A p = 0 \<and> M p = 0 \<and> F p = 0"
  by (auto simp: tracks_def dest!: spec [of _ p])

lemma tracksI:
  assumes "sorted_items is \<and> counts_ok n is" "\<And>p. look_item is p = None \<Longrightarrow> A p = 0 \<and> M p = 0 \<and> F p = 0"
    "\<And>p sz c. look_item is p = Some (sz, c) \<Longrightarrow> c = int (A p) - int (F p) - int (M p) \<and> F p \<le> A p"
  shows "tracks n A M F is"
  using assms by (auto simp: tracks_def split: option.split)

lemma tracks_insert:
  assumes t: "tracks n A M F is" and n: "n < 2147483646"
  shows "tracks (Suc n) (A(q := A q + 1)) M F (list_insert is q sz ci)"
proof -
  have i: "sorted_items is \<and> counts_ok n is" using t by (simp add: tracks_def)
  show ?thesis
  proof (rule tracksI [OF ml.inv_insert [OF i n]])
    fix p sz' c assume "look_item (list_insert is q sz ci) p = Some (sz', c)"
    with tracks_look(1) [OF t, of q] tracks_look(1) [OF t, of p] tracks_look(2) [OF t, of q]
    show "c = int ((A(q := A q + 1)) p) - int (F p) - int (M p) \<and> F p \<le> (A(q := A q + 1)) p"
      by (cases "p = q"; cases "look_item is q") (auto simp: ml.look_insert [OF i n])
  qed (use tracks_look(2) [OF t] in \<open>auto simp: ml.look_insert [OF i n] split: if_splits\<close>)
qed

lemma tracks_release:
  assumes t: "tracks n A M F is" and n: "n < 2147483646" and l: "look_item is q = Some (sz, c)"
  shows "tracks (Suc n) A (M(q := M q + 1)) F (list_release is q)"
    "0 < c \<Longrightarrow> tracks (Suc n) A M (F(q := F q + 1)) (list_release is q)"
proof -
  have i: "sorted_items is \<and> counts_ok n is" using t by (simp add: tracks_def)
  note known = tracks_look(1) [OF t l]
  show "tracks (Suc n) A (M(q := M q + 1)) F (list_release is q)"
  proof (rule tracksI [OF ml.inv_release [OF i n]])
    fix p sz' c' assume "look_item (list_release is q) p = Some (sz', c')"
    with tracks_look(1) [OF t, of p] known l
    show "c' = int (A p) - int (F p) - int ((M(q := M q + 1)) p) \<and> F p \<le> A p"
      by (cases "p = q") (auto simp: ml.look_release [OF i n])
  qed (use tracks_look(2) [OF t] l in \<open>auto simp: ml.look_release [OF i n] split: if_splits\<close>)
  show "tracks (Suc n) A M (F(q := F q + 1)) (list_release is q)" if "0 < c"
  proof (rule tracksI [OF ml.inv_release [OF i n]])
    fix p sz' c' assume "look_item (list_release is q) p = Some (sz', c')"
    with tracks_look(1) [OF t, of p] known l that
    show "c' = int (A p) - int ((F(q := F q + 1)) p) - int (M p) \<and> (F(q := F q + 1)) p \<le> A p"
      by (cases "p = q") (auto simp: ml.look_release [OF i n])
  qed (use tracks_look(2) [OF t] l in \<open>auto simp: ml.look_release [OF i n] split: if_splits\<close>)
qed

lemma tracks_mono: "tracks n A M F is \<Longrightarrow> n \<le> m \<Longrightarrow> tracks m A M F is"
  by (auto simp: tracks_def intro: counts_ok_mono)

subsection \<open>The bonus tracer\<close>

definition tracer_ok :: "nat \<Rightarrow> (addr \<Rightarrow> nat) \<Rightarrow> (addr \<Rightarrow> nat) \<Rightarrow> tracer \<Rightarrow> bool" where
  "tracer_ok n A M t \<longleftrightarrow> (\<exists>is. mt_list t = Some is \<and> tracks n A M (\<lambda>p. freed p (libc_log t)) is)"

lemma list_alloc_Some:
  "mt_list t = Some is \<Longrightarrow> list_alloc ok ci p sz t =
     (if ok then Inr (t\<lparr>mt_list := Some (list_insert is p sz ci)\<rparr>) else Inl (InList NullDeref))"
  by (simp add: list_alloc_def alloc_def list_insert_def split_beta Let_def)

lemma list_dealloc_Some: "mt_list t = Some is \<Longrightarrow> list_dealloc p t = t\<lparr>mt_list := Some (list_release is p)\<rparr>"
  by (simp add: list_dealloc_def dealloc_def list_release_def split_beta Let_def)

lemma find_look: "find (Some is) p = Some i \<Longrightarrow> look_item is p = Some (item_size i, cnt i)"
  by (simp add: find_def look_item_def)

lemma tracer_fields [simp]:
  "mt_list (LOG l t) = mt_list t" "mt_list (libc c t) = mt_list t" "mt_list (count_alloc sz t) = mt_list t"
  "mt_list (count_free i t) = mt_list t" "libc_log (LOG l t) = libc_log t" "libc_log (libc c t) = libc_log t @ [c]"
  "libc_log (count_alloc sz t) = libc_log t" "libc_log (count_free i t) = libc_log t"
  by (simp_all add: LOG_def libc_def count_alloc_def count_free_def)

lemma freed_snoc [simp]: "freed p (log @ [c]) = freed p log + of_bool (c = CFree p)"
  by (simp add: freed_def)

lemma fun_upd_of_bool: "(\<lambda>p. f p + of_bool (q = p)) = f(q := f q + (1 :: nat))"
  by auto

lemma bonus_step:
  assumes call: "bonus_call c ok ci t = Inr t'" and t: "tracer_ok n A M t" and n: "n < 2147483645"
  shows "tracer_ok (n + 2) (\<lambda>p. A p + got p c) (\<lambda>p. M p + moved p c) t'"
proof -
  from t obtain "is" where l: "mt_list t = Some is" "tracks n A M (\<lambda>p. freed p (libc_log t)) is"
    by (auto simp: tracer_ok_def)
  have n1: "n < 2147483646" "Suc n < 2147483646" using n by simp_all
  note ins = tracks_mono [OF tracks_insert [OF l(2) n1(1)], of "n + 2", simplified]
  show ?thesis
  proof (cases c)
    case (Malloc sz p)
    with call l ins show ?thesis
      by (auto simp: tr_malloc_def Let_def list_alloc_Some [of _ "is"] tracer_ok_def fun_upd_of_bool split: if_splits)
  next
    case (Calloc m sz p)
    with call l ins show ?thesis
      by (auto simp: tr_calloc_def Let_def list_alloc_Some [of _ "is"] tracer_ok_def fun_upd_of_bool and_then_Inr split: if_splits)
  next
    case (Realloc old sz p)
    with call l obtain i where i: "find (Some is) old = Some i"
      by (auto simp: tr_realloc_def Let_def split: option.splits)
    note mv = tracks_insert [OF tracks_release(1) [OF l(2) n1(1) find_look [OF i]] n1(2)]
    from Realloc call l i mv show ?thesis
      by (auto simp: tr_realloc_def Let_def list_alloc_Some [of _ "list_release is old"] list_dealloc_Some [of _ "is"]
          tracer_ok_def fun_upd_of_bool and_then_Inr split: if_splits)
  next
    case (Free p)
    show ?thesis
    proof (cases "\<exists>i. find (Some is) p = Some i \<and> 0 < cnt i")
      case True
      then obtain i where i: "find (Some is) p = Some i" "0 < cnt i" by blast
      from tracks_mono [OF tracks_release(2) [OF l(2) n1(1) find_look [OF i(1)] i(2)], of "n + 2"] Free call l i
      show ?thesis
        by (auto simp: bonus_free_def Let_def list_dealloc_Some [of _ "is"] tracer_ok_def fun_upd_of_bool)
    next
      case False
      with Free call l tracks_mono [OF l(2), of "n + 2"] show ?thesis
        by (auto simp: bonus_free_def Let_def tracer_ok_def split: option.splits if_splits)
    qed
  qed
qed

lemma bonus_run:
  "trace_run bonus_call cs t = Inr t' \<Longrightarrow> tracer_ok n A M t \<Longrightarrow> n + 2 * length cs < 2147483645 \<Longrightarrow>
   tracer_ok (n + 2 * length cs) (\<lambda>p. A p + total (got p) cs) (\<lambda>p. M p + total (moved p) cs) t'"
proof (induction cs arbitrary: t n A M)
  case (Cons x cs)
  obtain c ok ci where x: "x = (c, ok, ci)" by (cases x)
  with Cons.prems(1) obtain t1 where t1: "bonus_call c ok ci t = Inr t1" "trace_run bonus_call cs t1 = Inr t'"
    by (auto simp: and_then_Inr)
  have "n < 2147483645" using Cons.prems(3) by simp
  from Cons.IH [OF t1(2) bonus_step [OF t1(1) Cons.prems(2) this]] Cons.prems(3)
  show ?case by (simp add: x total_def add.assoc)
qed (simp add: total_def)

definition started :: tracer where
  "started = (LOG LogStart tracer0)\<lparr>mt_list := Some []\<rparr>"

lemma init_started: "init True True True = Inr started"
  by (simp add: init_def new_list_def started_def)

lemma started_ok: "tracer_ok 0 (\<lambda>_. 0) (\<lambda>_. 0) started"
  by (simp add: started_def tracer_ok_def tracks_def look_item_def freed_def LOG_def tracer0_def)

text \<open>C32. The bonus tracer passes a block to libc's \<^verbatim>\<open>free\<close> at most as often as the program was given
  it, whatever the program frees: double frees and frees of unknown addresses stop at the tracer.\<close>

theorem bonus_no_double_free:
  assumes "init True True True = Inr t0" "trace_run bonus_call cs t0 = Inr t" "length cs < 2 ^ 30 - 2"
  shows "freed p (libc_log t) \<le> total (got p) cs"
proof -
  have "tracer_ok (2 * length cs) (\<lambda>p. total (got p) cs) (\<lambda>p. total (moved p) cs) t"
    using bonus_run [OF assms(2), of 0 "\<lambda>_. 0" "\<lambda>_. 0"] started_ok assms(1,3) by (simp add: init_started)
  then obtain "is" where l: "tracks (2 * length cs) (\<lambda>p. total (got p) cs) (\<lambda>p. total (moved p) cs) (\<lambda>p. freed p (libc_log t)) is"
    by (auto simp: tracer_ok_def)
  show ?thesis using tracks_look [OF l, of p] by (cases "look_item is p") auto
qed

text \<open>A program that frees a block twice, frees an address it made up, and leaks a block.\<close>

definition leaky :: "(mem_call \<times> bool \<times> callinfo) list" where
  "leaky = map (\<lambda>c. (c, True, ci_main))
     [Malloc 1024 4096, Malloc 32 8192, Free 4096, Free 4096, Free 77, Malloc 8 4096, Realloc 8192 64 12288]"

lemma leaky_run: "\<exists>t. trace_run bonus_call leaky started = Inr t" "length leaky < 2 ^ 30 - 2"
proof -
  have "case trace_run bonus_call leaky started of Inl _ \<Rightarrow> False | Inr _ \<Rightarrow> True" by code_simp
  then show "\<exists>t. trace_run bonus_call leaky started = Inr t" by (simp split: sum.splits)
qed (simp add: leaky_def)

theorem bonus_no_double_free_witness:
  "\<exists>t. trace_run bonus_call leaky started = Inr t \<and> freed 4096 (libc_log t) \<le> 2"
proof -
  have "total (got 4096) leaky = 2" by (simp add: leaky_def total_def)
  moreover obtain t where "trace_run bonus_call leaky started = Inr t" using leaky_run(1) by blast
  ultimately show ?thesis using bonus_no_double_free [OF init_started, of leaky t 4096] leaky_run(2) by auto
qed

lemma find_item_mem: "sorted_items is \<Longrightarrow> i \<in> set is \<longleftrightarrow> find_item (ptr i) is = Some i"
proof (induction "is")
  case (Cons c cs)
  show ?case
  proof (cases "ptr c < ptr i")
    case True
    then show ?thesis using Cons by auto
  next
    case False
    then have "i \<notin> set cs" using Cons.prems by auto
    with False show ?thesis by auto
  qed
qed simp

lemma find_item_ptr: "find_item p is = Some i \<Longrightarrow> ptr i = p"
  by (induction "is") (auto split: if_splits)

text \<open>C33. The report at the end lists exactly the blocks that the program was given more often than
  they were freed and moved, each with that difference as its reference count; the only other
  outcome is the division by zero when nothing was allocated.\<close>

theorem bonus_leak_report:
  assumes "init True True True = Inr t0" "trace_run bonus_call cs t0 = Inr t" "length cs < 2 ^ 30 - 2"
  shows "case bonus_fini t of
      Inl e \<Rightarrow> e = DivByZero \<and> alloc_times t = 0
    | Inr t' \<Rightarrow> \<exists>stats blocks. mt_log t' = mt_log t @ [stats, LogNonfreedStart] @ blocks @ [LogStop] \<and>
        (\<forall>p c. (\<exists>sz f o'. LogBlock p sz c f o' \<in> set blocks) \<longleftrightarrow>
          0 < c \<and> c = int (total (got p) cs) - int (freed p (libc_log t)) - int (total (moved p) cs))"
proof -
  have "tracer_ok (2 * length cs) (\<lambda>p. total (got p) cs) (\<lambda>p. total (moved p) cs) t"
    using bonus_run [OF assms(2), of 0 "\<lambda>_. 0" "\<lambda>_. 0"] started_ok assms(1,3) by (simp add: init_started)
  then obtain "is" where l: "mt_list t = Some is"
    "tracks (2 * length cs) (\<lambda>p. total (got p) cs) (\<lambda>p. total (moved p) cs) (\<lambda>p. freed p (libc_log t)) is"
    by (auto simp: tracer_ok_def)
  have sorted: "sorted_items is" using l(2) by (simp add: tracks_def)
  let ?blocks = "map (\<lambda>i. LogBlock (ptr i) (item_size i) (cnt i) (fname i) (ofs i)) (filter (\<lambda>i. cnt i > 0) is)"
  have "(\<exists>sz f o'. LogBlock p sz c f o' \<in> set ?blocks) \<longleftrightarrow> (\<exists>i \<in> set is. ptr i = p \<and> cnt i = c \<and> 0 < c)" for p c
    by (auto simp: image_iff)
  also have "\<dots> p c \<longleftrightarrow> (\<exists>i. find_item p is = Some i \<and> cnt i = c \<and> 0 < c)" for p c
    using find_item_mem [OF sorted] find_item_ptr [of p "is"] by metis
  also have "\<dots> p c \<longleftrightarrow> 0 < c \<and> c = int (total (got p) cs) - int (freed p (libc_log t)) - int (total (moved p) cs)" for p c
    using tracks_look [OF l(2), of p] by (cases "find_item p is") (auto simp: look_item_def)
  finally have listed: "(\<exists>sz f o'. LogBlock p sz c f o' \<in> set ?blocks) \<longleftrightarrow>
      0 < c \<and> c = int (total (got p) cs) - int (freed p (libc_log t)) - int (total (moved p) cs)" for p c .
  show ?thesis
  proof (cases "alloc_times t = 0")
    case False
    let ?s = "LogStatistics (n_malloc t) (n_malloc t div u64 (alloc_times t)) (free_size t)"
    have "bonus_fini t = Inr (t\<lparr>mt_log := mt_log t @ [?s, LogNonfreedStart] @ ?blocks @ [LogStop]\<rparr>)"
      using False l(1) by (simp add: bonus_fini_def fini_with_def statistics_def show_bloks_def LOG_def)
    with listed show ?thesis by (auto intro!: exI [of _ ?s] exI [of _ ?blocks])
  qed (simp add: bonus_fini_def fini_with_def statistics_def)
qed

theorem bonus_leak_report_witness:
  "\<exists>t. trace_run bonus_call leaky started = Inr t \<and>
    (case bonus_fini t of Inl e \<Rightarrow> e = DivByZero
     | Inr t' \<Rightarrow> \<exists>blocks. (\<exists>sz f o'. LogBlock 12288 sz 1 f o' \<in> set blocks) \<and> set blocks \<subseteq> set (mt_log t'))"
proof -
  obtain t where t: "trace_run bonus_call leaky started = Inr t" using leaky_run(1) by blast
  have "case trace_run bonus_call leaky started of Inl _ \<Rightarrow> False | Inr t \<Rightarrow> freed 12288 (libc_log t) = 0" by code_simp
  with t have "int (total (got 12288) leaky) - int (freed 12288 (libc_log t)) - int (total (moved 12288) leaky) = 1"
    by (simp add: leaky_def total_def)
  note n = this
  note report = bonus_leak_report [OF init_started t leaky_run(2)]
  show ?thesis
  proof (intro exI [of _ t] conjI t)
    show "case bonus_fini t of Inl e \<Rightarrow> e = DivByZero
      | Inr t' \<Rightarrow> \<exists>blocks. (\<exists>sz f o'. LogBlock 12288 sz 1 f o' \<in> set blocks) \<and> set blocks \<subseteq> set (mt_log t')"
    proof (cases "bonus_fini t")
      case (Inr t')
      with report obtain stats blocks where b: "mt_log t' = mt_log t @ [stats, LogNonfreedStart] @ blocks @ [LogStop]"
        "\<forall>p c. (\<exists>sz f o'. LogBlock p sz c f o' \<in> set blocks) \<longleftrightarrow>
          0 < c \<and> c = int (total (got p) leaky) - int (freed p (libc_log t)) - int (total (moved p) leaky)"
        by auto
      have "\<exists>sz f o'. LogBlock 12288 sz 1 f o' \<in> set blocks"
        using b(2) [rule_format, of 12288 1] n by simp
      moreover have "set blocks \<subseteq> set (mt_log t')" by (auto simp: b(1))
      ultimately show ?thesis unfolding Inr sum.case by blast
    qed (use report in simp)
  qed
qed

text \<open>Where the tracers go wrong. Before any allocation parts 2 and 3 read through a null pointer when
  the program frees an address, \<^verbatim>\<open>NULL\<close> included, and these and the bonus version do so when it calls
  \<^verbatim>\<open>realloc\<close>, also on \<^verbatim>\<open>NULL\<close>; part 3 hands a doubly freed block to libc twice; \<^verbatim>\<open>calloc\<close> counts the
  size of one member only; the statistics of a program without allocations divide by zero.\<close>

lemma tracer_faults:
  "part2_call (Free p) ok ci started = Inl NullItem \<and> part3_call (Free p) ok ci started = Inl NullItem \<and>
   part2_call (Realloc p n q) ok ci started = Inl NullItem \<and> part3_call (Realloc p n q) ok ci started = Inl NullItem \<and>
   bonus_call (Realloc p n q) ok ci started = Inl NullItem \<and>
   (\<exists>t. trace_run part3_call [(Malloc n p, True, ci), (Free p, ok, ci), (Free p, ok, ci)] started = Inr t \<and>
      freed p (libc_log t) = 2) \<and>
   (\<exists>t. bonus_call (Calloc m n p) True ci started = Inr t \<and> n_malloc t = u64 n) \<and>
   part1_fini started = Inl DivByZero \<and> bonus_fini started = Inl DivByZero"
  by (auto simp: part2_call_def tr_free_def tr_realloc_def tr_malloc_def tr_calloc_def started_def LOG_def libc_def tracer0_def
      list_dealloc_def dealloc_def list_alloc_def alloc_def find_def count_alloc_def count_free_def freed_def Let_def
      new_item_def part1_fini_def bonus_fini_def fini_with_def statistics_def)

end
