(* ===== verification/MemtraceLegal.thy ===== *)
theory MemtraceLegal
  imports MemtraceProps
begin

text \<open>
  The tracers on a program that uses the allocator as it should: it frees and reallocates only blocks that
  it holds, and libc does not give it a block that it still holds. The test programs of
  \<^verbatim>\<open>linklab/test\<close> are instances, except for \<^verbatim>\<open>test4.c\<close>, which frees twice and at random.
\<close>

subsection \<open>What a program holds\<close>

text \<open>How many bytes a \<^verbatim>\<open>calloc\<close> of \<open>n\<close> members of size \<open>sz\<close> asks for: \<open>n * sz\<close> by its definition; the tracers count one
  member.\<close>

definition whole :: "int \<Rightarrow> int \<Rightarrow> int" where
  "whole n sz = n * sz"

definition one_member :: "int \<Rightarrow> int \<Rightarrow> int" where
  "one_member n sz = sz"

lemma one_member_simps [simp]:
  "(H :: addr \<rightharpoonup> int)(p \<mapsto> one_member n sz) = H(p \<mapsto> sz)" "[one_member n sz] = [sz]"
  by (simp_all add: one_member_def)

text \<open>The blocks with the sizes that they were asked for with, when \<open>w\<close> says what a \<^verbatim>\<open>calloc\<close> asks for.\<close>

fun hold :: "(int \<Rightarrow> int \<Rightarrow> int) \<Rightarrow> mem_call \<Rightarrow> (addr \<rightharpoonup> int) \<Rightarrow> (addr \<rightharpoonup> int)" where
  "hold w (Malloc sz p) H = H(p \<mapsto> sz)"
| "hold w (Calloc n sz p) H = H(p \<mapsto> w n sz)"
| "hold w (Realloc old sz p) H = (H(old := None))(p \<mapsto> sz)"
| "hold w (Free p) H = H(p := None)"

abbreviation hold1 :: "mem_call \<Rightarrow> (addr \<rightharpoonup> int) \<Rightarrow> (addr \<rightharpoonup> int)" where "hold1 \<equiv> hold one_member"

fun legal_call :: "mem_call \<Rightarrow> (addr \<rightharpoonup> int) \<Rightarrow> bool" where
  "legal_call (Malloc sz p) H \<longleftrightarrow> H p = None"
| "legal_call (Calloc n sz p) H \<longleftrightarrow> H p = None"
| "legal_call (Realloc old sz p) H \<longleftrightarrow> H old \<noteq> None \<and> (p = old \<or> H p = None)"
| "legal_call (Free p) H \<longleftrightarrow> H p \<noteq> None"

text \<open>This depends on which blocks are held only, and not on their sizes.\<close>

fun legal_calls :: "mem_call list \<Rightarrow> (addr \<rightharpoonup> int) \<Rightarrow> bool" where
  "legal_calls [] H \<longleftrightarrow> True"
| "legal_calls (c # cs) H \<longleftrightarrow> legal_call c H \<and> legal_calls cs (hold one_member c H)"

fun asked :: "(int \<Rightarrow> int \<Rightarrow> int) \<Rightarrow> mem_call \<Rightarrow> int list" where
  "asked w (Malloc sz p) = [sz]"
| "asked w (Calloc n sz p) = [w n sz]"
| "asked w (Realloc old sz p) = [sz]"
| "asked w (Free p) = []"

abbreviation asked1 :: "mem_call \<Rightarrow> int list" where "asked1 \<equiv> asked one_member"

fun given_back :: "mem_call \<Rightarrow> (addr \<rightharpoonup> int) \<Rightarrow> int" where
  "given_back (Realloc old sz p) H = (case H old of None \<Rightarrow> 0 | Some z \<Rightarrow> z)"
| "given_back (Free p) H = (case H p of None \<Rightarrow> 0 | Some z \<Rightarrow> z)"
| "given_back c H = 0"

fun back_total :: "(int \<Rightarrow> int \<Rightarrow> int) \<Rightarrow> mem_call list \<Rightarrow> (addr \<rightharpoonup> int) \<Rightarrow> int" where
  "back_total w [] H = 0"
| "back_total w (c # cs) H = given_back c H + back_total w cs (hold w c H)"

abbreviation back_total1 :: "mem_call list \<Rightarrow> (addr \<rightharpoonup> int) \<Rightarrow> int" where "back_total1 \<equiv> back_total one_member"

definition allocations :: "(int \<Rightarrow> int \<Rightarrow> int) \<Rightarrow> mem_call list \<Rightarrow> int list" where
  "allocations w cs = concat (map (asked w) cs)"

abbreviation allocations1 :: "mem_call list \<Rightarrow> int list" where "allocations1 \<equiv> allocations one_member"

fun call_line :: "mem_call \<Rightarrow> log_line" where
  "call_line (Malloc sz p) = LogMalloc sz p"
| "call_line (Calloc n sz p) = LogCalloc n sz p"
| "call_line (Realloc old sz p) = LogRealloc old sz p"
| "call_line (Free p) = LogFree p"

fun call_libc :: "mem_call \<Rightarrow> libc_call" where
  "call_libc (Malloc sz p) = CMalloc sz"
| "call_libc (Calloc n sz p) = CCalloc n sz"
| "call_libc (Realloc old sz p) = CRealloc old sz"
| "call_libc (Free p) = CFree p"

subsection \<open>The block list of such a program\<close>

fun matches :: "int option \<Rightarrow> (int \<times> int) option \<Rightarrow> bool" where
  "matches (Some sz) l \<longleftrightarrow> l = Some (sz, 1)"
| "matches None (Some (sz, c)) \<longleftrightarrow> c = 0"
| "matches None None \<longleftrightarrow> True"

lemma matches_None: "matches None l \<longleftrightarrow> (\<forall>sz c. l = Some (sz, c) \<longrightarrow> c = 0)"
  by (cases l) auto

definition holds :: "nat \<Rightarrow> (addr \<rightharpoonup> int) \<Rightarrow> item list \<Rightarrow> bool" where
  "holds n H is \<longleftrightarrow> (sorted_items is \<and> counts_ok n is) \<and> (\<forall>p. matches (H p) (look_item is p))"

lemma holds_insert:
  assumes "holds n H is" "n < 2147483646" "H p = None"
  shows "holds (Suc n) (H(p \<mapsto> sz)) (list_insert is p sz ci)"
proof -
  have i: "sorted_items is \<and> counts_ok n is" using assms(1) by (simp add: holds_def)
  have "matches (H q) (look_item is q)" for q using assms(1) by (simp add: holds_def)
  from this this [of p] show ?thesis
    using ml.inv_insert [OF i assms(2)] assms(3)
    by (auto simp: holds_def ml.look_insert [OF i assms(2)] matches_None split: option.splits)
qed

lemma holds_release:
  assumes "holds n H is" "n < 2147483646" "H p \<noteq> None"
  shows "holds (Suc n) (H(p := None)) (list_release is p)"
proof -
  have i: "sorted_items is \<and> counts_ok n is" using assms(1) by (simp add: holds_def)
  have m: "matches (H q) (look_item is q)" for q using assms(1) by (simp add: holds_def)
  obtain sz where "H p = Some sz" using assms(3) by blast
  with m [of p] have "look_item is p = Some (sz, 1)" by simp
  then show ?thesis
    using ml.inv_release [OF i assms(2)] m by (simp add: holds_def ml.look_release [OF i assms(2)])
qed

lemma holds_mono: "holds n H is \<Longrightarrow> n \<le> m \<Longrightarrow> holds m H is"
  by (auto simp: holds_def intro: counts_ok_mono)

lemma holds_find:
  assumes "holds n H is" "H p = Some sz"
  obtains i where "find (Some is) p = Some i" "item_size i = sz" "cnt i = 1"
proof -
  have "matches (H p) (look_item is p)" using assms(1) by (simp add: holds_def)
  with assms(2) that show thesis by (auto simp: look_item_def find_def)
qed

text \<open>What a tracer's state says after calls that were all passed on.\<close>

definition traced :: "nat \<Rightarrow> (addr \<rightharpoonup> int) \<Rightarrow> int list \<Rightarrow> int \<Rightarrow> mem_call list \<Rightarrow> tracer \<Rightarrow> bool" where
  "traced n H sizes ret cs t \<longleftrightarrow> (\<exists>is. mt_list t = Some is \<and> holds n H is) \<and>
     n_malloc t = u64 (sum_list sizes) \<and> alloc_times t = s32 (int (length sizes)) \<and> free_size t = s32 ret \<and>
     mt_log t = LogStart # map call_line cs \<and> libc_log t = map call_libc cs"

lemma u64_u64: "u64 (u64 a + b) = u64 (a + b)"
  by (simp add: u64_def mod_simps)

lemma s32_s32: "s32 (s32 a + b) = s32 (a + b)"
proof -
  have "s32 a + b + 2 ^ 31 = (a + 2 ^ 31) mod 2 ^ 32 + b" by (simp add: s32_def)
  then have "(s32 a + b + 2 ^ 31) mod 2 ^ 32 = (a + 2 ^ 31 + b) mod 2 ^ 32" by (simp only: mod_add_left_eq)
  moreover have "a + 2 ^ 31 + b = a + b + 2 ^ 31" by simp
  ultimately show ?thesis unfolding s32_def by metis
qed

text \<open>One legal call: the bonus tracer and that of part 3 do the same to their state.\<close>

lemma traced_alloc:
  assumes t: "traced n H sizes ret cs t" and n: "n < 2147483645" and c: "legal_call c H" "\<forall>p. c \<noteq> Free p"
  shows "\<exists>t'. bonus_call c True ci t = Inr t' \<and> part3_call c True ci t = Inr t' \<and>
    traced (n + 2) (hold1 c H) (sizes @ asked1 c) (ret + given_back c H) (cs @ [c]) t'"
proof -
  obtain "is" where l: "mt_list t = Some is" "holds n H is" using t by (auto simp: traced_def)
  have n': "n < 2147483646" "Suc n < 2147483646" using n by simp_all
  note fields = traced_def list_alloc_Some list_dealloc_Some l(1) LOG_def libc_def count_alloc_def count_free_def
    u64_u64 s32_s32 Let_def add.commute [of 1]
  note new = holds_mono [OF holds_insert [OF l(2) n'(1)], of _ "n + 2", simplified]
  show ?thesis
  proof (cases c)
    case (Malloc sz p)
    with c have "H p = None" by simp
    from new [OF this] t show ?thesis by (simp add: Malloc tr_malloc_def fields)
  next
    case (Calloc m sz p)
    with c have "H p = None" by simp
    from new [OF this] t show ?thesis by (simp add: Calloc tr_calloc_def fields)
  next
    case (Realloc old sz p)
    with c obtain z where z: "H old = Some z" by auto
    obtain i where i: "find (Some is) old = Some i" "item_size i = z" using holds_find [OF l(2) z] by metis
    have "holds (Suc n) (H(old := None)) (list_release is old)" using holds_release [OF l(2) n'(1)] z by simp
    from holds_insert [OF this n'(2), of p sz ci] c Realloc
    have "holds (n + 2) (hold1 c H) (list_insert (list_release is old) p sz ci)" by auto
    then show ?thesis using t i z by (simp add: Realloc tr_realloc_def fields)
  qed (use c in simp)
qed

lemma traced_free:
  assumes t: "traced n H sizes ret cs t" and n: "n < 2147483645" and p: "H p \<noteq> None"
  shows "\<exists>t'. bonus_call (Free p) True ci t = Inr t' \<and> part3_call (Free p) True ci t = Inr t' \<and>
    traced (n + 2) (hold1 (Free p) H) sizes (ret + given_back (Free p) H) (cs @ [Free p]) t'"
proof -
  obtain "is" where l: "mt_list t = Some is" "holds n H is" using t by (auto simp: traced_def)
  obtain z where z: "H p = Some z" using p by blast
  obtain i where i: "find (Some is) p = Some i" "item_size i = z" "cnt i = 1" using holds_find [OF l(2) z] by metis
  have h: "holds (Suc n) (H(p := None)) (list_release is p)" using holds_release [OF l(2)] n p by simp
  have "item_size i' = z" if "find (Some (list_release is p)) p = Some i'" for i'
    using find_look [OF that] ml.look_release [of "is" n p p] l(2) n find_look [OF i(1)] i(2)
    by (simp add: holds_def)
  moreover have "find (Some (list_release is p)) p \<noteq> None"
    using ml.look_release [of "is" n p p] l(2) n find_look [OF i(1)]
    by (auto simp: holds_def find_def look_item_def)
  ultimately obtain i' where i': "find (Some (list_release is p)) p = Some i'" "item_size i' = z" by blast
  show ?thesis
    using t i i' z holds_mono [OF h, of "n + 2"]
    by (simp add: bonus_free_def tr_free_def traced_def list_dealloc_Some l(1) LOG_def libc_def count_free_def
        s32_s32 Let_def)
qed

lemma traced_call:
  assumes "traced n H sizes ret cs t" "n < 2147483645" "legal_call c H"
  shows "\<exists>t'. bonus_call c True ci t = Inr t' \<and> part3_call c True ci t = Inr t' \<and>
    traced (n + 2) (hold1 c H) (sizes @ asked1 c) (ret + given_back c H) (cs @ [c]) t'"
proof (cases "\<exists>p. c = Free p")
  case True
  then obtain p where "c = Free p" ..
  then show ?thesis using traced_free [OF assms(1,2), of p ci] assms(3) by simp
next
  case False
  then show ?thesis using traced_alloc [OF assms, of ci] by blast
qed

lemma traced_run:
  assumes "traced n H sizes ret prev t" "n + 2 * length cs < 2147483645" "legal_calls (map fst cs) H"
    "list_all (\<lambda>(_, ok, _). ok) cs"
  shows "\<exists>t'. trace_run bonus_call cs t = Inr t' \<and> trace_run part3_call cs t = Inr t' \<and>
    traced (n + 2 * length cs) (fold hold1 (map fst cs) H) (sizes @ allocations1 (map fst cs))
      (ret + back_total1 (map fst cs) H) (prev @ map fst cs) t'"
  using assms
proof (induction cs arbitrary: n H sizes ret prev t)
  case (Cons x cs)
  obtain c ok ci where x: "x = (c, ok, ci)" by (cases x)
  have ok: ok "legal_call c H" "legal_calls (map fst cs) (hold1 c H)" "list_all (\<lambda>(_, ok, _). ok) cs"
    using Cons.prems x by simp_all
  obtain t1 where t1: "bonus_call c True ci t = Inr t1" "part3_call c True ci t = Inr t1"
    "traced (n + 2) (hold1 c H) (sizes @ asked1 c) (ret + given_back c H) (prev @ [c]) t1"
    using traced_call [OF Cons.prems(1) _ ok(2)] Cons.prems(2) by (metis add_lessD1)
  have "n + 2 + 2 * length cs < 2147483645" using Cons.prems(2) by simp
  from Cons.IH [OF t1(3) this ok(3,4)] show ?case
    using t1(1,2) ok(1) by (simp add: x allocations_def add.assoc)
qed (simp add: allocations_def)

lemma started_traced: "traced 0 Map.empty [] 0 [] started"
  by (simp add: traced_def started_def holds_def look_item_def LOG_def tracer0_def u64_def)

subsection \<open>The report\<close>

lemma report_blocks:
  assumes "holds n H is"
  shows "(\<exists>f o'. LogBlock p sz c f o' \<in>
      set (map (\<lambda>i. LogBlock (ptr i) (item_size i) (cnt i) (fname i) (ofs i)) (filter (\<lambda>i. cnt i > 0) is))) \<longleftrightarrow>
    c = 1 \<and> H p = Some sz"
proof -
  have s: "sorted_items is" and m: "matches (H p) (look_item is p)" using assms by (simp_all add: holds_def)
  have "(\<exists>i \<in> set is. ptr i = p \<and> item_size i = sz \<and> cnt i = c \<and> 0 < c) \<longleftrightarrow> look_item is p = Some (sz, c) \<and> 0 < c"
    using find_item_mem [OF s] find_item_ptr [of p "is"] by (auto simp: look_item_def)
  moreover have "look_item is p = Some (sz, c) \<and> 0 < c \<longleftrightarrow> c = 1 \<and> H p = Some sz"
    using m by (cases "H p") (auto simp: matches_None)
  ultimately show ?thesis by (auto simp: image_iff)
qed

lemma held_items:
  assumes "holds n H is"
  shows "length (filter (\<lambda>i. cnt i > 0) is) = card (dom H)"
    "i \<in> set is \<Longrightarrow> cnt i > 0 \<Longrightarrow> H (ptr i) = Some (item_size i) \<and> cnt i = 1"
proof -
  have s: "sorted_items is" and m: "matches (H p) (look_item is p)" for p using assms by (simp_all add: holds_def)
  have held: "i \<in> set is \<and> cnt i > 0 \<longleftrightarrow> find_item (ptr i) is = Some i \<and> H (ptr i) = Some (item_size i) \<and> cnt i = 1" for i
    using find_item_mem [OF s, of i] m [of "ptr i"] by (cases "H (ptr i)") (auto simp: look_item_def matches_None)
  then show "i \<in> set is \<Longrightarrow> cnt i > 0 \<Longrightarrow> H (ptr i) = Some (item_size i) \<and> cnt i = 1" by blast
  have "ptr ` set (filter (\<lambda>i. cnt i > 0) is) = dom H"
  proof (intro equalityI subsetI)
    fix p assume "p \<in> dom H"
    then obtain sz where "look_item is p = Some (sz, 1)" using m [of p] by auto
    then obtain i where "find_item p is = Some i" "cnt i = 1" by (auto simp: look_item_def)
    then have "i \<in> set (filter (\<lambda>i. cnt i > 0) is)" "ptr i = p" using find_item_mem [OF s] find_item_ptr by auto
    then show "p \<in> ptr ` set (filter (\<lambda>i. cnt i > 0) is)" by blast
  qed (use held in auto)
  moreover have "distinct (map ptr (filter (\<lambda>i. cnt i > 0) is))"
    using s by (intro distinct_map_filter) (simp add: sorted_items_def strict_sorted_iff)
  ultimately show "length (filter (\<lambda>i. cnt i > 0) is) = card (dom H)"
    using distinct_card [of "map ptr (filter (\<lambda>i. cnt i > 0) is)"] by simp
qed

lemma asked_one: "length (asked1 c) \<le> Suc 0"
  by (cases c) simp_all

lemma allocations_length: "length (allocations1 ds) \<le> length ds"
proof (induction ds)
  case (Cons d ds)
  then show ?case using asked_one [of d] by (simp add: allocations_def)
qed (simp add: allocations_def)

lemma legal_traced:
  assumes "legal_calls (map fst cs) Map.empty" "list_all (\<lambda>(_, ok, _). ok) cs" "length cs < 2 ^ 30 - 2"
    "allocations1 (map fst cs) \<noteq> []"
  shows "\<exists>t t' blocks. trace_run bonus_call cs started = Inr t \<and> trace_run part3_call cs started = Inr t \<and>
    bonus_fini t = Inr t' \<and> part3_fini t = Inr t' \<and> libc_log t = map (call_libc \<circ> fst) cs \<and>
    mt_log t' = LogStart # map (call_line \<circ> fst) cs @
      [LogStatistics (u64 (sum_list (allocations1 (map fst cs))))
         (u64 (sum_list (allocations1 (map fst cs))) div int (length (allocations1 (map fst cs))))
         (s32 (back_total1 (map fst cs) Map.empty)), LogNonfreedStart] @ blocks @ [LogStop] \<and>
    set blocks \<subseteq> {LogBlock p sz 1 f o' | p sz f o'. fold hold1 (map fst cs) Map.empty p = Some sz} \<and>
    {(p, sz). \<exists>f o'. LogBlock p sz 1 f o' \<in> set blocks} = {(p, sz). fold hold1 (map fst cs) Map.empty p = Some sz} \<and>
    length blocks = card (dom (fold hold1 (map fst cs) Map.empty))"
proof -
  have "0 + 2 * length cs < 2147483645" using assms(3) by simp
  from traced_run [OF started_traced this assms(1,2)] obtain t where
    t: "trace_run bonus_call cs started = Inr t" "trace_run part3_call cs started = Inr t"
    and T: "traced (2 * length cs) (fold hold1 (map fst cs) Map.empty) (allocations1 (map fst cs))
      (back_total1 (map fst cs) Map.empty) (map fst cs) t" by auto
  from allocations_length [of "map fst cs"] assms(3,4) have len: "0 < length (allocations1 (map fst cs))"
    "length (allocations1 (map fst cs)) < 2147483648" by simp_all
  then have n: "alloc_times t = int (length (allocations1 (map fst cs)))" "alloc_times t \<noteq> 0"
    "u64 (alloc_times t) = alloc_times t"
    using T by (simp_all add: traced_def u64_def)
  obtain "is" where l: "mt_list t = Some is" "holds (2 * length cs) (fold hold1 (map fst cs) Map.empty) is"
    using T by (auto simp: traced_def)
  let ?b = "map (\<lambda>i. LogBlock (ptr i) (item_size i) (cnt i) (fname i) (ofs i)) (filter (\<lambda>i. cnt i > 0) is)"
  have "bonus_fini t = part3_fini t" by (simp add: bonus_fini_def part3_fini_def)
  moreover obtain t' where "bonus_fini t = Inr t'" and
    "mt_log t' = mt_log t @ [LogStatistics (n_malloc t) (n_malloc t div alloc_times t) (free_size t), LogNonfreedStart] @ ?b @ [LogStop]"
    using n l(1) by (simp add: bonus_fini_def fini_with_def statistics_def show_bloks_def LOG_def)
  moreover have "{(p, sz). \<exists>f o'. LogBlock p sz 1 f o' \<in> set ?b} = {(p, sz). fold hold1 (map fst cs) Map.empty p = Some sz}"
    using report_blocks [OF l(2)] by simp
  moreover have "set ?b \<subseteq> {LogBlock p sz 1 f o' | p sz f o'. fold hold1 (map fst cs) Map.empty p = Some sz}"
    using held_items(2) [OF l(2)] by auto
  ultimately show ?thesis
    using t T n(1) by (intro exI [of _ t] exI [of _ t'] exI [of _ ?b] conjI) (simp_all add: traced_def held_items(1) [OF l(2)])
qed

subsection \<open>The test programs\<close>

text \<open>The calls that each program makes, with the addresses that libc returns and, for \<^verbatim>\<open>test3.c\<close>, the values
  of \<^verbatim>\<open>rand\<close>: first the one that gives the size, then the one that chooses the function.\<close>

definition test1 :: "addr \<Rightarrow> addr \<Rightarrow> addr \<Rightarrow> mem_call list" where
  "test1 a b c = [Malloc 1024 a, Malloc 32 b, Malloc 1 c, Free c, Free b]"

definition test2 :: "addr \<Rightarrow> mem_call list" where
  "test2 a = [Malloc 1024 a, Free a]"

definition N :: nat where "N = 10"
definition MAX_SIZE :: int where "MAX_SIZE = 2 ^ 16"

definition test3_alloc :: "int \<times> int \<times> addr \<Rightarrow> mem_call" where
  "test3_alloc x =
     (case x of (r1, r2, p) \<Rightarrow>
        let s = r1 mod MAX_SIZE in if r2 mod 2 \<noteq> 0 then Malloc s p else Calloc 1 s p)"

definition test3 :: "(nat \<Rightarrow> int \<times> int \<times> addr) \<Rightarrow> mem_call list" where
  "test3 x = map (\<lambda>i. test3_alloc (x i)) [0..<N] @ map (\<lambda>i. Free (snd (snd (x (i - 1))))) (rev [1..<N + 1])"

definition test4 :: "addr \<Rightarrow> mem_call list" where
  "test4 a = [Malloc 1024 a, Free a, Free a, Free 24145552]"

definition test5 :: "addr \<Rightarrow> addr \<Rightarrow> addr \<Rightarrow> addr \<Rightarrow> addr \<Rightarrow> mem_call list" where
  "test5 a b c d e = [Malloc 10 a, Realloc a 100 b, Realloc b 1000 c, Realloc c 10000 d, Realloc d 100000 e, Free e]"

definition from_main :: "mem_call list \<Rightarrow> (mem_call \<times> bool \<times> callinfo) list" where
  "from_main cs = map (\<lambda>c. (c, True, ci_main)) cs"

lemma from_main_simps [simp]:
  "map fst (from_main cs) = cs" "list_all (\<lambda>(_, ok, _). ok) (from_main cs)" "length (from_main cs) = length cs"
  by (simp_all add: from_main_def list_all_iff comp_def)

lemma legal_append: "legal_calls (cs @ ds) H \<longleftrightarrow> legal_calls cs H \<and> legal_calls ds (fold hold1 cs H)"
  by (induction cs arbitrary: H) simp_all

text \<open>Blocks freed in the reverse order of their allocation.\<close>

lemma stack_discipline:
  assumes "distinct (map (snd \<circ> snd) xs)" "\<forall>x \<in> set xs. H (snd (snd x)) = None"
  shows "legal_calls (map test3_alloc xs @ map (Free \<circ> snd \<circ> snd) (rev xs)) H \<and>
    fold hold1 (map test3_alloc xs @ map (Free \<circ> snd \<circ> snd) (rev xs)) H = H"
  using assms
proof (induction xs arbitrary: H)
  case (Cons x xs)
  obtain r1 r2 p where x: "x = (r1, r2, p)" by (cases x)
  define H' where "H' = H(p \<mapsto> r1 mod MAX_SIZE)"
  have h: "hold1 (test3_alloc x) H = H'" by (simp add: test3_alloc_def x Let_def H'_def)
  have l: "legal_call (test3_alloc x) H" using Cons.prems(2) by (simp add: test3_alloc_def x Let_def)
  have none: "\<forall>y \<in> set xs. H' (snd (snd y)) = None" using Cons.prems by (force simp: x H'_def)
  have "distinct (map (snd \<circ> snd) xs)" using Cons.prems(1) by (simp add: comp_def)
  note IH = Cons.IH [OF this none]
  have p: "H' p \<noteq> None" "(\<lambda>q. if q = p then None else H' q) = H" using Cons.prems(2) by (auto simp: x H'_def)
  show ?case using IH h l p(1) by (simp add: legal_append x comp_def fun_upd_def p(2) cong: if_cong)
qed simp

lemma test3_legal:
  assumes "distinct (map (\<lambda>i. snd (snd (x i))) [0..<N])"
  shows "legal_calls (test3 x) Map.empty" "fold hold1 (test3 x) Map.empty = Map.empty"
proof -
  have "[1..<N + 1] = map Suc [0..<N]" by (simp add: map_Suc_upt)
  then have "test3 x = map test3_alloc (map x [0..<N]) @ map (Free \<circ> snd \<circ> snd) (rev (map x [0..<N]))"
    by (simp add: test3_def rev_map comp_def)
  with stack_discipline [of "map x [0..<N]" Map.empty] assms
  show "legal_calls (test3 x) Map.empty" "fold hold1 (test3 x) Map.empty = Map.empty" by (simp_all add: comp_def)
qed

lemma test3_allocations: "allocations1 (test3 x) \<noteq> []"
proof -
  have "asked1 (test3_alloc y) \<noteq> []" for y by (simp add: test3_alloc_def Let_def split: prod.splits)
  then show ?thesis by (simp add: test3_def allocations_def N_def upt_rec)
qed

text \<open>\<^verbatim>\<open>test3.c\<close> leaves nothing behind, whatever \<^verbatim>\<open>rand\<close> gives, and the tracers report nothing.\<close>

lemma test3_no_leak:
  assumes "distinct (map (\<lambda>i. snd (snd (x i))) [0..<N])"
  shows "\<exists>t t' front. trace_run bonus_call (from_main (test3 x)) started = Inr t \<and> bonus_fini t = Inr t' \<and>
    mt_log t' = front @ [LogNonfreedStart, LogStop]"
proof -
  have "length (test3 x) < 2 ^ 30 - 2" by (simp add: test3_def N_def)
  with test3_legal [OF assms] test3_allocations have "legal_calls (map fst (from_main (test3 x))) Map.empty"
    "list_all (\<lambda>(_, ok, _). ok) (from_main (test3 x))" "length (from_main (test3 x)) < 2 ^ 30 - 2"
    "allocations1 (map fst (from_main (test3 x))) \<noteq> []" by simp_all
  from legal_traced [OF this] obtain t t' blocks stats where
    r: "trace_run bonus_call (from_main (test3 x)) started = Inr t" "bonus_fini t = Inr t'"
      "mt_log t' = LogStart # map (call_line \<circ> fst) (from_main (test3 x)) @ [stats, LogNonfreedStart] @ blocks @ [LogStop]"
      "length blocks = card (dom (fold hold1 (map fst (from_main (test3 x))) Map.empty))" by blast
  from r(4) have "blocks = []" by (simp add: test3_legal(2) [OF assms])
  with r(3) have "mt_log t' = (LogStart # map (call_line \<circ> fst) (from_main (test3 x)) @ [stats]) @ [LogNonfreedStart, LogStop]"
    by simp
  with r(1,2) show ?thesis by blast
qed

text \<open>\<^verbatim>\<open>test4.c\<close>: the bonus tracer keeps the two bad frees from libc, the tracer of part 3 passes the first on and
  faults in the second.\<close>

lemma test4_runs:
  assumes "a \<noteq> 24145552"
  shows "trace_run part3_call (from_main (test4 a)) started = Inl NullItem"
    "\<exists>t. trace_run bonus_call (from_main (test4 a)) started = Inr t \<and> libc_log t = [CMalloc 1024, CFree a] \<and>
      mt_log t = [LogStart, LogMalloc 1024 a, LogFree a, LogFree a, LogDoubleFree, LogFree 24145552, LogIllFree]"
  using assms
  by (auto simp: from_main_def test4_def started_def tracer0_def tr_malloc_def tr_free_def bonus_free_def LOG_def libc_def
      list_alloc_def list_dealloc_def alloc_def dealloc_def find_def new_item_def count_alloc_def count_free_def
      ci_main_def Let_def)

text \<open>The output that such a program should have: a line per call, the statistics (the sum of the sizes asked for,
  their average and the sum of the sizes given back, in the machine's widths), and a line for each block that the
  program still holds and for no other, with its size and the reference count 1.\<close>

definition reported :: "(int \<Rightarrow> int \<Rightarrow> int) \<Rightarrow> mem_call list \<Rightarrow> log_line list \<Rightarrow> bool" where
  "reported w cs log \<longleftrightarrow> (\<exists>blocks.
     log = LogStart # map call_line cs @
       [LogStatistics (u64 (sum_list (allocations w cs)))
          (u64 (sum_list (allocations w cs)) div int (length (allocations w cs)))
          (s32 (back_total w cs Map.empty)), LogNonfreedStart] @ blocks @ [LogStop] \<and>
     set blocks \<subseteq> {LogBlock p sz 1 f o' | p sz f o'. fold (hold w) cs Map.empty p = Some sz} \<and>
     {(p, sz). \<exists>f o'. LogBlock p sz 1 f o' \<in> set blocks} = {(p, sz). fold (hold w) cs Map.empty p = Some sz} \<and>
     length blocks = card (dom (fold (hold w) cs Map.empty)))"

text \<open>Every \<^verbatim>\<open>calloc\<close> is of one member, as in the test programs.\<close>

definition single_callocs :: "mem_call list \<Rightarrow> bool" where
  "single_callocs cs \<longleftrightarrow> list_all (\<lambda>c. case c of Calloc n sz p \<Rightarrow> n = 1 | _ \<Rightarrow> True) cs"

lemma single_callocs_same:
  "single_callocs cs \<Longrightarrow> fold (hold whole) cs H = fold hold1 cs H \<and> allocations whole cs = allocations1 cs \<and>
     back_total whole cs H = back_total1 cs H"
proof (induction cs arbitrary: H)
  case (Cons c cs)
  have "hold whole c H = hold1 c H" "asked whole c = asked1 c" "single_callocs cs"
    using Cons.prems by (cases c; simp add: single_callocs_def whole_def)+
  with Cons.IH show ?case by (simp add: allocations_def)
qed (simp add: allocations_def)

lemma reported_single: "single_callocs cs \<Longrightarrow> reported whole cs log = reported one_member cs log"
  using single_callocs_same [of cs Map.empty] by (simp add: reported_def)

text \<open>With several members the total is too small: one \<^verbatim>\<open>calloc\<close> of 500 members of 4 bytes is reported with 4.\<close>

lemma calloc_undercounted:
  "\<exists>t t'. trace_run bonus_call [(Calloc 500 4 a, True, ci)] started = Inr t \<and> bonus_fini t = Inr t' \<and>
     reported one_member [Calloc 500 4 a] (mt_log t') \<and> \<not> reported whole [Calloc 500 4 a] (mt_log t')"
proof -
  let ?cs = "[(Calloc 500 4 a, True, ci)]"
  have "legal_calls (map fst ?cs) Map.empty" "list_all (\<lambda>(_, ok, _). ok) ?cs" "length ?cs < 2 ^ 30 - 2"
    "allocations1 (map fst ?cs) \<noteq> []" by (simp_all add: allocations_def)
  from legal_traced [OF this] obtain t t' blocks where
    r: "trace_run bonus_call ?cs started = Inr t" "bonus_fini t = Inr t'"
      "mt_log t' = LogStart # map (call_line \<circ> fst) ?cs @
        [LogStatistics (u64 (sum_list (allocations1 (map fst ?cs))))
         (u64 (sum_list (allocations1 (map fst ?cs))) div int (length (allocations1 (map fst ?cs))))
         (s32 (back_total1 (map fst ?cs) Map.empty)), LogNonfreedStart] @ blocks @ [LogStop]"
      "set blocks \<subseteq> {LogBlock p sz 1 f o' | p sz f o'. fold hold1 (map fst ?cs) Map.empty p = Some sz}"
      "{(p, sz). \<exists>f o'. LogBlock p sz 1 f o' \<in> set blocks} = {(p, sz). fold hold1 (map fst ?cs) Map.empty p = Some sz}"
      "length blocks = card (dom (fold hold1 (map fst ?cs) Map.empty))" by blast
  have "reported one_member [Calloc 500 4 a] (mt_log t')"
    using r(3-6) unfolding reported_def by (intro exI [of _ blocks]) simp
  moreover have "\<not> reported whole [Calloc 500 4 a] (mt_log t')"
    using r(3) by (auto simp: reported_def allocations_def whole_def u64_def)
  ultimately show ?thesis using r(1,2) by blast
qed

text \<open>C34. The tracers on a program that only frees and reallocates blocks that it holds. The bonus tracer and that
  of part 3 behave alike and pass every call on to libc as it was made. Their output is the one that the program
  should have, in the form of part 2 (the heading of the list of blocks is there also when the list is empty), as long as its
  \<^verbatim>\<open>calloc\<close>s are of one member. In general it is that output with every \<^verbatim>\<open>calloc\<close> taken for one member only, in the
  statistics and in the sizes of the blocks.\<close>

theorem legal_program_traced:
  assumes "init True True True = Inr t0" "legal_calls (map fst cs) Map.empty" "list_all (\<lambda>(_, ok, _). ok) cs"
    "length cs < 2 ^ 30 - 2" "allocations one_member (map fst cs) \<noteq> []"
  shows "\<exists>t t'. trace_run bonus_call cs t0 = Inr t \<and> trace_run part3_call cs t0 = Inr t \<and>
    bonus_fini t = Inr t' \<and> part3_fini t = Inr t' \<and> libc_log t = map (call_libc \<circ> fst) cs \<and>
    reported one_member (map fst cs) (mt_log t') \<and>
    (single_callocs (map fst cs) \<longrightarrow> reported whole (map fst cs) (mt_log t'))"
proof -
  have "t0 = started" using assms(1) by (simp add: init_started)
  moreover obtain t t' where "trace_run bonus_call cs started = Inr t" "trace_run part3_call cs started = Inr t"
    "bonus_fini t = Inr t'" "part3_fini t = Inr t'" "libc_log t = map (call_libc \<circ> fst) cs"
    "reported one_member (map fst cs) (mt_log t')"
    using legal_traced [OF assms(2-5)] unfolding reported_def map_map by blast
  ultimately show ?thesis using reported_single by blast
qed

theorem legal_program_traced_witness:
  "\<exists>t t' f o'. trace_run bonus_call (from_main (test1 64 2048 4096)) started = Inr t \<and> bonus_fini t = Inr t' \<and>
     mt_log t' = [LogStart, LogMalloc 1024 64, LogMalloc 32 2048, LogMalloc 1 4096, LogFree 4096, LogFree 2048,
       LogStatistics 1057 352 33, LogNonfreedStart, LogBlock 64 1024 1 f o', LogStop]"
proof -
  let ?cs = "from_main (test1 64 2048 4096)"
  have h: "legal_calls (map fst ?cs) Map.empty" "list_all (\<lambda>(_, ok, _). ok) ?cs" "length ?cs < 2 ^ 30 - 2"
    "single_callocs (map fst ?cs)" "allocations1 (map fst ?cs) \<noteq> []"
    by (simp_all add: test1_def allocations_def from_main_def single_callocs_def)
  have w: "allocations whole (map fst ?cs) = [1024, 32, 1]" "back_total whole (map fst ?cs) Map.empty = 33"
    "fold (hold whole) (map fst ?cs) Map.empty = [64 \<mapsto> 1024]" "map call_line (map fst ?cs) =
      [LogMalloc 1024 64, LogMalloc 32 2048, LogMalloc 1 4096, LogFree 4096, LogFree 2048]"
    by (simp_all add: test1_def allocations_def from_main_def)
  from legal_program_traced [OF init_started h(1-3,5)] h(4) obtain t t' where
    r: "trace_run bonus_call ?cs started = Inr t" "bonus_fini t = Inr t'" "reported whole (map fst ?cs) (mt_log t')" by blast
  from r(3) obtain blocks where
    b: "mt_log t' = LogStart # map call_line (map fst ?cs) @ [LogStatistics (u64 (sum_list [1024, 32, 1])) (u64 (sum_list [1024, 32, 1]) div int (length [1024, 32, 1 :: int])) (s32 33), LogNonfreedStart] @
         blocks @ [LogStop]"
      "set blocks \<subseteq> {LogBlock p sz 1 f o' | p sz f o'. [64 \<mapsto> 1024] p = Some sz}" "length blocks = card (dom [64 :: int \<mapsto> 1024 :: int])"
    unfolding reported_def w by blast
  from b(3) obtain x where x: "blocks = [x]" by (auto simp: length_Suc_conv)
  with b(2) obtain f o' where "x = LogBlock 64 1024 1 f o'" by (auto split: if_splits)
  with x b(1) r(1,2) w(4) show ?thesis by (auto simp: u64_def)
qed

end
