(* ===== verification/Callinfo.thy ===== *)
theory Callinfo
  imports Memlist
begin

text \<open>
  The call information of the tracers (\<^verbatim>\<open>get_callinfo\<close> in \<^verbatim>\<open>linklab/part3/callinfo.c\<close>, and the stub of
  \<^verbatim>\<open>linklab/part1/callinfo.c\<close>). The stack that libunwind walks is an argument: for each frame the
  procedure name and offset it reports, None where it reports none, which leaves the local variables
  \<^verbatim>\<open>name\<close> and \<^verbatim>\<open>offp\<close> as they were. What the caller's buffers hold before the call is an argument too: zeros in a new
  item, which \<^verbatim>\<open>calloc\<close> gave, and anything in the local variables of \<^verbatim>\<open>mlog\<close>.
\<close>

fun unwind :: "(string \<times> int) option list \<Rightarrow> string \<times> int \<Rightarrow> callinfo \<Rightarrow> callinfo" where
  "unwind [] cur ci = ci"
| "unwind (f # fs) cur ci =
     (let (name, offp) = (case f of None \<Rightarrow> cur | Some c \<Rightarrow> c)
      in unwind fs (name, offp) (if name = ''main'' then ci\<lparr>ci_fname := name, ci_ofs := offp\<rparr> else ci))"

definition get_callinfo :: "(string \<times> int) option list \<Rightarrow> string \<times> int \<Rightarrow> string \<times> int \<Rightarrow> callinfo" where
  "get_callinfo frames junk buffers = unwind frames junk \<lparr>ci_result = 0, ci_fname = fst buffers, ci_ofs = snd buffers\<rparr>"

definition part1_get_callinfo :: callinfo where
  "part1_get_callinfo = \<lparr>ci_result = -1, ci_fname = [], ci_ofs = 0\<rparr>"

lemma unwind_append: "unwind (map Some (fs @ [f])) cur ci =
    (if fst f = ''main'' then (unwind (map Some fs) cur ci)\<lparr>ci_fname := ''main'', ci_ofs := snd f\<rparr> else unwind (map Some fs) cur ci)"
  by (induction fs arbitrary: cur ci) (auto simp: Let_def split: prod.splits)

text \<open>The outermost frame of \<^verbatim>\<open>main\<close> is what a block is attributed to, whatever function allocated it. Without a frame of
  \<^verbatim>\<open>main\<close> the buffers stay as they are: \<^verbatim>\<open>mlog\<close> then prints its uninitialized variables.\<close>

lemma get_callinfo_no_main:
  assumes "''main'' \<notin> fst ` set fs"
  shows "get_callinfo (map Some fs) junk buffers = \<lparr>ci_result = 0, ci_fname = fst buffers, ci_ofs = snd buffers\<rparr>"
  using assms
proof (induction fs rule: rev_induct)
  case (snoc f fs)
  then show ?case using unwind_append [of fs f junk] by (auto simp: get_callinfo_def)
qed (simp add: get_callinfo_def)


lemma get_callinfo_main:
  assumes "''main'' \<notin> fst ` set outer"
  shows "get_callinfo (map Some (inner @ (''main'', off) # outer)) junk buffers = \<lparr>ci_result = 0, ci_fname = ''main'', ci_ofs = off\<rparr>"
  using assms
proof (induction outer rule: rev_induct)
  case Nil
  have "ci_result (unwind fs cur ci) = ci_result ci" for fs cur ci
    by (induction fs cur ci rule: unwind.induct) (auto simp: Let_def split: prod.splits)
  then show ?case
    using unwind_append [of inner "(''main'', off)" junk "\<lparr>ci_result = 0, ci_fname = fst buffers, ci_ofs = snd buffers\<rparr>"]
    by (simp add: get_callinfo_def)
next
  case (snoc f outer)
  have "get_callinfo (map Some (inner @ (''main'', off) # outer @ [f])) junk buffers =
      get_callinfo (map Some (inner @ (''main'', off) # outer)) junk buffers"
    using unwind_append [of "inner @ (''main'', off) # outer" f junk] snoc.prems by (auto simp: get_callinfo_def)
  with snoc show ?case by simp
qed

text \<open>A new item of part 1 carries the placeholder name.\<close>

lemma part1_item: "new_item p sz part1_get_callinfo = \<lparr>ptr = p, item_size = sz, cnt = 1, fname = ''???'', ofs = 0\<rparr>"
  by (simp add: new_item_def part1_get_callinfo_def)

end
