(* ===== verification/Memlog.thy ===== *)
theory Memlog
  imports MemtraceLegal Callinfo
begin

text \<open>
  What the tracers write (\<^verbatim>\<open>linklab/utils/memlog.c\<close> and the macros of \<^verbatim>\<open>memlog.h\<close>): every line has the next
  number of a counter, lines about a call also the place of the call. A line is made of the macro and what
  \<^verbatim>\<open>get_callinfo\<close> says when it is printed. Texts of pointers are glibc's; \<^verbatim>\<open>free_size\<close>, an \<^verbatim>\<open>int\<close> printed with
  \<^verbatim>\<open>%lu\<close>, is taken to be extended with its sign.
\<close>

subsection \<open>Numbers\<close>

definition show_ptr :: "addr \<Rightarrow> string" where
  "show_ptr p = (if p = 0 then ''(nil)'' else ''0x'' @ show_hex (nat (u64 p)))"

definition show_unsigned :: "int \<Rightarrow> string" where
  "show_unsigned i = show_nat (nat (u64 i))"

definition show_signed :: "int \<Rightarrow> string" where
  "show_signed i = show_int (if u64 i < 2 ^ 63 then u64 i else u64 i - 2 ^ 64)"

definition zero_pad :: "nat \<Rightarrow> string \<Rightarrow> string" where
  "zero_pad w s = replicate (w - length s) CHR ''0'' @ s"

subsection \<open>One line\<close>

definition line_number :: "int \<Rightarrow> string" where
  "line_number n = ''['' @ zero_pad 4 (show_nat (nat n)) @ ''] ''"

definition call_place :: "callinfo \<Rightarrow> string" where
  "call_place ci =
     (if ci_result ci \<noteq> -1
      then pad 12 (ci_fname ci) @ '':'' @ pad_right 3 (show_hex (nat (u64 (ci_ofs ci)))) @ '': ''
      else pad 5 '' '' @ pad 10 ''(nil)'' @ '' : '')"

text \<open>The counter, whether the place is printed, the place, and the formatted text; the result has the counter, the
  line and the value that is returned, which does not count the end of the line.\<close>

definition mlog :: "int \<Rightarrow> bool \<Rightarrow> callinfo \<Rightarrow> string \<Rightarrow> int \<times> string \<times> int" where
  "mlog counter pc ci body =
     (let out = line_number counter;
          res = int (length out);
          place = (if pc then call_place ci else []);
          res = res + int (length place);
          res = res + int (length body)
      in (u32 (counter + 1), out @ place @ body @ [CHR 0x0A], res))"

subsection \<open>The macros\<close>

fun log_lines :: "log_line \<Rightarrow> (bool \<times> string) list" where
  "log_lines LogStart = [(False, ''Memory tracer started.'')]"
| "log_lines (LogMalloc sz res) = [(True, ''malloc( '' @ show_unsigned sz @ '' ) = '' @ show_ptr res)]"
| "log_lines (LogCalloc nmemb sz res) =
     [(True, ''calloc( '' @ show_unsigned nmemb @ '' , '' @ show_unsigned sz @ '' ) = '' @ show_ptr res)]"
| "log_lines (LogRealloc p sz res) =
     [(True, ''realloc( '' @ show_ptr p @ '' , '' @ show_unsigned sz @ '' ) = '' @ show_ptr res)]"
| "log_lines (LogFree p) = [(True, ''free( '' @ show_ptr p @ '' )'')]"
| "log_lines (LogStatistics alloc_total alloc_avg free_total) =
     [(False, ''''), (False, ''Statistics''),
      (False, ''  allocated_total      '' @ show_unsigned alloc_total),
      (False, ''  allocated_avg        '' @ show_unsigned alloc_avg),
      (False, ''  freed_total          '' @ show_unsigned free_total)]"
| "log_lines LogNonfreedStart =
     [(False, ''''), (False, ''Non-deallocated memory blocks''),
      (False, ''  '' @ pad_right 16 ''block'' @ ''   '' @ pad_right 8 ''size'' @ ''   '' @ pad_right 7 ''ref cnt'' @ ''   '' @
         pad_right 16 ''caller'')]"
| "log_lines (LogBlock p sz c fn off) =
     [(False, ''  '' @ pad_right 16 (show_ptr p) @ ''   '' @ pad_right 8 (show_signed sz) @ ''   '' @ pad_right 7 (show_int c) @
         ''   '' @ fn @ '':'' @ show_hex (nat (u64 off)))]"
| "log_lines LogDoubleFree = [(False, pad 10 '' '' @ ''  *** DOUBLE_FREE  *** (ignoring)'')]"
| "log_lines LogIllFree = [(False, pad 10 '' '' @ ''  *** ILLEGAL_FREE *** (ignoring)'')]"
| "log_lines LogStop = [(False, ''''), (False, ''Memory tracer stopped.'')]"

fun mlogs :: "int \<Rightarrow> callinfo \<Rightarrow> (bool \<times> string) list \<Rightarrow> int \<times> string list" where
  "mlogs counter ci [] = (counter, [])"
| "mlogs counter ci ((pc, body) # ls) =
     (let (counter, line, res) = mlog counter pc ci body;
          (counter, lines) = mlogs counter ci ls
      in (counter, line # lines))"

text \<open>The output of a run, from the counter's initial value 1.\<close>

fun log_output :: "int \<Rightarrow> (log_line \<times> callinfo) list \<Rightarrow> string list" where
  "log_output counter [] = []"
| "log_output counter ((l, ci) # ls) =
     (let (counter, lines) = mlogs counter ci (log_lines l) in lines @ log_output counter ls)"

subsection \<open>The debug dump of a list\<close>

definition dump_item :: "item \<Rightarrow> string" where
  "dump_item i =
     ''  '' @ pad_right 16 (show_ptr (ptr i)) @ ''   '' @ pad_right 8 (show_signed (item_size i)) @ ''   '' @
     pad_right 3 (show_int (cnt i)) @ ''   '' @ fname i @ '':'' @ show_hex (nat (u64 (ofs i))) @ [CHR 0x0A]"

text \<open>None is the failed assertion.\<close>

definition dump_list :: "item list option \<Rightarrow> string option" where
  "dump_list list =
     (case list of
        None \<Rightarrow> None
      | Some is \<Rightarrow>
          Some (''  '' @ pad_right 16 ''block'' @ ''   '' @ pad_right 8 ''size'' @ ''   '' @ pad_right 3 ''cnt'' @ ''   '' @
            pad_right 16 ''caller'' @ [CHR 0x0A] @ concat (map dump_item is)))"

subsection \<open>Every line is numbered\<close>

text \<open>The return value is the number of characters without the end of the line.\<close>

lemma mlog_result: "mlog counter pc ci body = (n, out, res) \<Longrightarrow> res + 1 = int (length out)"
  by (auto simp: mlog_def Let_def)

definition line_text :: "nat \<times> bool \<times> callinfo \<times> string \<Rightarrow> string" where
  "line_text = (\<lambda>(n, pc, ci, body). line_number (int n) @ (if pc then call_place ci else []) @ body @ [CHR 0x0A])"

definition flat_lines :: "(log_line \<times> callinfo) list \<Rightarrow> (bool \<times> callinfo \<times> string) list" where
  "flat_lines ls = concat (map (\<lambda>(l, ci). map (\<lambda>(pc, body). (pc, ci, body)) (log_lines l)) ls)"

lemma mlogs_lines:
  assumes "0 \<le> counter" "counter + int (length ls) < 2 ^ 32"
  shows "mlogs counter ci ls = (counter + int (length ls),
    map line_text (enumerate (nat counter) (map (\<lambda>(pc, body). (pc, ci, body)) ls)))"
  using assms
proof (induction ls arbitrary: counter)
  case (Cons l ls)
  have "u32 (counter + 1) = counter + 1" using Cons.prems by (simp add: u32_def)
  moreover have "nat (counter + 1) = Suc (nat counter)" using Cons.prems(1) by simp
  moreover obtain pc body where "l = (pc, body)" by (cases l)
  ultimately show ?case
    using Cons.IH [of "counter + 1"] Cons.prems by (simp add: mlog_def line_text_def Let_def)
qed simp

lemma log_output_lines:
  assumes "0 \<le> counter" "counter + int (length (flat_lines ls)) < 2 ^ 32"
  shows "log_output counter ls = map line_text (enumerate (nat counter) (flat_lines ls))"
  using assms
proof (induction ls arbitrary: counter)
  case (Cons x ls)
  obtain l ci where x: "x = (l, ci)" by (cases x)
  let ?k = "length (log_lines l)"
  have f: "flat_lines (x # ls) = map (\<lambda>(pc, body). (pc, ci, body)) (log_lines l) @ flat_lines ls"
    by (simp add: flat_lines_def x)
  moreover have "nat (counter + int ?k) = nat counter + ?k" using Cons.prems(1) by simp
  ultimately show ?case
    using Cons.IH [of "counter + int ?k"] Cons.prems mlogs_lines [of counter "log_lines l" ci]
    unfolding f enumerate_append_eq map_append by (simp add: x)
qed (simp add: flat_lines_def)

text \<open>The output of the bonus tracer on \<^verbatim>\<open>test2.c\<close>, line by line.\<close>

lemma test2_output:
  "log_output 1 (map (\<lambda>l. (l, ci_main))
      [LogStart, LogMalloc 1024 672, LogFree 672, LogStatistics 1024 1024 1024, LogNonfreedStart, LogStop]) =
   map (\<lambda>s. s @ [CHR 0x0A])
     [''[0001] Memory tracer started.'',
      ''[0002]         main:10 : malloc( 1024 ) = 0x2a0'',
      ''[0003]         main:10 : free( 0x2a0 )'',
      ''[0004] '',
      ''[0005] Statistics'',
      ''[0006]   allocated_total      1024'',
      ''[0007]   allocated_avg        1024'',
      ''[0008]   freed_total          1024'',
      ''[0009] '',
      ''[0010] Non-deallocated memory blocks'',
      ''[0011]   block              size       ref cnt   caller          '',
      ''[0012] '',
      ''[0013] Memory tracer stopped.'']"
  by code_simp

end
