(* ===== verification/Rio.thy ===== *)
theory Rio
  imports Prelude
begin

text \<open>
  The robust I/O package (\<^verbatim>\<open>proxylab/csapp.c\<close>, \<^verbatim>\<open>rio_t\<close> of \<^verbatim>\<open>csapp.h\<close>). What the kernel does on
  a descriptor is a list of events: chunks of input, interruptions, failures; the end of the list is
  the end of the file. A \<^verbatim>\<open>write\<close> takes part of the bytes, is interrupted or fails; when its list of
  events is used up it takes everything. The unread part of \<^verbatim>\<open>rio_buf\<close>, from \<^verbatim>\<open>rio_bufptr\<close> on and
  \<^verbatim>\<open>rio_cnt\<close> bytes long, is the string \<open>rio_unread\<close>; it is empty when \<^verbatim>\<open>rio_cnt\<close> is not positive.
\<close>

subsection \<open>The kernel\<close>

datatype read_event =
    Chunk string       \<comment> \<open>bytes that one \<^verbatim>\<open>read\<close> finds; none is an end of file\<close>
  | ReadIntr           \<comment> \<open>\<^verbatim>\<open>EINTR\<close>\<close>
  | ReadFail

datatype read_result = Got string | Interrupted | Failed

fun sys_read :: "nat \<Rightarrow> read_event list \<Rightarrow> read_result \<times> read_event list" where
  "sys_read n [] = (Got [], [])"
| "sys_read n (Chunk bs # es) = (if n < length bs then (Got (take n bs), Chunk (drop n bs) # es) else (Got bs, es))"
| "sys_read n (ReadIntr # es) = (Interrupted, es)"
| "sys_read n (ReadFail # es) = (Failed, es)"

text \<open>A \<^verbatim>\<open>write\<close> that returns 0 is \<open>WriteIntr\<close> or \<open>WriteFail\<close>, as \<^verbatim>\<open>errno\<close> says.\<close>

datatype write_event = Wrote nat | WriteIntr | WriteFail

record descriptor =
  in_events :: "read_event list"
  out_events :: "write_event list"
  written :: string

fun event_size :: "read_event \<Rightarrow> nat" where
  "event_size (Chunk bs) = Suc (length bs)"
| "event_size _ = 1"

definition input_size :: "read_event list \<Rightarrow> nat" where
  "input_size es = sum_list (map event_size es)"

lemma input_size_simps [simp]: "input_size [] = 0" "input_size (e # es) = event_size e + input_size es"
  by (simp_all add: input_size_def)

lemma sys_read_size:
  assumes "sys_read n es = (r, es')" "0 < n"
  shows "r \<noteq> Got [] \<Longrightarrow> input_size es' < input_size es"
    "r = Got bs \<Longrightarrow> bs \<noteq> [] \<Longrightarrow> length bs \<le> n \<and> input_size es' + length bs \<le> input_size es"
  using assms by (cases es; cases "hd es"; auto split: if_splits)+

subsection \<open>Unbuffered reading and writing\<close>

text \<open>The value is None for -1, else the bytes stored at \<^verbatim>\<open>usrbuf\<close>; their number is the return value.\<close>

function readn_loop :: "nat \<Rightarrow> read_event list \<Rightarrow> string option \<times> read_event list" where
  "readn_loop nleft es =
     (if nleft = 0 then (Some [], es)
      else
        let (r, es1) = sys_read nleft es in
        case r of
          Interrupted \<Rightarrow> readn_loop nleft es1
        | Failed \<Rightarrow> (None, es1)
        | Got bs \<Rightarrow>
            if bs = [] then (Some [], es1)
            else let (rest, es2) = readn_loop (nleft - length bs) es1
                 in (map_option (\<lambda>cs. bs @ cs) rest, es2))"
  by pat_completeness auto
termination
proof (relation "measure (\<lambda>(n, es). input_size es)", goal_cases)
  case (2 nleft es x r es1)
  then show ?case using sys_read_size(1) [of nleft es r es1] by simp
next
  case (3 nleft es x r es1)
  then show ?case using sys_read_size(1) [of nleft es r es1] by simp
qed simp

declare readn_loop.simps [simp del]

definition rio_readn :: "nat \<Rightarrow> descriptor \<Rightarrow> string option \<times> descriptor" where
  "rio_readn n d = (let (r, es) = readn_loop n (in_events d) in (r, d\<lparr>in_events := es\<rparr>))"

fun sys_write :: "string \<Rightarrow> descriptor \<Rightarrow> int \<times> bool \<times> descriptor" where
  "sys_write bs d =
     (case out_events d of
        [] \<Rightarrow> (int (length bs), False, d\<lparr>written := written d @ bs\<rparr>)
      | Wrote k # ws \<Rightarrow> (int (min (Suc k) (length bs)), False, d\<lparr>out_events := ws, written := written d @ take (Suc k) bs\<rparr>)
      | WriteIntr # ws \<Rightarrow> (-1, True, d\<lparr>out_events := ws\<rparr>)
      | WriteFail # ws \<Rightarrow> (-1, False, d\<lparr>out_events := ws\<rparr>))"

declare sys_write.simps [simp del]

text \<open>The flag of \<open>sys_write\<close> is \<^verbatim>\<open>errno == EINTR\<close>; the value of \<open>rio_writen\<close> is \<^verbatim>\<open>n\<close> or -1.\<close>

function writen_loop :: "string \<Rightarrow> descriptor \<Rightarrow> bool \<times> descriptor" where
  "writen_loop bs d =
     (if bs = [] then (True, d)
      else
        let (nwritten, eintr, d1) = sys_write bs d in
        if nwritten \<le> 0 then (if eintr then writen_loop bs d1 else (False, d1))
        else writen_loop (drop (nat nwritten) bs) d1)"
  by pat_completeness auto
termination
  by (relation "measure (\<lambda>(bs, d). length bs + length (out_events d))")
    (auto simp: sys_write.simps split: list.splits write_event.splits)

declare writen_loop.simps [simp del]

definition rio_writen :: "string \<Rightarrow> descriptor \<Rightarrow> int \<times> descriptor" where
  "rio_writen bs d = (let (ok, d) = writen_loop bs d in (if ok then int (length bs) else -1, d))"

subsection \<open>Buffered reading\<close>

definition RIO_BUFSIZE :: nat where "RIO_BUFSIZE = 8192"

record rio_t =
  rio_fd :: int
  rio_unread :: string

definition rio_readinitb :: "int \<Rightarrow> rio_t" where
  "rio_readinitb fd = \<lparr>rio_fd = fd, rio_unread = []\<rparr>"

text \<open>The refill loop of \<open>rio_read\<close>: None for -1, the empty string for the end of file.\<close>

function refill :: "read_event list \<Rightarrow> string option \<times> read_event list" where
  "refill es =
     (let (r, es1) = sys_read RIO_BUFSIZE es in
      case r of
        Interrupted \<Rightarrow> refill es1
      | Failed \<Rightarrow> (None, es1)
      | Got bs \<Rightarrow> (Some bs, es1))"
  by pat_completeness auto
termination
proof (relation "measure input_size", goal_cases)
  case (2 es x r es1)
  then show ?case using sys_read_size(1) [of RIO_BUFSIZE es r es1] by (simp add: RIO_BUFSIZE_def)
qed simp

declare refill.simps [simp del]

definition rio_read :: "nat \<Rightarrow> rio_t \<Rightarrow> read_event list \<Rightarrow> string option \<times> rio_t \<times> read_event list" where
  "rio_read n rp es =
     (let (buf, es) = (if rio_unread rp = [] then refill es else (Some (rio_unread rp), es)) in
      case buf of
        None \<Rightarrow> (None, rp\<lparr>rio_unread := []\<rparr>, es)
      | Some bs \<Rightarrow> (Some (take n bs), rp\<lparr>rio_unread := drop n bs\<rparr>, es))"

text \<open>\<open>EINTR\<close> never reaches the callers of \<open>rio_read\<close>, so their \<^verbatim>\<open>errno\<close> branch is the error branch.\<close>

lemma refill_size:
  "refill es = (Some bs, es') \<Longrightarrow> bs \<noteq> [] \<Longrightarrow> length bs + input_size es' \<le> input_size es"
proof (induction es rule: refill.induct)
  case (1 es)
  obtain r es1 where s: "sys_read RIO_BUFSIZE es = (r, es1)" by (cases "sys_read RIO_BUFSIZE es")
  note size = sys_read_size [OF s, unfolded RIO_BUFSIZE_def, simplified]
  show ?case
  proof (cases r)
    case (Got cs)
    with 1(2,3) s size(2) [of cs] show ?thesis by (simp add: refill.simps [of es])
  next
    case Interrupted
    with 1(1) [OF s [symmetric] refl] 1(2,3) s size(1) show ?thesis by (simp add: refill.simps [of es])
  next
    case Failed
    with 1(2) s show ?thesis by (simp add: refill.simps [of es])
  qed
qed

lemma rio_read_size:
  assumes "rio_read n rp es = (Some bs, rp', es')" "bs \<noteq> []"
  shows "length bs \<le> n \<and> length (rio_unread rp') + input_size es' + length bs \<le> length (rio_unread rp) + input_size es"
  using assms by (auto simp: rio_read_def Let_def min_def split: if_splits option.splits prod.splits dest!: refill_size)

function readnb_loop :: "nat \<Rightarrow> rio_t \<Rightarrow> read_event list \<Rightarrow> string option \<times> rio_t \<times> read_event list" where
  "readnb_loop nleft rp es =
     (if nleft = 0 then (Some [], rp, es)
      else
        let (r, rp1, es1) = rio_read nleft rp es in
        case r of
          None \<Rightarrow> (None, rp1, es1)
        | Some bs \<Rightarrow>
            if bs = [] then (Some [], rp1, es1)
            else let (rest, rp2, es2) = readnb_loop (nleft - length bs) rp1 es1
                 in (map_option (\<lambda>cs. bs @ cs) rest, rp2, es2))"
  by pat_completeness auto
termination
proof (relation "measure (\<lambda>(n, rp, es). n)", goal_cases)
  case (2 nleft rp es x r y rp1 es1 bs)
  then show ?case using rio_read_size [of nleft rp es bs rp1 es1] by (cases bs) auto
qed simp

declare readnb_loop.simps [simp del]

definition rio_readnb :: "nat \<Rightarrow> rio_t \<Rightarrow> read_event list \<Rightarrow> string option \<times> rio_t \<times> read_event list" where
  "rio_readnb n rp es = readnb_loop n rp es"

text \<open>\<open>rio_readlineb\<close>: the return value, the bytes it stores at \<^verbatim>\<open>usrbuf\<close>, and whether it ends them
  with a NUL. The loop counts \<open>n\<close> from 1 and has \<open>k\<close> rounds left.\<close>

record line_read =
  lr_value :: int
  lr_bytes :: string
  lr_nul :: bool

fun readline_loop :: "nat \<Rightarrow> int \<Rightarrow> string \<Rightarrow> rio_t \<Rightarrow> read_event list \<Rightarrow> line_read \<times> rio_t \<times> read_event list" where
  "readline_loop 0 n acc rp es = (\<lparr>lr_value = n, lr_bytes = acc, lr_nul = True\<rparr>, rp, es)"
| "readline_loop (Suc k) n acc rp es =
     (let (r, rp, es) = rio_read 1 rp es in
      case r of
        None \<Rightarrow> (\<lparr>lr_value = -1, lr_bytes = acc, lr_nul = False\<rparr>, rp, es)
      | Some [] \<Rightarrow>
          if n = 1 then (\<lparr>lr_value = 0, lr_bytes = acc, lr_nul = False\<rparr>, rp, es)
          else (\<lparr>lr_value = n, lr_bytes = acc, lr_nul = True\<rparr>, rp, es)
      | Some (c # _) \<Rightarrow>
          if c = CHR 0x0A then (\<lparr>lr_value = n, lr_bytes = acc @ [c], lr_nul = True\<rparr>, rp, es)
          else readline_loop k (n + 1) (acc @ [c]) rp es)"

definition rio_readlineb :: "rio_t \<Rightarrow> nat \<Rightarrow> read_event list \<Rightarrow> line_read \<times> rio_t \<times> read_event list" where
  "rio_readlineb rp maxlen es = readline_loop (maxlen - 1) 1 [] rp es"

end
