(* ===== verification/RioProps.thy ===== *)
theory RioProps
  imports Rio
begin

text \<open>
  The Rio functions against the stream of bytes a descriptor delivers: how \<^verbatim>\<open>read\<close> cuts the stream
  into chunks, and where it is interrupted, does not show.
\<close>

definition stream :: "read_event list \<Rightarrow> string" where
  "stream es = concat (map (\<lambda>e. case e of Chunk bs \<Rightarrow> bs | _ \<Rightarrow> []) es)"

text \<open>Input without failures, the end of file only at its end.\<close>

definition healthy :: "read_event list \<Rightarrow> bool" where
  "healthy es \<longleftrightarrow> list_all (\<lambda>e. e \<noteq> ReadFail \<and> e \<noteq> Chunk []) es"

definition pending :: "rio_t \<Rightarrow> read_event list \<Rightarrow> string" where
  "pending rp es = rio_unread rp @ stream es"

lemma stream_simps [simp]:
  "stream [] = []" "stream (Chunk bs # es) = bs @ stream es" "stream (ReadIntr # es) = stream es" "stream (ReadFail # es) = stream es"
  by (simp_all add: stream_def)

lemma healthy_simps [simp]:
  "healthy []" "healthy (e # es) \<longleftrightarrow> e \<noteq> ReadFail \<and> e \<noteq> Chunk [] \<and> healthy es"
  by (simp_all add: healthy_def)

lemma sys_read_stream:
  assumes "healthy es" "0 < n" "sys_read n es = (r, es')"
  shows "healthy es'" "r \<noteq> Failed" "r = Interrupted \<Longrightarrow> stream es' = stream es"
    "r = Got bs \<Longrightarrow> stream es = bs @ stream es' \<and> length bs \<le> n \<and> (bs = [] \<longrightarrow> stream es = [])"
  using assms by (cases es; cases "hd es"; auto split: if_splits)+

lemma readn_loop_stream:
  "healthy es \<Longrightarrow> \<exists>es'. readn_loop n es = (Some (take n (stream es)), es') \<and> healthy es' \<and> stream es' = drop n (stream es)"
proof (induction n es rule: readn_loop.induct)
  case (1 n es)
  show ?case
  proof (cases "n = 0")
    case False
    obtain r es1 where s: "sys_read n es = (r, es1)" by (cases "sys_read n es")
    have n: "0 < n" using False by simp
    note S = sys_read_stream [OF 1(3) n s]
    show ?thesis
    proof (cases r)
      case (Got bs)
      show ?thesis
      proof (cases "bs = []")
        case True
        with S Got s False show ?thesis by (subst readn_loop.simps) auto
      next
        case bs: False
        from 1(1) [OF False s [symmetric] refl Got bs] S(1) obtain es2 where
          "readn_loop (n - length bs) es1 = (Some (take (n - length bs) (stream es1)), es2)" "healthy es2"
          "stream es2 = drop (n - length bs) (stream es1)" by blast
        with S(4) [OF Got] Got s False bs show ?thesis by (subst readn_loop.simps) auto
      qed
    next
      case Interrupted
      with 1(2) [OF False s [symmetric] refl Interrupted S(1)] S(3) False s show ?thesis by (subst readn_loop.simps) auto
    qed (use S(2) in auto)
  qed (use 1 in \<open>auto simp: readn_loop.simps\<close>)
qed

lemma refill_stream:
  "healthy es \<Longrightarrow> \<exists>bs es'. refill es = (Some bs, es') \<and> healthy es' \<and> stream es = bs @ stream es' \<and> (bs = [] \<longrightarrow> stream es = [])"
proof (induction es rule: refill.induct)
  case (1 es)
  obtain r es1 where s: "sys_read RIO_BUFSIZE es = (r, es1)" by (cases "sys_read RIO_BUFSIZE es")
  have n: "0 < RIO_BUFSIZE" by (simp add: RIO_BUFSIZE_def)
  note S = sys_read_stream [OF 1(2) n s]
  show ?case
    by (cases r) (use S s 1(1) [OF s [symmetric] refl] in \<open>auto simp: refill.simps [of es]\<close>)
qed

lemma rio_read_stream:
  assumes "healthy es"
  shows "\<exists>bs rp' es'. rio_read n rp es = (Some (take n bs), rp', es') \<and> healthy es' \<and>
    pending rp es = bs @ stream es' \<and> rio_unread rp' = drop n bs \<and> (bs = [] \<longrightarrow> pending rp es = [])"
proof (cases "rio_unread rp = []")
  case True
  from refill_stream [OF assms] obtain bs es' where
    "refill es = (Some bs, es')" "healthy es'" "stream es = bs @ stream es'" "bs = [] \<longrightarrow> stream es = []" by blast
  with True show ?thesis
    by (intro exI [of _ bs] exI [of _ "rp\<lparr>rio_unread := drop n bs\<rparr>"] exI [of _ es']) (simp add: rio_read_def pending_def)
next
  case False
  with assms show ?thesis
    by (intro exI [of _ "rio_unread rp"] exI [of _ "rp\<lparr>rio_unread := drop n (rio_unread rp)\<rparr>"] exI [of _ es])
      (simp add: rio_read_def pending_def)
qed

lemma readnb_stream:
  "healthy es \<Longrightarrow> \<exists>rp' es'. readnb_loop n rp es = (Some (take n (pending rp es)), rp', es') \<and> healthy es' \<and>
     pending rp' es' = drop n (pending rp es)"
proof (induction n arbitrary: rp es rule: less_induct)
  case (less n)
  show ?case
  proof (cases "n = 0")
    case False
    from rio_read_stream [OF less.prems, of n rp] obtain bs rp1 es1 where
      r: "rio_read n rp es = (Some (take n bs), rp1, es1)" "healthy es1" "pending rp es = bs @ stream es1"
        "rio_unread rp1 = drop n bs" "bs = [] \<longrightarrow> pending rp es = []" by blast
    show ?thesis
    proof (cases "bs = []")
      case True
      with r False show ?thesis by (subst readnb_loop.simps) (auto simp: pending_def)
    next
      case bs: False
      have lt: "n - length (take n bs) < n" using bs False by (cases bs) auto
      have p1: "pending rp1 es1 = drop (length (take n bs)) (pending rp es)" using r by (auto simp: pending_def min_def)
      from less.IH [OF lt r(2), of rp1] obtain rp2 es2 where
        i: "readnb_loop (n - length (take n bs)) rp1 es1 = (Some (take (n - length (take n bs)) (pending rp1 es1)), rp2, es2)"
          "healthy es2" "pending rp2 es2 = drop (n - length (take n bs)) (pending rp1 es1)" by blast
      have "take n (pending rp es) = take n bs @ take (n - length (take n bs)) (pending rp1 es1)"
        unfolding p1 r(3) by (auto simp: min_def)
      moreover have "drop (n - length (take n bs)) (pending rp1 es1) = drop n (pending rp es)"
        unfolding p1 by (simp add: min_def)
      ultimately show ?thesis using i r(1) bs False by (subst readnb_loop.simps) auto
    qed
  qed (use less.prems in \<open>auto simp: readnb_loop.simps\<close>)
qed

text \<open>C36. On healthy input \<^verbatim>\<open>rio_readn\<close> and \<^verbatim>\<open>rio_readnb\<close> store the next \<open>n\<close> bytes of the stream, fewer
  only at its end, and leave exactly the rest to later reads, whatever the sizes in which the
  kernel delivers the stream and however often it interrupts.\<close>

theorem rio_reads_stream:
  assumes "healthy es" "healthy (in_events d)"
  shows "(\<exists>d'. rio_readn n d = (Some (take n (stream (in_events d))), d') \<and> healthy (in_events d') \<and>
      stream (in_events d') = drop n (stream (in_events d))) \<and>
    (\<exists>rp' es'. rio_readnb n rp es = (Some (take n (pending rp es)), rp', es') \<and> healthy es' \<and>
      pending rp' es' = drop n (pending rp es))"
proof
  from readn_loop_stream [OF assms(2), of n] obtain es' where
    "readn_loop n (in_events d) = (Some (take n (stream (in_events d))), es')" "healthy es'"
    "stream es' = drop n (stream (in_events d))" by blast
  then show "\<exists>d'. rio_readn n d = (Some (take n (stream (in_events d))), d') \<and> healthy (in_events d') \<and>
      stream (in_events d') = drop n (stream (in_events d))"
    by (auto simp: rio_readn_def)
qed (use readnb_stream [OF assms(1), of n rp] in \<open>simp add: rio_readnb_def\<close>)

definition sample_input :: "read_event list" where
  "sample_input = [Chunk ''ab'', ReadIntr, Chunk (''c'' @ [CHR 0x0A] @ ''de'')]"

lemma sample_healthy: "healthy sample_input"
  by (simp add: sample_input_def)

theorem rio_reads_stream_witness:
  "\<exists>rp' es'. rio_readnb 3 (rio_readinitb 0) sample_input = (Some ''abc'', rp', es') \<and> pending rp' es' = CHR 0x0A # ''de''"
  using rio_reads_stream [OF sample_healthy, of "\<lparr>in_events = [], out_events = [], written = []\<rparr>" 3 "rio_readinitb 0"]
  by (auto simp: pending_def rio_readinitb_def sample_input_def)

subsection \<open>Lines\<close>

text \<open>At most \<open>k\<close> bytes, up to and with the first newline.\<close>

fun line_of :: "nat \<Rightarrow> string \<Rightarrow> string" where
  "line_of 0 cs = []"
| "line_of (Suc k) [] = []"
| "line_of (Suc k) (c # cs) = (if c = CHR 0x0A then [c] else c # line_of k cs)"

definition ended :: "string \<Rightarrow> bool" where
  "ended l \<longleftrightarrow> l \<noteq> [] \<and> last l = CHR 0x0A"

lemma line_of_prefix: "line_of k cs = take (length (line_of k cs)) cs"
  by (induction k cs rule: line_of.induct) auto

lemma line_of_length: "length (line_of k cs) \<le> k"
  by (induction k cs rule: line_of.induct) auto

lemma line_of_empty [simp]: "line_of k cs = [] \<longleftrightarrow> k = 0 \<or> cs = []"
  by (cases "(k, cs)" rule: line_of.cases) auto

lemma line_of_Nil [simp]: "line_of k [] = []"
  by simp

lemma ended_Cons: "ended (c # l) \<longleftrightarrow> (if l = [] then c = CHR 0x0A else ended l)"
  by (simp add: ended_def)

lemma rio_read_1:
  assumes "healthy es"
  shows "\<exists>rp' es'. rio_read 1 rp es = (Some (take 1 (pending rp es)), rp', es') \<and> healthy es' \<and>
    pending rp' es' = drop 1 (pending rp es)"
proof -
  from rio_read_stream [OF assms, of 1 rp] obtain bs rp' es' where
    r: "rio_read 1 rp es = (Some (take 1 bs), rp', es')" "healthy es'" "pending rp es = bs @ stream es'"
      "rio_unread rp' = drop 1 bs" "bs = [] \<longrightarrow> pending rp es = []" by blast
  have "take 1 bs = take 1 (pending rp es)" using r(3,5) by (cases bs) auto
  moreover have "pending rp' es' = drop 1 (pending rp es)" using r(3-5) by (cases bs) (auto simp: pending_def)
  ultimately show ?thesis using r(1,2) by auto
qed

text \<open>The result of \<open>rio_readlineb\<close> on the stream \<open>data\<close>, with \<open>k\<close> rounds left and \<open>n\<close> counted.\<close>

definition line_result :: "nat \<Rightarrow> int \<Rightarrow> string \<Rightarrow> string \<Rightarrow> line_read" where
  "line_result k n acc data =
     (if k \<noteq> 0 \<and> data = [] \<and> n = 1 then \<lparr>lr_value = 0, lr_bytes = acc, lr_nul = False\<rparr>
      else \<lparr>lr_value = n + int (length (line_of k data)) - of_bool (ended (line_of k data)),
             lr_bytes = acc @ line_of k data, lr_nul = True\<rparr>)"

lemma readline_loop_stream:
  "healthy es \<Longrightarrow> 1 \<le> n \<Longrightarrow> \<exists>rp' es'. readline_loop k n acc rp es = (line_result k n acc (pending rp es), rp', es') \<and> healthy es' \<and>
     pending rp' es' = drop (length (line_of k (pending rp es))) (pending rp es)"
proof (induction k arbitrary: n acc rp es)
  case 0
  then show ?case by (simp add: line_result_def ended_def)
next
  case (Suc k)
  from rio_read_1 [OF Suc.prems(1), of rp] obtain rp1 es1 where
    r: "rio_read 1 rp es = (Some (take 1 (pending rp es)), rp1, es1)" "healthy es1" "pending rp1 es1 = drop 1 (pending rp es)" by blast
  show ?case
  proof (cases "pending rp es")
    case Nil
    with r show ?thesis by (auto simp: line_result_def ended_def)
  next
    case (Cons c cs)
    show ?thesis
    proof (cases "c = CHR 0x0A")
      case True
      with r Cons show ?thesis by (auto simp: line_result_def ended_def)
    next
      case False
      have "1 \<le> n + 1" using Suc.prems(2) by simp
      from Suc.IH [OF r(2) this, of "acc @ [c]" rp1] obtain rp' es' where
        i: "readline_loop k (n + 1) (acc @ [c]) rp1 es1 = (line_result k (n + 1) (acc @ [c]) (pending rp1 es1), rp', es')"
          "healthy es'" "pending rp' es' = drop (length (line_of k (pending rp1 es1))) (pending rp1 es1)" by blast
      have "line_result (Suc k) n acc (pending rp es) = line_result k (n + 1) (acc @ [c]) (pending rp1 es1)"
        using False Suc.prems(2) Cons r(3) by (auto simp: line_result_def ended_Cons ended_def)
      with i r Cons False show ?thesis by auto
    qed
  qed
qed

lemma readlineb_line:
  assumes "healthy es" "1 < maxlen"
  shows "\<exists>r rp' es'. rio_readlineb rp maxlen es = (r, rp', es') \<and> healthy es' \<and>
    lr_bytes r = line_of (maxlen - 1) (pending rp es) \<and>
    pending rp' es' = drop (length (lr_bytes r)) (pending rp es) \<and>
    lr_value r = (if pending rp es = [] then 0 else if ended (lr_bytes r) then int (length (lr_bytes r))
      else int (length (lr_bytes r)) + 1) \<and>
    lr_nul r = (pending rp es \<noteq> [])"
proof -
  from readline_loop_stream [OF assms(1), of 1 "maxlen - 1" "[]" rp] obtain rp' es' where
    r: "rio_readlineb rp maxlen es = (line_result (maxlen - 1) 1 [] (pending rp es), rp', es')" "healthy es'"
      "pending rp' es' = drop (length (line_of (maxlen - 1) (pending rp es))) (pending rp es)"
    by (auto simp: rio_readlineb_def)
  have k: "maxlen - 1 \<noteq> 0" using assms(2) by simp
  have b: "lr_bytes (line_result (maxlen - 1) 1 [] (pending rp es)) = line_of (maxlen - 1) (pending rp es)"
    by (simp add: line_result_def)
  show ?thesis
    by (intro exI [of _ "line_result (maxlen - 1) 1 [] (pending rp es)"] exI [of _ rp'] exI [of _ es'])
      (use r k b in \<open>auto simp: line_result_def\<close>)
qed

text \<open>C35. On healthy input \<^verbatim>\<open>rio_readlineb\<close> stores the next line of the stream, cut after \<open>maxlen - 1\<close>
  bytes, and leaves the rest. It returns 0 at the end of the stream and the number of bytes stored
  when they end in a newline; for a line cut by \<open>maxlen\<close> or by the end of the stream it returns one
  more than it stored.\<close>

theorem rio_readlineb_line:
  assumes "healthy es" "1 < maxlen"
  shows "\<exists>r rp' es'. rio_readlineb rp maxlen es = (r, rp', es') \<and> healthy es' \<and>
    lr_bytes r = line_of (maxlen - 1) (pending rp es) \<and>
    pending rp' es' = drop (length (lr_bytes r)) (pending rp es) \<and>
    lr_value r = (if pending rp es = [] then 0 else if ended (lr_bytes r) then int (length (lr_bytes r))
      else int (length (lr_bytes r)) + 1) \<and>
    lr_nul r = (pending rp es \<noteq> [])"
  using assms by (rule readlineb_line)

theorem rio_readlineb_line_witness:
  "(\<exists>r rp' es'. rio_readlineb (rio_readinitb 0) 8192 sample_input = (r, rp', es') \<and>
      lr_bytes r = ''abc'' @ [CHR 0x0A] \<and> lr_value r = 4) \<and>
   (\<exists>r rp' es'. rio_readlineb (rio_readinitb 0) 3 sample_input = (r, rp', es') \<and> lr_bytes r = ''ab'' \<and> lr_value r = 3)"
proof -
  let ?rp = "rio_readinitb 0"
  have p: "pending ?rp sample_input = ''abc'' @ CHR 0x0A # ''de''"
    by (simp add: pending_def rio_readinitb_def sample_input_def)
  have l: "line_of (8192 - 1) (pending ?rp sample_input) = ''abc'' @ [CHR 0x0A]" "line_of (3 - 1) (pending ?rp sample_input) = ''ab''"
    unfolding p by (simp_all add: eval_nat_numeral)
  from rio_readlineb_line [OF sample_healthy, of 8192 ?rp] rio_readlineb_line [OF sample_healthy, of 3 ?rp]
  show ?thesis unfolding l by (fastforce simp: p ended_def)
qed

subsection \<open>Writing\<close>

lemma writen_loop_prefix:
  "\<exists>k \<le> length bs. written (snd (writen_loop bs d)) = written d @ take k bs \<and>
     (fst (writen_loop bs d) \<longrightarrow> k = length bs) \<and> (\<not> fst (writen_loop bs d) \<longrightarrow> WriteFail \<in> set (out_events d))"
proof (induction bs d rule: writen_loop.induct)
  case (1 bs d)
  show ?case
  proof (cases "bs = []")
    case False
    show ?thesis
    proof (cases "out_events d")
      case Nil
      with False show ?thesis by (simp add: writen_loop.simps sys_write.simps)
    next
      case (Cons w ws)
      show ?thesis
      proof (cases w)
        case (Wrote j)
        let ?d = "d\<lparr>out_events := ws, written := written d @ take (Suc j) bs\<rparr>"
        let ?m = "min (Suc j) (length bs)"
        have w: "sys_write bs d = (int ?m, False, ?d)" using Cons Wrote by (simp add: sys_write.simps)
        have pos: "\<not> int ?m \<le> 0" using False by (cases bs) auto
        have step: "writen_loop bs d = writen_loop (drop ?m bs) ?d" using w pos False by (subst writen_loop.simps) (auto simp: min_def)
        from 1(2) [OF False w [symmetric] refl refl pos] obtain k where
          k: "k \<le> length (drop ?m bs)" "written (snd (writen_loop (drop ?m bs) ?d)) = written ?d @ take k (drop ?m bs)"
            "fst (writen_loop (drop ?m bs) ?d) \<longrightarrow> k = length (drop ?m bs)"
            "\<not> fst (writen_loop (drop ?m bs) ?d) \<longrightarrow> WriteFail \<in> set (out_events ?d)"
          by auto
        have "take (Suc j) bs @ take k (drop ?m bs) = take (?m + k) bs"
          by (cases "Suc j \<le> length bs") (simp_all add: take_add [of "Suc j" k bs, symmetric, simplified] min_def)
        with k step Cons show ?thesis by (intro exI [of _ "?m + k"]) auto
      next
        case WriteIntr
        let ?d = "d\<lparr>out_events := ws\<rparr>"
        have w: "sys_write bs d = (-1, True, ?d)" using Cons WriteIntr by (simp add: sys_write.simps)
        then have step: "writen_loop bs d = writen_loop bs ?d" using False by (subst writen_loop.simps) simp
        from 1(1) [OF False w [symmetric] refl refl] step Cons show ?thesis by auto
      next
        case WriteFail
        with Cons False show ?thesis by (intro exI [of _ 0]) (simp add: writen_loop.simps sys_write.simps)
      qed
    qed
  qed (simp add: writen_loop.simps)
qed

text \<open>C37. \<^verbatim>\<open>rio_writen\<close> writes all its bytes and returns their number, or it returns -1 after a \<^verbatim>\<open>write\<close>
  failed, with a prefix written; short writes and interruptions do not show.\<close>

theorem rio_writen_all_or_failed:
  "\<exists>k \<le> length bs. written (snd (rio_writen bs d)) = written d @ take k bs \<and>
     (fst (rio_writen bs d) = int (length bs) \<and> k = length bs \<or>
      fst (rio_writen bs d) = -1 \<and> WriteFail \<in> set (out_events d))"
proof -
  from writen_loop_prefix [of bs d] obtain k where
    "k \<le> length bs" "written (snd (writen_loop bs d)) = written d @ take k bs"
    "fst (writen_loop bs d) \<longrightarrow> k = length bs" "\<not> fst (writen_loop bs d) \<longrightarrow> WriteFail \<in> set (out_events d)" by blast
  then show ?thesis by (cases "writen_loop bs d"; cases "fst (writen_loop bs d)") (auto simp: rio_writen_def)
qed

end
