(* ===== verification/Echo.thy ===== *)
theory Echo
  imports RioProps
begin

text \<open>
  The echo server's connection handler (\<^verbatim>\<open>proxylab/echo.c\<close>, called by the threads of
  \<^verbatim>\<open>echoservert.c\<close>) over the Rio functions. A local array is a string of its bytes, of which the
  first ones are overwritten; what it holds at first is an argument. A failed read or write ends the
  program, as the wrappers \<^verbatim>\<open>Rio_readlineb\<close> and \<^verbatim>\<open>Rio_writen\<close> of \<^verbatim>\<open>csapp.c\<close> do.
\<close>

abbreviation NUL :: char where "NUL \<equiv> CHR 0x00"
abbreviation newline :: char where "newline \<equiv> CHR 0x0A"

definition MAXLINE :: nat where "MAXLINE = 8192"

datatype io_stop = ReadError | WriteError | BufferOverflow | ConnectError

text \<open>\<^verbatim>\<open>buf\<close> after a call of \<open>rio_readlineb\<close>, and a C string in it.\<close>

definition store_line :: "line_read \<Rightarrow> string \<Rightarrow> string" where
  "store_line r buf =
     (let new = lr_bytes r @ (if lr_nul r then [NUL] else []) in new @ drop (length new) buf)"

definition c_string :: "string \<Rightarrow> string" where
  "c_string buf = takeWhile (\<lambda>c. c \<noteq> NUL) buf"

text \<open>A string argument of libc: without a NUL in the array the read leaves it.\<close>

definition c_str :: "string \<Rightarrow> io_stop + string" where
  "c_str buf = (if NUL \<in> set buf then Inr (c_string buf) else Inl BufferOverflow)"

definition Rio_readlineb :: "rio_t \<Rightarrow> nat \<Rightarrow> read_event list \<Rightarrow> io_stop + (line_read \<times> rio_t \<times> read_event list)" where
  "Rio_readlineb rp maxlen es =
     (let (r, rp, es) = rio_readlineb rp maxlen es in if lr_value r < 0 then Inl ReadError else Inr (r, rp, es))"

definition Rio_readn :: "nat \<Rightarrow> descriptor \<Rightarrow> io_stop + (string \<times> descriptor)" where
  "Rio_readn n d = (case rio_readn n d of (None, d) \<Rightarrow> Inl ReadError | (Some bs, d) \<Rightarrow> Inr (bs, d))"

definition Rio_readinitb :: "int \<Rightarrow> rio_t" where
  "Rio_readinitb fd = rio_readinitb fd"

definition Rio_readnb :: "rio_t \<Rightarrow> nat \<Rightarrow> read_event list \<Rightarrow> io_stop + (string \<times> rio_t \<times> read_event list)" where
  "Rio_readnb rp n es =
     (case rio_readnb n rp es of (None, _) \<Rightarrow> Inl ReadError | (Some bs, rp, es) \<Rightarrow> Inr (bs, rp, es))"

definition Rio_writen :: "string \<Rightarrow> descriptor \<Rightarrow> io_stop + descriptor" where
  "Rio_writen bs d = (let (n, d) = rio_writen bs d in if n \<noteq> int (length bs) then Inl WriteError else Inr d)"

text \<open>libc's \<^verbatim>\<open>toupper\<close> in the C locale.\<close>

definition toupper :: "char \<Rightarrow> char" where
  "toupper c = (if 97 \<le> (of_char c :: nat) \<and> (of_char c :: nat) \<le> 122 then char_of (of_char c - 32 :: nat) else c)"

fun upper_case :: "string \<Rightarrow> string" where
  "upper_case [] = []"
| "upper_case (c # cs) = (if c = NUL then c # cs else toupper c # upper_case cs)"

lemma upper_case_length [simp]: "length (upper_case cs) = length cs"
  by (induction cs) auto

subsection \<open>A line read is progress\<close>

lemma refill_mono: "refill es = (r, es') \<Longrightarrow> input_size es' \<le> input_size es"
proof (induction es rule: refill.induct)
  case (1 es)
  obtain q es1 where s: "sys_read RIO_BUFSIZE es = (q, es1)" by (cases "sys_read RIO_BUFSIZE es")
  have le: "input_size es1 \<le> input_size es" using s by (cases es; cases "hd es") (auto split: if_splits)
  show ?case
    by (cases q) (use 1 le s in \<open>force simp: refill.simps [of es]\<close>)+
qed

lemma refill_total: "refill es = (Some bs, es') \<Longrightarrow> length bs + input_size es' \<le> input_size es"
  using refill_size [of es bs es'] refill_mono [of es "Some bs" es'] by (cases "bs = []") auto

lemma rio_read_mono:
  assumes "rio_read n rp es = (r, rp', es')"
  shows "(case r of None \<Rightarrow> 0 | Some bs \<Rightarrow> length bs) + length (rio_unread rp') + input_size es' \<le> length (rio_unread rp) + input_size es"
  using assms
  by (auto simp: rio_read_def Let_def min_def split: if_splits option.splits prod.splits dest!: refill_mono refill_total)

lemma readline_loop_size:
  "readline_loop k n acc rp es = (r, rp', es') \<Longrightarrow>
   length (lr_bytes r) + length (rio_unread rp') + input_size es' \<le> length acc + length (rio_unread rp) + input_size es \<and>
   length acc \<le> length (lr_bytes r)"
proof (induction k n acc rp es rule: readline_loop.induct)
  case (2 k n acc rp es)
  obtain q rp1 es1 where q: "rio_read 1 rp es = (q, rp1, es1)" by (cases "rio_read 1 rp es")
  note m = rio_read_mono [OF q]
  show ?case
  proof (cases "\<exists>c cs. q = Some (c # cs) \<and> c \<noteq> newline")
    case True
    then obtain c cs where c: "q = Some (c # cs)" "c \<noteq> newline" by blast
    with 2(2) q have "readline_loop k (n + 1) (acc @ [c]) rp1 es1 = (r, rp', es')" by simp
    from 2(1) [OF q [symmetric] refl refl c(1) refl c(2) this] m c(1) show ?thesis by simp
  next
    case False
    with 2(2) q m show ?thesis by (auto split: option.splits list.splits if_splits)
  qed
qed auto

lemma readline_progress:
  assumes "rio_readlineb rp maxlen es = (r, rp', es')" "1 < maxlen" "0 < lr_value r"
  shows "length (rio_unread rp') + input_size es' < length (rio_unread rp) + input_size es" "lr_bytes r \<noteq> []"
proof -
  obtain k where k: "maxlen - 1 = Suc k" using assms(2) by (cases "maxlen - 1") auto
  obtain q rp1 es1 where q: "rio_read 1 rp es = (q, rp1, es1)" by (cases "rio_read 1 rp es")
  have line: "readline_loop (Suc k) 1 [] rp es = (r, rp', es')" using assms(1) k by (simp add: rio_readlineb_def)
  show ne: "lr_bytes r \<noteq> []"
  proof (cases "\<exists>c cs. q = Some (c # cs) \<and> c \<noteq> newline")
    case True
    then obtain c cs where c: "q = Some (c # cs)" "c \<noteq> newline" by blast
    with line q have "readline_loop k 2 [c] rp1 es1 = (r, rp', es')" by simp
    from readline_loop_size [OF this] show ?thesis by auto
  next
    case False
    with line q assms(3) show ?thesis by (auto split: option.splits list.splits if_splits)
  qed
  then have "0 < length (lr_bytes r)" by simp
  then show "length (rio_unread rp') + input_size es' < length (rio_unread rp) + input_size es"
    using conjunct1 [OF readline_loop_size [OF line]] by (simp only: list.size)
qed

subsection \<open>The handler\<close>

text \<open>The loop's state: the connection, the global \<open>bytecnt\<close> and \<^verbatim>\<open>buf\<close>. Its \<^verbatim>\<open>printf\<close>s report
  \<open>(n, bytecnt)\<close>.\<close>

record echo_state =
  e_conn :: descriptor
  e_bytecnt :: int
  e_out :: "(int \<times> int) list"

function echo_loop :: "rio_t \<Rightarrow> string \<Rightarrow> echo_state \<Rightarrow> io_stop + echo_state" where
  "echo_loop rp buf s =
     and_then (Rio_readlineb rp MAXLINE (in_events (e_conn s))) (\<lambda>(r, rp1, es1).
       let s = s\<lparr>e_conn := (e_conn s)\<lparr>in_events := es1\<rparr>\<rparr>;
           buf = store_line r buf;
           n = lr_value r
       in if n = 0 then Inr s
          else
            let cnt = s32 (e_bytecnt s + n);
                buf = upper_case buf
            in and_then (Rio_writen (take (nat n) buf) (e_conn s)) (\<lambda>d.
                 echo_loop rp1 buf (s\<lparr>e_bytecnt := cnt, e_out := e_out s @ [(n, cnt)], e_conn := d\<rparr>)))"
  by pat_completeness auto

lemma writen_in_events: "in_events (snd (writen_loop bs d)) = in_events d"
proof (induction bs d rule: writen_loop.induct)
  case (1 bs d)
  show ?case
  proof (cases "bs = []")
    case False
    obtain n e d1 where w: "sys_write bs d = (n, e, d1)" by (cases "sys_write bs d")
    then have same: "in_events d1 = in_events d"
      by (auto simp: sys_write.simps split: list.splits write_event.splits)
    from 1(1,2) [OF False w [symmetric] refl refl] same w False show ?thesis
      by (subst writen_loop.simps) (auto simp: Let_def)
  qed (simp add: writen_loop.simps)
qed

lemma Rio_writen_in_events: "Rio_writen bs d = Inr d' \<Longrightarrow> in_events d' = in_events d"
  using writen_in_events [of bs d] by (auto simp: Rio_writen_def rio_writen_def Let_def split: prod.splits if_splits)

lemma Rio_readlineb_progress:
  assumes "Rio_readlineb rp MAXLINE es = Inr (r, rp', es')" "lr_value r \<noteq> 0"
  shows "length (rio_unread rp') + input_size es' < length (rio_unread rp) + input_size es"
proof -
  have "rio_readlineb rp MAXLINE es = (r, rp', es')" "0 < lr_value r"
    using assms by (auto simp: Rio_readlineb_def Let_def split: prod.splits if_splits)
  moreover have "1 < MAXLINE" unfolding MAXLINE_def by simp
  ultimately show ?thesis by (intro readline_progress(1))
qed

termination echo_loop
  by (relation "measure (\<lambda>(rp, buf, s). length (rio_unread rp) + input_size (in_events (e_conn s)))")
    (auto dest!: Rio_writen_in_events intro: Rio_readlineb_progress)

declare echo_loop.simps [simp del]

definition echo :: "string \<Rightarrow> echo_state \<Rightarrow> io_stop + echo_state" where
  "echo buf s = echo_loop (rio_readinitb 0) buf s"

end
