(* ===== verification/EchoProps.thy ===== *)
theory EchoProps
  imports Echo
begin

text \<open>
  What a client of the echo server gets back: its text in upper case, whatever way the connection cuts
  it into chunks and interrupts the reads and writes.
\<close>

subsection \<open>What the client gets back\<close>

text \<open>Lines of text: no NUL inside, and short enough for the buffer.\<close>

definition plain :: "string \<Rightarrow> bool" where
  "plain l \<longleftrightarrow> list_all (\<lambda>c. c \<noteq> NUL \<and> c \<noteq> newline) l"

definition text_of :: "string list \<Rightarrow> string" where
  "text_of ls = concat (map (\<lambda>l. l @ [newline]) ls)"

lemma line_of_plain: "plain l \<Longrightarrow> length l < k \<Longrightarrow> line_of k (l @ newline # cs) = l @ [newline]"
proof (induction l arbitrary: k)
  case (Cons c l)
  then show ?case by (cases k) (auto simp: plain_def)
qed (auto simp: gr0_conv_Suc)

lemma line_of_tail: "plain l \<Longrightarrow> length l \<le> k \<Longrightarrow> line_of k l = l"
proof (induction l arbitrary: k)
  case (Cons c l)
  then show ?case by (cases k) (auto simp: plain_def)
qed simp

lemma upper_case_plain: "list_all (\<lambda>c. c \<noteq> NUL) l \<Longrightarrow> upper_case (l @ NUL # cs) = map toupper l @ NUL # cs"
  by (induction l) auto

lemma writen_out_events: "set (out_events (snd (writen_loop bs d))) \<subseteq> set (out_events d)"
proof (induction bs d rule: writen_loop.induct)
  case (1 bs d)
  show ?case
  proof (cases "bs = []")
    case False
    obtain n e d1 where w: "sys_write bs d = (n, e, d1)" by (cases "sys_write bs d")
    then have "set (out_events d1) \<subseteq> set (out_events d)"
      by (auto simp: sys_write.simps split: list.splits write_event.splits)
    with 1(1,2) [OF False w [symmetric] refl refl] w False show ?thesis
      by (subst writen_loop.simps) (auto simp: Let_def)
  qed (simp add: writen_loop.simps)
qed

lemma writes_all:
  assumes "WriteFail \<notin> set (out_events d)"
  obtains d' where "Rio_writen bs d = Inr d'" "written d' = written d @ bs" "in_events d' = in_events d"
    "WriteFail \<notin> set (out_events d')"
proof -
  obtain ok d' where w: "writen_loop bs d = (ok, d')" by (cases "writen_loop bs d")
  from writen_loop_prefix [of bs d] assms w have "ok" "written d' = written d @ bs" by auto
  moreover have "in_events d' = in_events d" "WriteFail \<notin> set (out_events d')"
    using writen_in_events [of bs d] writen_out_events [of bs d] assms w by auto
  ultimately show thesis using w by (intro that [of d']) (auto simp: Rio_writen_def rio_writen_def)
qed

lemma s32_add: "s32 (s32 a + b) = s32 (a + b)"
  by (simp add: s32_def mod_simps algebra_simps)

lemma toupper_newline [simp]: "toupper newline = newline"
  by (simp add: toupper_def)

text \<open>One round on the next line \<open>l\<close> of the stream.\<close>

lemma echo_round:
  assumes h: "healthy (in_events (e_conn s))" and ok: "WriteFail \<notin> set (out_events (e_conn s))"
    and data: "pending rp (in_events (e_conn s)) = data" "data \<noteq> []"
    and l: "line_of (MAXLINE - 1) data = l" "list_all (\<lambda>c. c \<noteq> NUL) l"
  defines "bs \<equiv> map toupper l @ (if ended l then [] else [NUL])"
  obtains rp' buf' s' where "echo_loop rp buf s = echo_loop rp' buf' s'" "healthy (in_events (e_conn s'))"
    "WriteFail \<notin> set (out_events (e_conn s'))" "pending rp' (in_events (e_conn s')) = drop (length l) data"
    "written (e_conn s') = written (e_conn s) @ bs" "e_bytecnt s' = s32 (e_bytecnt s + int (length bs))"
proof -
  have max: "1 < MAXLINE" unfolding MAXLINE_def by simp
  from readlineb_line [OF h max, of rp] data l obtain r rp' es' where
    r: "rio_readlineb rp MAXLINE (in_events (e_conn s)) = (r, rp', es')" "healthy es'" "lr_bytes r = l"
      "pending rp' es' = drop (length l) data" "lr_value r = (if ended l then int (length l) else int (length l) + 1)" "lr_nul r"
    by auto
  have ne: "l \<noteq> []" using l(1) data(2) max by auto
  let ?buf = "upper_case (store_line r buf)" and ?n = "lr_value r"
  have buf: "?buf = map toupper l @ NUL # drop (Suc (length l)) buf"
    using r(3,6) upper_case_plain [OF l(2)] by (simp add: store_line_def)
  have bytes: "take (nat ?n) ?buf = bs" "?n = int (length bs)" "?n \<noteq> 0"
    using r(5) ne by (auto simp: buf bs_def nat_add_distrib ended_def)
  let ?d = "(e_conn s)\<lparr>in_events := es'\<rparr>"
  from writes_all [of ?d bs] ok obtain d' where
    w: "Rio_writen bs ?d = Inr d'" "written d' = written (e_conn s) @ bs" "in_events d' = es'" "WriteFail \<notin> set (out_events d')"
    by auto
  have "Rio_readlineb rp MAXLINE (in_events (e_conn s)) = Inr (r, rp', es')"
    using r(1) bytes(2) by (simp add: Rio_readlineb_def)
  then have "echo_loop rp buf s = echo_loop rp' ?buf
      (s\<lparr>e_bytecnt := s32 (e_bytecnt s + ?n), e_out := e_out s @ [(?n, s32 (e_bytecnt s + ?n))], e_conn := d'\<rparr>)"
    (is "_ = echo_loop rp' ?buf ?s'")
    using w(1) bytes by (subst echo_loop.simps) (simp add: Let_def)
  moreover have "in_events (e_conn ?s') = es'" "out_events (e_conn ?s') = out_events d'" "written (e_conn ?s') = written (e_conn s) @ bs"
    "e_bytecnt ?s' = s32 (e_bytecnt s + int (length bs))"
    using w(2,3) bytes(2) by simp_all
  ultimately show thesis using r(2,4) w(4) by (intro that [of rp' ?buf ?s']) simp_all
qed

lemma echo_end:
  assumes h: "healthy (in_events (e_conn s))" and data: "pending rp (in_events (e_conn s)) = []"
  shows "\<exists>s'. echo_loop rp buf s = Inr s' \<and> written (e_conn s') = written (e_conn s) \<and> e_bytecnt s' = e_bytecnt s"
proof -
  have max: "1 < MAXLINE" unfolding MAXLINE_def by simp
  from readlineb_line [OF h max, of rp] data obtain r rp' es' where
    "rio_readlineb rp MAXLINE (in_events (e_conn s)) = (r, rp', es')" "lr_value r = 0" by auto
  then show ?thesis by (subst echo_loop.simps) (simp add: Rio_readlineb_def Let_def)
qed

definition ok_line :: "string \<Rightarrow> bool" where
  "ok_line l \<longleftrightarrow> plain l \<and> length l < MAXLINE - 1"

lemma ok_lineD:
  assumes "ok_line l"
  shows "line_of (MAXLINE - 1) (l @ newline # cs) = l @ [newline]" "line_of (MAXLINE - 1) l = l"
    "list_all (\<lambda>c. c \<noteq> NUL) l" "list_all (\<lambda>c. c \<noteq> NUL) (l @ [newline])" "\<not> ended l" "ended (l @ [newline])"
proof -
  have p: "plain l" "length l < MAXLINE - 1" using assms by (simp_all add: ok_line_def)
  show "line_of (MAXLINE - 1) (l @ newline # cs) = l @ [newline]" using p by (rule line_of_plain)
  show "line_of (MAXLINE - 1) l = l" using p line_of_tail [of l "MAXLINE - 1"] by simp
  show n: "list_all (\<lambda>c. c \<noteq> NUL) l" using p(1) by (auto simp: plain_def list_all_iff)
  show "list_all (\<lambda>c. c \<noteq> NUL) (l @ [newline])" using n by simp
  have "newline \<notin> set l" using p(1) by (auto simp: plain_def list_all_iff)
  then show "\<not> ended l" unfolding ended_def by (metis last_in_set)
  show "ended (l @ [newline])" by (simp add: ended_def)
qed

text \<open>What the whole run adds to the output and to the count.\<close>

definition echoed :: "string \<Rightarrow> string \<Rightarrow> string" where
  "echoed cs u = map toupper cs @ (if u = [] then [] else [NUL])"

definition echo_result :: "echo_state \<Rightarrow> string \<Rightarrow> io_stop + echo_state \<Rightarrow> bool" where
  "echo_result s bs r \<longleftrightarrow> (\<exists>s'. r = Inr s' \<and> written (e_conn s') = written (e_conn s) @ bs \<and>
     s32 (e_bytecnt s') = s32 (e_bytecnt s + int (length bs)))"

lemma echo_result_step:
  assumes "written (e_conn s1) = written (e_conn s) @ as" "e_bytecnt s1 = s32 (e_bytecnt s + int (length as))"
    "echo_result s1 bs r"
  shows "echo_result s (as @ bs) r"
  using assms(3) s32_add [of "e_bytecnt s + int (length as)" "int (length bs)"]
  unfolding echo_result_def assms(1,2) by (simp add: add.assoc)

lemma echo_tail:
  assumes "healthy (in_events (e_conn s))" "WriteFail \<notin> set (out_events (e_conn s))"
    "pending rp (in_events (e_conn s)) = u" "ok_line u"
  shows "echo_result s (echoed u u) (echo_loop rp buf s)"
proof (cases "u = []")
  case True
  then show ?thesis using echo_end [OF assms(1), of rp buf] assms(3) by (auto simp: echo_result_def echoed_def)
next
  case False
  note l = ok_lineD [OF assms(4)]
  from echo_round [OF assms(1-3) False l(2,3), of buf] obtain rp' buf' s' where
    s': "echo_loop rp buf s = echo_loop rp' buf' s'" "healthy (in_events (e_conn s'))"
      "pending rp' (in_events (e_conn s')) = drop (length u) u"
      "written (e_conn s') = written (e_conn s) @ map toupper u @ (if ended u then [] else [NUL])"
      "e_bytecnt s' = s32 (e_bytecnt s + int (length (map toupper u @ (if ended u then [] else [NUL]))))"
    by blast
  have e: "map toupper u @ (if ended u then [] else [NUL]) = echoed u u" using False l(5) by (simp add: echoed_def)
  have "pending rp' (in_events (e_conn s')) = []" using s'(3) by simp
  from echo_end [OF s'(2) this, of buf'] have "echo_result s' [] (echo_loop rp' buf' s')" by (auto simp: echo_result_def)
  from echo_result_step [OF s'(4)[unfolded e] s'(5)[unfolded e] this] s'(1) show ?thesis by simp
qed

lemma echo_lines:
  assumes "healthy (in_events (e_conn s))" "WriteFail \<notin> set (out_events (e_conn s))"
    "pending rp (in_events (e_conn s)) = text_of ls @ u" "list_all ok_line ls" "ok_line u"
  shows "echo_result s (echoed (text_of ls @ u) u) (echo_loop rp buf s)"
  using assms(1-4)
proof (induction ls arbitrary: rp buf s)
  case Nil
  then show ?case using echo_tail [OF Nil(1,2) _ assms(5)] by (simp add: text_of_def)
next
  case (Cons l ls)
  let ?rest = "text_of ls @ u"
  have data: "pending rp (in_events (e_conn s)) = l @ newline # ?rest" using Cons.prems(3) by (simp add: text_of_def)
  have okl: "ok_line l" and okls: "list_all ok_line ls" using Cons.prems(4) by simp_all
  note ln = ok_lineD [OF okl]
  have ne: "l @ newline # ?rest \<noteq> []" by simp
  from echo_round [OF Cons.prems(1,2) data ne ln(1,4), of buf] obtain rp' buf' s1 where
    s1: "echo_loop rp buf s = echo_loop rp' buf' s1" "healthy (in_events (e_conn s1))" "WriteFail \<notin> set (out_events (e_conn s1))"
      "pending rp' (in_events (e_conn s1)) = drop (length (l @ [newline])) (l @ newline # ?rest)"
      "written (e_conn s1) = written (e_conn s) @ map toupper (l @ [newline]) @ (if ended (l @ [newline]) then [] else [NUL])"
      "e_bytecnt s1 = s32 (e_bytecnt s + int (length (map toupper (l @ [newline]) @ (if ended (l @ [newline]) then [] else [NUL]))))"
    by blast
  have e: "map toupper (l @ [newline]) @ (if ended (l @ [newline]) then [] else [NUL]) = map toupper (l @ [newline])"
    using ln(6) by simp
  have "pending rp' (in_events (e_conn s1)) = ?rest" using s1(4) by simp
  from Cons.IH [OF s1(2,3) this okls, of buf'] have "echo_result s1 (echoed ?rest u) (echo_loop rp' buf' s1)" .
  from echo_result_step [OF s1(5)[unfolded e] s1(6)[unfolded e] this]
  have "echo_result s (map toupper (l @ [newline]) @ echoed ?rest u) (echo_loop rp buf s)" using s1(1) by simp
  moreover have "map toupper (l @ [newline]) @ echoed ?rest u = echoed (text_of (l # ls) @ u) u"
    by (simp add: echoed_def text_of_def)
  ultimately show ?case by simp
qed

text \<open>C38. The echo server sends the text it receives back in upper case, line by line, and counts its
  bytes, however the connection cuts the text. A last line that the client does not end comes back
  with a NUL after it, which is sent and counted too.\<close>

theorem echo_upper_cases:
  assumes "healthy (in_events (e_conn s))" "WriteFail \<notin> set (out_events (e_conn s))"
    "stream (in_events (e_conn s)) = text_of ls @ u" "list_all ok_line ls" "ok_line u"
  shows "\<exists>s'. echo buf s = Inr s' \<and>
    written (e_conn s') = written (e_conn s) @ map toupper (text_of ls @ u) @ (if u = [] then [] else [NUL]) \<and>
    s32 (e_bytecnt s') = s32 (e_bytecnt s + int (length (text_of ls @ u)) + (if u = [] then 0 else 1))"
proof -
  have "pending (rio_readinitb 0) (in_events (e_conn s)) = text_of ls @ u"
    using assms(3) by (simp add: pending_def rio_readinitb_def)
  from echo_lines [OF assms(1,2) this assms(4,5), of buf] obtain s' where
    s': "echo buf s = Inr s'" "written (e_conn s') = written (e_conn s) @ echoed (text_of ls @ u) u"
      "s32 (e_bytecnt s') = s32 (e_bytecnt s + int (length (echoed (text_of ls @ u) u)))"
    unfolding echo_result_def echo_def by blast
  have "int (length (echoed (text_of ls @ u) u)) = int (length (text_of ls @ u)) + (if u = [] then 0 else 1)"
    by (simp add: echoed_def)
  then show ?thesis using s' by (intro exI [of _ s']) (simp add: echoed_def add.assoc)
qed

definition echo_example :: echo_state where
  "echo_example = \<lparr>e_conn = \<lparr>in_events = sample_input, out_events = [Wrote 0, WriteIntr], written = []\<rparr>, e_bytecnt = 0, e_out = []\<rparr>"

lemma upper_example: "map toupper (''abc'' @ newline # ''de'') = ''ABC'' @ newline # ''DE''"
  by code_simp

theorem echo_upper_cases_witness:
  "\<exists>s'. echo [] echo_example = Inr s' \<and> written (e_conn s') = ''ABC'' @ newline # ''DE'' @ [NUL]"
proof -
  have "healthy (in_events (e_conn echo_example))" "WriteFail \<notin> set (out_events (e_conn echo_example))"
    "stream (in_events (e_conn echo_example)) = text_of [''abc''] @ ''de''"
    by (simp_all add: echo_example_def sample_input_def text_of_def)
  moreover have "list_all ok_line [''abc'']" "ok_line ''de''" by (simp_all add: ok_line_def plain_def MAXLINE_def)
  moreover have "text_of [''abc''] @ ''de'' = ''abc'' @ newline # ''de''" "written (e_conn echo_example) = []"
    by (simp_all add: text_of_def echo_example_def)
  ultimately show ?thesis
    using echo_upper_cases [of echo_example "[''abc'']" "''de''" "[]"] upper_example by auto
qed

end
