(* ===== verification/EchoClient.thy ===== *)
theory EchoClient
  imports EchoProps
begin

text \<open>
  The echo client (\<^verbatim>\<open>proxylab/echoclient.c\<close>) after its connection is open, and its dialogue with the
  server. What the user types is a string; the prompts and answers go to \<open>ec_stdout\<close>.
\<close>

record client_state =
  ec_conn :: descriptor
  ec_stdout :: string

text \<open>\<^verbatim>\<open>fgets\<close>: the line it stores, up to \<open>n - 1\<close> characters, and the rest of the input; None is NULL.\<close>

definition fgets :: "nat \<Rightarrow> string \<Rightarrow> (string \<times> string) option" where
  "fgets n stdin = (if stdin = [] then None else let l = line_of (n - 1) stdin in Some (l, drop (length l) stdin))"

function client_loop :: "string \<Rightarrow> rio_t \<Rightarrow> string \<Rightarrow> client_state \<Rightarrow> io_stop + client_state" where
  "client_loop stdin rp buf s =
     (case fgets MAXLINE stdin of
        None \<Rightarrow> Inr s
      | Some (l, rest) \<Rightarrow>
          let buf = l @ NUL # drop (Suc (length l)) buf in
          and_then (c_str buf) (\<lambda>cs.
          and_then (Rio_writen cs (ec_conn s)) (\<lambda>d.
          and_then (Rio_readlineb rp MAXLINE (in_events d)) (\<lambda>(r, rp, es).
            let buf = store_line r buf in
            and_then (c_str buf) (\<lambda>cs.
              client_loop rest rp buf
                \<lparr>ec_conn = d\<lparr>in_events := es\<rparr>, ec_stdout = ec_stdout s @ ''echo:'' @ cs @ ''type:''\<rparr>)))))"
  by pat_completeness auto
termination
  by (relation "measure (\<lambda>(stdin, rp, buf, s). length stdin)")
    (auto simp: fgets_def Let_def MAXLINE_def split: if_splits)

declare client_loop.simps [simp del]

definition echo_client :: "string \<Rightarrow> string \<Rightarrow> client_state \<Rightarrow> io_stop + client_state" where
  "echo_client buf stdin s = client_loop stdin (rio_readinitb 0) buf (s\<lparr>ec_stdout := ec_stdout s @ ''type:''\<rparr>)"

subsection \<open>The dialogue\<close>

lemma toupper_plain: "c \<noteq> NUL \<and> c \<noteq> newline \<Longrightarrow> toupper c \<noteq> NUL \<and> toupper c \<noteq> newline"
proof -
  assume c: "c \<noteq> NUL \<and> c \<noteq> newline"
  define n :: nat where "n = of_char c"
  show ?thesis
  proof (cases "97 \<le> n \<and> n \<le> 122")
    case True
    then have n: "n - 32 < 256" "65 \<le> n - 32" by arith+
    then have "(n - 32) mod 256 = n - 32" by simp
    moreover note n(2)
    moreover have "toupper c = char_of (n - 32)" using True by (simp add: toupper_def n_def)
    ultimately have "65 \<le> (of_char (toupper c) :: nat)" by simp
    then show ?thesis by auto
  next
    case False
    then have "toupper c = c" unfolding toupper_def n_def by (simp only: if_False)
    then show ?thesis using c by simp
  qed
qed

lemma ok_line_upper: "ok_line l \<Longrightarrow> ok_line (map toupper l)"
  using toupper_plain by (auto simp: ok_line_def plain_def list_all_iff)

lemma c_str_line: "list_all (\<lambda>c. c \<noteq> NUL) l \<Longrightarrow> c_str (l @ NUL # cs) = Inr l"
  unfolding c_str_def c_string_def by (induction l) auto

text \<open>What the client shows for a line.\<close>

definition shown :: "string \<Rightarrow> string" where
  "shown l = ''echo:'' @ map toupper l @ newline # ''type:''"

lemma client_lines:
  assumes "healthy (in_events (ec_conn s))" "WriteFail \<notin> set (out_events (ec_conn s))"
    "pending rp (in_events (ec_conn s)) = map toupper (text_of ls)" "list_all ok_line ls"
  shows "\<exists>s'. client_loop (text_of ls) rp buf s = Inr s' \<and> written (ec_conn s') = written (ec_conn s) @ text_of ls \<and>
    ec_stdout s' = ec_stdout s @ concat (map shown ls)"
  using assms
proof (induction ls arbitrary: rp buf s)
  case Nil
  then show ?case by (simp add: client_loop.simps [of "[]"] fgets_def text_of_def)
next
  case (Cons l ls)
  let ?rest = "text_of ls" and ?u = "map toupper l"
  have ok: "ok_line l" "list_all ok_line ls" using Cons.prems(4) by simp_all
  note L = ok_lineD [OF ok(1)] and U = ok_lineD [OF ok_line_upper [OF ok(1)]]
  have txt_eq: "text_of (l # ls) = l @ newline # ?rest" by (simp add: text_of_def)
  have get: "fgets MAXLINE (l @ newline # ?rest) = Some (l @ [newline], ?rest)"
    unfolding fgets_def Let_def L(1) by simp
  let ?buf = "(l @ [newline]) @ NUL # drop (Suc (length (l @ [newline]))) buf"
  have cs: "c_str ?buf = Inr (l @ [newline])" using L(4) by (rule c_str_line)
  from writes_all [OF Cons.prems(2), of "l @ [newline]"] obtain d where
    d: "Rio_writen (l @ [newline]) (ec_conn s) = Inr d" "written d = written (ec_conn s) @ l @ [newline]"
      "in_events d = in_events (ec_conn s)" "WriteFail \<notin> set (out_events d)" by auto
  have h: "healthy (in_events d)" and max: "1 < MAXLINE" using Cons.prems(1) d(3) by (simp_all add: MAXLINE_def)
  have data: "pending rp (in_events d) = ?u @ newline # map toupper ?rest"
    using Cons.prems(3) d(3) by (simp add: txt_eq)
  from readlineb_line [OF h max, of rp] obtain r rp' es' where
    r: "rio_readlineb rp MAXLINE (in_events d) = (r, rp', es')" "healthy es'" "lr_bytes r = ?u @ [newline]"
      "pending rp' es' = drop (length (lr_bytes r)) (?u @ newline # map toupper ?rest)"
      "lr_value r = int (length (?u @ [newline]))" "lr_nul r"
    unfolding data U(1) using U(6) by auto
  have rd: "Rio_readlineb rp MAXLINE (in_events d) = Inr (r, rp', es')" using r(1,5) by (simp add: Rio_readlineb_def)
  have st: "c_str (store_line r ?buf) = Inr (?u @ [newline])"
    using r(3,6) c_str_line [OF U(4)] by (simp add: store_line_def)
  let ?s = "\<lparr>ec_conn = d\<lparr>in_events := es'\<rparr>, ec_stdout = ec_stdout s @ shown l\<rparr>"
  have step: "client_loop (text_of (l # ls)) rp buf s = client_loop ?rest rp' (store_line r ?buf) ?s"
    unfolding txt_eq by (subst client_loop.simps) (use cs d(1) rd st in \<open>simp add: get shown_def Let_def\<close>)
  have "pending rp' (in_events (ec_conn ?s)) = map toupper ?rest" using r(3,4) by simp
  from Cons.IH [OF _ _ this ok(2), of "store_line r ?buf"] r(2) d(4) obtain s' where
    "client_loop ?rest rp' (store_line r ?buf) ?s = Inr s'" "written (ec_conn s') = written d @ ?rest"
    "ec_stdout s' = ec_stdout s @ shown l @ concat (map shown ls)" by auto
  then show ?case using step d(2) by (simp add: txt_eq)
qed

text \<open>C30. The echo server and its client agree: when each side's connection delivers the other side's text,
  however it is cut into chunks, the server writes exactly what the client reads and the client
  exactly what the server reads, both return, and the user sees every line typed in upper case
  behind \<^verbatim>\<open>echo:\<close>, with a prompt before each line.\<close>

theorem echo_dialogue:
  assumes "list_all ok_line ls"
    and "healthy (in_events (e_conn s))" "WriteFail \<notin> set (out_events (e_conn s))" "stream (in_events (e_conn s)) = text_of ls"
    and "healthy (in_events (ec_conn c))" "WriteFail \<notin> set (out_events (ec_conn c))"
      "stream (in_events (ec_conn c)) = map toupper (text_of ls)"
  shows "\<exists>s' c'. echo buf s = Inr s' \<and> echo_client buf' (text_of ls) c = Inr c' \<and>
    written (e_conn s') = written (e_conn s) @ stream (in_events (ec_conn c)) \<and>
    written (ec_conn c') = written (ec_conn c) @ stream (in_events (e_conn s)) \<and>
    ec_stdout c' = ec_stdout c @ ''type:'' @ concat (map (\<lambda>l. ''echo:'' @ map toupper l @ newline # ''type:'') ls)"
proof -
  have p: "pending (rio_readinitb 0) (in_events (e_conn s)) = text_of ls @ []"
    "pending (rio_readinitb 0) (in_events (ec_conn (c\<lparr>ec_stdout := ec_stdout c @ ''type:''\<rparr>))) = map toupper (text_of ls)"
    using assms(4,7) by (simp_all add: pending_def rio_readinitb_def)
  have e: "ok_line []" by (simp add: ok_line_def plain_def MAXLINE_def)
  from echo_lines [OF assms(2,3) p(1) assms(1) e, of buf] obtain s' where
    "echo buf s = Inr s'" "written (e_conn s') = written (e_conn s) @ map toupper (text_of ls)"
    unfolding echo_def echo_result_def by (auto simp: echoed_def)
  moreover from client_lines [OF _ _ p(2) assms(1), of buf'] assms(5,6) obtain c' where
    "echo_client buf' (text_of ls) c = Inr c'" "written (ec_conn c') = written (ec_conn c) @ text_of ls"
    "ec_stdout c' = (ec_stdout c @ ''type:'') @ concat (map shown ls)"
    unfolding echo_client_def by auto
  ultimately show ?thesis using assms(4,7) by (intro exI [of _ s'] exI [of _ c']) (simp add: shown_def [abs_def])
qed

theorem echo_dialogue_witness:
  "\<exists>c'. echo_client [] (''hi'' @ [newline])
       \<lparr>ec_conn = \<lparr>in_events = [Chunk ''H'', ReadIntr, Chunk (''I'' @ [newline])], out_events = [Wrote 0], written = []\<rparr>, ec_stdout = []\<rparr> = Inr c' \<and>
     ec_stdout c' = ''type:echo:HI'' @ newline # ''type:''"
proof -
  let ?c = "\<lparr>ec_conn = \<lparr>in_events = [Chunk ''H'', ReadIntr, Chunk (''I'' @ [newline])], out_events = [Wrote 0], written = []\<rparr>, ec_stdout = []\<rparr>"
  let ?s = "\<lparr>e_conn = \<lparr>in_events = [Chunk (''hi'' @ [newline])], out_events = [], written = []\<rparr>, e_bytecnt = 0, e_out = []\<rparr>"
  have up: "map toupper ''hi'' = ''HI''" by code_simp
  have "list_all ok_line [''hi'']" by (simp add: ok_line_def plain_def MAXLINE_def)
  moreover have "text_of [''hi''] = ''hi'' @ [newline]" by (simp add: text_of_def)
  ultimately show ?thesis using echo_dialogue [of "[''hi'']" ?s ?c "[]" "[]"] up by auto
qed

end
