(* ===== verification/Proxy.thy ===== *)
theory Proxy
  imports Echo
begin

text \<open>
  The logging proxy (\<^verbatim>\<open>proxylab/proxy.c\<close>): the thread that serves one client. The network is an
  argument: \<open>connect h p\<close> is the connection that \<^verbatim>\<open>Open_clientfd\<close> makes to port \<open>p\<close> of host \<open>h\<close>, None
  when it fails, which ends the program; \<open>now k\<close> is what \<^verbatim>\<open>asctime\<close> gives at the \<open>k\<close>-th log entry.
\<close>

subsection \<open>Wrappers\<close>

text \<open>Both give the warnings they print beside their results.\<close>

definition Rio_readlineb_w :: "rio_t \<Rightarrow> nat \<Rightarrow> read_event list \<Rightarrow> int \<times> line_read \<times> rio_t \<times> read_event list \<times> string list" where
  "Rio_readlineb_w rp maxlen es =
     (let (r, rp, es) = rio_readlineb rp maxlen es in
      if lr_value r < 0 then (0, r, rp, es, [''Warning: rio_readlineb failed'' @ [newline]])
      else (lr_value r, r, rp, es, []))"

definition Rio_readn_w :: "nat \<Rightarrow> descriptor \<Rightarrow> int \<times> descriptor \<times> string list" where
  "Rio_readn_w n d =
     (case rio_readn n d of
        (None, d) \<Rightarrow> (0, d, [''Warning: rio_readn failed'' @ [newline]])
      | (Some bs, d) \<Rightarrow> (int (length bs), d, []))"

definition Rio_writen_w :: "string \<Rightarrow> descriptor \<Rightarrow> descriptor \<times> string list" where
  "Rio_writen_w bs d =
     (let (n, d) = rio_writen bs d in
      (d, if n \<noteq> int (length bs) then [''Warning: rio_writen failed.'' @ [newline]] else []))"

definition open_clientfd_ts :: "(string \<Rightarrow> int \<Rightarrow> descriptor option) \<Rightarrow> string \<Rightarrow> int \<Rightarrow> io_stop + descriptor" where
  "open_clientfd_ts connect hostname port =
     (case connect hostname port of None \<Rightarrow> Inl ConnectError | Some d \<Rightarrow> Inr d)"

text \<open>\<^verbatim>\<open>sscanf\<close> with \<open>k\<close> conversions \<^verbatim>\<open>%s\<close>: the words it stores. Its value is their number, or -1 when
  there is none; the source only tells 3, positive and the rest apart.\<close>

fun scan_words :: "nat \<Rightarrow> string \<Rightarrow> string list" where
  "scan_words 0 cs = []"
| "scan_words (Suc k) cs =
     (let r = dropWhile is_space cs in
      if r = [] then []
      else takeWhile (\<lambda>c. \<not> is_space c) r # scan_words k (dropWhile (\<lambda>c. \<not> is_space c) r))"

subsection \<open>The log\<close>

text \<open>\<^verbatim>\<open>struct sockaddr_in\<close> holds address and port in network order, read by a little-endian machine.\<close>

record sockaddr_in =
  sin_addr :: "32 word"
  sin_port :: "16 word"

definition ntohl :: "32 word \<Rightarrow> 32 word" where
  "ntohl w = push_bit 24 (w AND 0xFF) OR push_bit 8 (w AND 0xFF00) OR (drop_bit 8 w AND 0xFF00) OR (drop_bit 24 w AND 0xFF)"

definition ntohs :: "16 word \<Rightarrow> 16 word" where
  "ntohs w = push_bit 8 (w AND 0xFF) OR (drop_bit 8 w AND 0xFF)"

text \<open>\<^verbatim>\<open>%3d\<close>.\<close>

definition pad3 :: "nat \<Rightarrow> string" where
  "pad3 n = replicate (3 - length (show_nat n)) CHR '' '' @ show_nat n"

definition dotted :: "32 word \<Rightarrow> string" where
  "dotted haddrp =
     (let a = ucast (drop_bit 24 haddrp) :: 8 word;
          b = ucast (drop_bit 16 haddrp AND 0xFF) :: 8 word;
          c = ucast (drop_bit 8 haddrp AND 0xFF) :: 8 word;
          d = ucast (haddrp AND 0xFF) :: 8 word
      in show_nat (unat a) @ ''.'' @ show_nat (unat b) @ ''.'' @ show_nat (unat c) @ ''.'' @ show_nat (unat d))"

definition log_entry :: "string \<Rightarrow> sockaddr_in \<Rightarrow> string \<Rightarrow> string" where
  "log_entry date sock buf =
     date @ '': '' @ dotted (ntohl (sin_addr sock)) @ '' '' @ show_nat (unat (ntohs (sin_port sock))) @ '' ''
       @ pad3 (length buf) @ '' '' @ buf"

text \<open>The text of \<^verbatim>\<open>asctime\<close> without its last character, the end of the line.\<close>

definition log_text :: "string \<Rightarrow> sockaddr_in \<Rightarrow> string \<Rightarrow> string" where
  "log_text tt sock buf = log_entry (butlast tt) sock buf"

text \<open>The entry is built in an array of \<open>MAXLINE\<close> characters, which \<^verbatim>\<open>sprintf\<close> does not know.\<close>

definition deal_log_format :: "string \<Rightarrow> sockaddr_in \<Rightarrow> string \<Rightarrow> io_stop + string" where
  "deal_log_format tt sock buf =
     (let l = log_text tt sock buf in if MAXLINE < length l + 1 then Inl BufferOverflow else Inr l)"

subsection \<open>A client's thread\<close>

text \<open>\<open>px_server\<close> is None while \<^verbatim>\<open>initFlag\<close> is 1 and \<^verbatim>\<open>fd_server\<close> is -1; \<open>px_peer\<close> records the arguments
  of the one connection that is made.\<close>

record proxy_state =
  px_client :: descriptor
  px_server :: "(rio_t \<times> descriptor) option"
  px_peer :: "(string \<times> int) option"
  px_log :: "string list"
  px_stdout :: "string list"
  px_stderr :: "string list"
  px_closed :: bool

definition print_log :: "string \<Rightarrow> proxy_state \<Rightarrow> proxy_state" where
  "print_log l s = s\<lparr>px_log := px_log s @ [l], px_stdout := px_stdout s @ [l]\<rparr>"

definition send_client :: "string \<Rightarrow> proxy_state \<Rightarrow> proxy_state" where
  "send_client bs s =
     (let (d, warn) = Rio_writen_w bs (px_client s) in s\<lparr>px_client := d, px_stdout := px_stdout s @ warn\<rparr>)"

definition ESC :: char where "ESC = CHR 0x1B"

definition warning_msg :: string where
  "warning_msg = ESC # ''[0;33m[WARNING]Please input the argument of hostname, port, content!'' @ ESC # ''[0m'' @ [newline]"

definition error_msg :: string where
  "error_msg = ESC # ''[1;31m[ERROR]There need a argument or occured a request error'' @ ESC # ''[0m'' @ [newline]"

definition reject :: "string \<Rightarrow> string \<Rightarrow> proxy_state \<Rightarrow> proxy_state" where
  "reject note msg s = send_client msg (s\<lparr>px_stderr := px_stderr s @ [note @ [newline]]\<rparr>)"

definition open_server ::
  "(string \<Rightarrow> int \<Rightarrow> descriptor option) \<Rightarrow> string \<Rightarrow> string \<Rightarrow> proxy_state \<Rightarrow> io_stop + ((rio_t \<times> descriptor) \<times> proxy_state)" where
  "open_server connect hostname port s =
     (case px_server s of
        Some srv \<Rightarrow> Inr (srv, s)
      | None \<Rightarrow> and_then (open_clientfd_ts connect hostname (atoi port)) (\<lambda>d.
          Inr ((rio_readinitb 0, d), s\<lparr>px_peer := Some (hostname, atoi port)\<rparr>)))"

text \<open>The log entry of an answer, and the rounds of the loop. A reply that is not read leaves the
  client's own line in \<^verbatim>\<open>buf\<close>.\<close>

definition log_reply :: "(nat \<Rightarrow> string) \<Rightarrow> sockaddr_in \<Rightarrow> string \<Rightarrow> proxy_state \<Rightarrow> io_stop + proxy_state" where
  "log_reply now sock buf s =
     and_then (c_str buf) (\<lambda>cs.
     and_then (deal_log_format (now (length (px_log s))) sock cs) (\<lambda>l. Inr (print_log l s)))"

definition forward ::
  "(string \<Rightarrow> int \<Rightarrow> descriptor option) \<Rightarrow> (nat \<Rightarrow> string) \<Rightarrow> sockaddr_in \<Rightarrow> string \<Rightarrow> string \<Rightarrow> string \<Rightarrow> string \<Rightarrow> proxy_state
     \<Rightarrow> io_stop + (string \<times> proxy_state)" where
  "forward connect now sock hostname port content buf s =
     and_then (open_server connect hostname port s) (\<lambda>((rp, d), s).
       let (d, warn1) = Rio_writen_w (content @ [newline]) d;
           (nn, r, rp, es, warn2) = Rio_readlineb_w rp MAXLINE (in_events d);
           buf = store_line r buf;
           s = s\<lparr>px_server := Some (rp, d\<lparr>in_events := es\<rparr>), px_stdout := px_stdout s @ warn1 @ warn2\<rparr>
       in and_then (if nn \<noteq> 0 then log_reply now sock buf s else Inr s) (\<lambda>s.
          and_then (c_str buf) (\<lambda>cs. Inr (buf, send_client cs s))))"

definition serve_line ::
  "(string \<Rightarrow> int \<Rightarrow> descriptor option) \<Rightarrow> (nat \<Rightarrow> string) \<Rightarrow> sockaddr_in \<Rightarrow> string \<Rightarrow> proxy_state \<Rightarrow> io_stop + (string \<times> proxy_state)" where
  "serve_line connect now sock buf s =
     and_then (c_str buf) (\<lambda>cs.
       case scan_words 3 cs of
         hostname # port # content # _ \<Rightarrow> forward connect now sock hostname port content buf s
       | [] \<Rightarrow> Inr (buf, reject ''request error!'' error_msg s)
       | _ \<Rightarrow> Inr (buf, reject ''No hostname, port, content'' warning_msg s))"

text \<open>The array \<^verbatim>\<open>line\<close> holds the content and its newline: two words come before it in \<^verbatim>\<open>buf\<close>.\<close>

lemma scan_words_Nil [simp]: "scan_words k [] = []"
  by (cases k) simp_all

lemma scan_words_space: "is_space c \<Longrightarrow> scan_words k (c # cs) = scan_words k cs"
  by (cases k) simp_all

lemma scan_words_length:
  "sum_list (map (\<lambda>w. Suc (length w)) (scan_words k cs)) \<le> Suc (length cs) \<and> [] \<notin> set (scan_words k cs)"
proof (induction k arbitrary: cs)
  case (Suc k)
  define r where "r = dropWhile is_space cs"
  define w where "w = takeWhile (\<lambda>c. \<not> is_space c) r"
  define t where "t = dropWhile (\<lambda>c. \<not> is_space c) r"
  have words: "scan_words (Suc k) cs = (if r = [] then [] else w # scan_words k t)"
    unfolding scan_words.simps Let_def r_def w_def t_def ..
  show ?case
  proof (cases "r = []")
    case False
    have "\<not> is_space (hd r)" using hd_dropWhile [of is_space cs] False unfolding r_def by blast
    then have "w \<noteq> []" using False unfolding w_def by (cases r) auto
    moreover have "length w + length t = length r" unfolding w_def t_def by (metis length_append takeWhile_dropWhile_id)
    moreover have "length r \<le> length cs" unfolding r_def by (rule length_dropWhile_le)
    moreover have "sum_list (map (\<lambda>w. Suc (length w)) (scan_words k t)) \<le> length t"
    proof (cases t)
      case (Cons c t')
      have "t \<noteq> []" using Cons by simp
      then have "is_space (hd t)" using hd_dropWhile [of "\<lambda>c. \<not> is_space c" r] unfolding t_def by blast
      then have "scan_words k t = scan_words k t'" by (simp add: Cons scan_words_space)
      then show ?thesis using Suc.IH [of t'] by (simp add: Cons)
    qed simp
    moreover have "[] \<notin> set (scan_words k t)" using Suc.IH [of t] by simp
    ultimately show ?thesis unfolding words using False by simp
  qed (simp add: words del: scan_words.simps)
qed simp

lemma content_fits:
  assumes "scan_words 3 cs = [h, p, c]"
  shows "length c + 4 \<le> length cs"
proof -
  have "h \<noteq> []" "p \<noteq> []" "length h + length p + length c + 3 \<le> Suc (length cs)"
    using scan_words_length [of 3 cs] by (auto simp: assms)
  moreover then have "1 \<le> length h" "1 \<le> length p" by (simp_all add: Suc_le_eq)
  ultimately show ?thesis by linarith
qed

text \<open>Reading a line uses up input of the client, and nothing else in a round touches that input.\<close>

lemma Rio_readlineb_w_progress:
  assumes "Rio_readlineb_w rp MAXLINE es = (n, r, rp', es', w)" "n \<noteq> 0"
  shows "length (rio_unread rp') + input_size es' < length (rio_unread rp) + input_size es"
proof -
  have "rio_readlineb rp MAXLINE es = (r, rp', es')" "0 < lr_value r"
    using assms by (auto simp: Rio_readlineb_w_def Let_def split: prod.splits if_splits)
  moreover have "1 < MAXLINE" unfolding MAXLINE_def by simp
  ultimately show ?thesis by (intro readline_progress(1))
qed

lemma send_client_events [simp]:
  "in_events (px_client (send_client bs s)) = in_events (px_client s)"
  using writen_in_events [of bs "px_client s"]
  by (auto simp: send_client_def Rio_writen_w_def rio_writen_def Let_def split: prod.splits)

lemma open_server_client: "open_server connect h p s = Inr (srv, s') \<Longrightarrow> px_client s' = px_client s"
  by (auto simp: open_server_def and_then_Inr split: option.splits)

lemma log_reply_client: "log_reply now sock buf s = Inr s' \<Longrightarrow> px_client s' = px_client s"
  by (auto simp: log_reply_def and_then_Inr print_log_def)

lemma forward_events:
  assumes "forward connect now sock h p c buf s = Inr (buf', s')"
  shows "in_events (px_client s') = in_events (px_client s)"
proof -
  obtain rp d s1 where o: "open_server connect h p s = Inr ((rp, d), s1)"
    using assms by (auto simp: forward_def and_then_Inr)
  obtain d1 w1 where w: "Rio_writen_w (c @ [newline]) d = (d1, w1)" by (cases "Rio_writen_w (c @ [newline]) d")
  obtain nn r rp1 es w2 where r: "Rio_readlineb_w rp MAXLINE (in_events d1) = (nn, r, rp1, es, w2)"
    by (cases "Rio_readlineb_w rp MAXLINE (in_events d1)") auto
  let ?s = "s1\<lparr>px_server := Some (rp1, d1\<lparr>in_events := es\<rparr>), px_stdout := px_stdout s1 @ w1 @ w2\<rparr>"
  obtain s2 cs where s2: "(if nn \<noteq> 0 then log_reply now sock (store_line r buf) ?s else Inr ?s) = Inr s2" "s' = send_client cs s2"
    using assms by (auto simp: forward_def o w r Let_def and_then_Inr)
  have "px_client s2 = px_client s1" using s2(1) by (cases "nn = 0") (auto dest: log_reply_client)
  then show ?thesis using open_server_client [OF o] s2(2) by simp
qed

text \<open>The three outcomes of the \<^verbatim>\<open>sscanf\<close>.\<close>

lemma scan_cases:
  obtains (none) "ws = []" | (some) w where "ws = [w]" | (two) w v where "ws = [w, v]" | (all) h p c r where "ws = h # p # c # r"
proof (cases ws)
  case (Cons h t)
  then show thesis
  proof (cases t)
    case (Cons p r)
    then show thesis using \<open>ws = h # t\<close> two all by (cases r) auto
  qed (use some in simp)
qed (rule none)

lemma serve_line_events:
  assumes "serve_line connect now sock buf s = Inr (buf', s')"
  shows "in_events (px_client s') = in_events (px_client s)"
proof -
  obtain cs where cs: "c_str buf = Inr cs" using assms by (auto simp: serve_line_def and_then_Inr)
  show ?thesis
    by (cases "scan_words 3 cs" rule: scan_cases)
      (use assms in \<open>auto simp: serve_line_def cs reject_def simp del: scan_words.simps dest: forward_events\<close>)
qed

function request_loop ::
  "(string \<Rightarrow> int \<Rightarrow> descriptor option) \<Rightarrow> (nat \<Rightarrow> string) \<Rightarrow> sockaddr_in \<Rightarrow> rio_t \<Rightarrow> string \<Rightarrow> proxy_state
     \<Rightarrow> io_stop + proxy_state" where
  "request_loop connect now sock rp buf s =
     (let (n, r, rp1, es, warn) = Rio_readlineb_w rp MAXLINE (in_events (px_client s));
          s = s\<lparr>px_client := (px_client s)\<lparr>in_events := es\<rparr>, px_stdout := px_stdout s @ warn\<rparr>
      in if n = 0 then Inr s
         else and_then (serve_line connect now sock (store_line r buf) s) (\<lambda>(buf, s).
                request_loop connect now sock rp1 buf s))"
  by pat_completeness auto

termination request_loop
  by (relation "measure (\<lambda>(c, now, sock, rp, buf, s). length (rio_unread rp) + input_size (in_events (px_client s)))")
    (auto dest!: serve_line_events [OF _] dest: Rio_readlineb_w_progress [OF sym])

declare request_loop.simps [simp del]

text \<open>Both descriptors are closed at the end, but only when a server was opened.\<close>

definition process_request ::
  "(string \<Rightarrow> int \<Rightarrow> descriptor option) \<Rightarrow> (nat \<Rightarrow> string) \<Rightarrow> sockaddr_in \<Rightarrow> string \<Rightarrow> descriptor \<Rightarrow> io_stop + proxy_state" where
  "process_request connect now sock buf client =
     and_then (request_loop connect now sock (rio_readinitb 0) buf
       \<lparr>px_client = client, px_server = None, px_peer = None, px_log = [], px_stdout = [], px_stderr = [], px_closed = False\<rparr>)
       (\<lambda>s. Inr (if px_server s \<noteq> None then s\<lparr>px_closed := True\<rparr> else s))"

end
