(* ===== verification/Sockets.thy ===== *)
theory Sockets
  imports Proxy
begin

text \<open>
  Opening connections (\<^verbatim>\<open>open_clientfd\<close>, \<^verbatim>\<open>open_listenfd\<close> and their wrappers in
  \<^verbatim>\<open>proxylab/csapp.c\<close>). The socket functions of the system are the fields of \<open>net\<close>, acting on a world
  of any type; a result below 0 is a failure. \<open>connect_by\<close> is the network that the proxy's threads see.
\<close>

record 'w net =
  socket :: "'w \<Rightarrow> int \<times> 'w"
  gethostbyname :: "string \<Rightarrow> 'w \<Rightarrow> 32 word option \<times> 'w"   \<comment> \<open>the first address, in network order\<close>
  connect :: "int \<Rightarrow> sockaddr_in \<Rightarrow> 'w \<Rightarrow> int \<times> 'w"
  setsockopt :: "int \<Rightarrow> 'w \<Rightarrow> int \<times> 'w"
  bind :: "int \<Rightarrow> sockaddr_in \<Rightarrow> 'w \<Rightarrow> int \<times> 'w"
  listen :: "int \<Rightarrow> int \<Rightarrow> 'w \<Rightarrow> int \<times> 'w"

definition htons :: "int \<Rightarrow> 16 word" where
  "htons port = ntohs (word_of_int port)"

definition INADDR_ANY :: "32 word" where "INADDR_ANY = 0"
definition LISTENQ :: int where "LISTENQ = 1024"

definition open_clientfd :: "'w net \<Rightarrow> string \<Rightarrow> int \<Rightarrow> 'w \<Rightarrow> int \<times> 'w" where
  "open_clientfd N hostname port w =
     (let (clientfd, w) = socket N w in
      if clientfd < 0 then (-1, w)
      else case gethostbyname N hostname w of
        (None, w) \<Rightarrow> (-2, w)
      | (Some addr, w) \<Rightarrow>
          let (r, w) = connect N clientfd \<lparr>sin_addr = addr, sin_port = htons port\<rparr> w
          in if r < 0 then (-1, w) else (clientfd, w))"

definition open_listenfd :: "'w net \<Rightarrow> int \<Rightarrow> 'w \<Rightarrow> int \<times> 'w" where
  "open_listenfd N port w =
     (let (listenfd, w) = socket N w in
      if listenfd < 0 then (-1, w)
      else let (r, w) = setsockopt N listenfd w in
        if r < 0 then (-1, w)
        else let (r, w) = bind N listenfd \<lparr>sin_addr = ntohl INADDR_ANY, sin_port = htons port\<rparr> w in
          if r < 0 then (-1, w)
          else let (r, w) = listen N listenfd LISTENQ w in
            if r < 0 then (-1, w) else (listenfd, w))"

text \<open>The wrappers end the program.\<close>

datatype net_stop = UnixError | DnsError

definition Open_clientfd :: "'w net \<Rightarrow> string \<Rightarrow> int \<Rightarrow> 'w \<Rightarrow> net_stop + (int \<times> 'w)" where
  "Open_clientfd N hostname port w =
     (let (rc, w) = open_clientfd N hostname port w in
      if rc < 0 then (if rc = -1 then Inl UnixError else Inl DnsError) else Inr (rc, w))"

definition Open_listenfd :: "'w net \<Rightarrow> int \<Rightarrow> 'w \<Rightarrow> net_stop + (int \<times> 'w)" where
  "Open_listenfd N port w =
     (let (rc, w) = open_listenfd N port w in if rc < 0 then Inl UnixError else Inr (rc, w))"

definition connect_by :: "'w net \<Rightarrow> (int \<Rightarrow> 'w \<Rightarrow> descriptor) \<Rightarrow> 'w \<Rightarrow> string \<Rightarrow> int \<Rightarrow> descriptor option" where
  "connect_by N link w hostname port =
     (case Open_clientfd N hostname port w of Inl _ \<Rightarrow> None | Inr (fd, w) \<Rightarrow> Some (link fd w))"

subsection \<open>What the calls establish\<close>

text \<open>A descriptor is returned exactly when every call succeeded; the error code tells a name that is not
  known from the other failures.\<close>

lemma open_clientfd_result:
  assumes "open_clientfd N h p w = (rc, w')"
  shows "rc = -1 \<or> rc = -2 \<or> 0 \<le> rc"
    and "0 \<le> rc \<Longrightarrow> \<exists>w1 a w2 r. socket N w = (rc, w1) \<and> gethostbyname N h w1 = (Some a, w2) \<and>
      connect N rc \<lparr>sin_addr = a, sin_port = htons p\<rparr> w2 = (r, w') \<and> 0 \<le> r"
    and "rc = -2 \<Longrightarrow> \<exists>fd w1. socket N w = (fd, w1) \<and> 0 \<le> fd \<and> gethostbyname N h w1 = (None, w')"
  using assms by (auto simp: open_clientfd_def Let_def split: prod.splits option.splits if_splits)

lemma open_listenfd_result:
  assumes "open_listenfd N p w = (rc, w')" "0 \<le> rc"
  shows "\<exists>w1 w2 w3 r. socket N w = (rc, w1) \<and> snd (setsockopt N rc w1) = w2 \<and>
    snd (bind N rc \<lparr>sin_addr = ntohl INADDR_ANY, sin_port = htons p\<rparr> w2) = w3 \<and> listen N rc LISTENQ w3 = (r, w') \<and> 0 \<le> r"
  using assms by (auto simp: open_listenfd_def Let_def split: prod.splits if_splits)

text \<open>Both byte orders: what the proxy logs is the port and the address that were dialled.\<close>

lemma ntohs_masks: "ntohs w = push_bit 8 (w AND mask 8) OR (drop_bit 8 w AND mask 8)"
  by (simp add: ntohs_def mask_eq_exp_minus_1)

lemma ntohs_htons: "ntohs (htons p) = word_of_int p"
  unfolding htons_def ntohs_masks by (rule bit_word_eqI) (auto simp: bit_simps)

lemma ntohl_masks:
  "ntohl w = push_bit 24 (w AND mask 8) OR push_bit 8 (w AND push_bit 8 (mask 8)) OR
     (drop_bit 8 w AND push_bit 8 (mask 8)) OR (drop_bit 24 w AND mask 8)"
  by (simp add: ntohl_def mask_eq_exp_minus_1)

lemma ntohl_bit:
  "bit (ntohl w) n \<longleftrightarrow> n < 32 \<and> bit w (if n < 8 then n + 24 else if n < 16 then n + 8 else if n < 24 then n - 8 else n - 24)"
  unfolding ntohl_masks by (auto simp: bit_simps not_less add.commute)

lemma ntohl_ntohl: "ntohl (ntohl a) = a"
  by (rule bit_word_eqI) (auto simp: ntohl_bit)

end
