(* ===== verification/Wrappers.thy ===== *)
theory Wrappers
  imports Sockets
begin

text \<open>
  The error-handling wrappers of \<^verbatim>\<open>proxylab/csapp.c\<close>. Each takes the function it calls as its argument,
  acting on a world of any type, passes on its arguments and its result, and ends the program when
  its test says that the call failed. A call gives its result with what it stores through pointers.
  Pointers and streams are integers, a \<^verbatim>\<open>hostent\<close> is its name and addresses.
\<close>

record 'w sys =
  errno :: "'w \<Rightarrow> int"
  h_errno :: "'w \<Rightarrow> int"
  strerror :: "int \<Rightarrow> string"
  ferror :: "int \<Rightarrow> 'w \<Rightarrow> bool"

record hostent =
  h_name :: string
  h_addr_list :: "32 word list"

datatype csapp_stop = Exited int string   \<comment> \<open>the exit status and what was written to \<^verbatim>\<open>stderr\<close>\<close>

definition EOF :: int where "EOF = -1"

subsection \<open>Error routines\<close>

definition unix_error :: "'w sys \<Rightarrow> string \<Rightarrow> 'w \<Rightarrow> csapp_stop" where
  "unix_error S msg w = Exited 0 (msg @ '': '' @ strerror S (errno S w) @ [newline])"

definition posix_error :: "'w sys \<Rightarrow> int \<Rightarrow> string \<Rightarrow> 'w \<Rightarrow> csapp_stop" where
  "posix_error S code msg w = Exited 0 (msg @ '': '' @ strerror S code @ [newline])"

definition dns_error :: "'w sys \<Rightarrow> string \<Rightarrow> 'w \<Rightarrow> csapp_stop" where
  "dns_error S msg w = Exited 0 (msg @ '': DNS error '' @ show_int (h_errno S w) @ [newline])"

definition app_error :: "'w sys \<Rightarrow> string \<Rightarrow> 'w \<Rightarrow> csapp_stop" where
  "app_error S msg w = Exited 0 (msg @ [newline])"

text \<open>The shape of the wrappers: a test of the result, and the error routine.\<close>

definition checked_with :: "('a \<Rightarrow> 'w \<Rightarrow> bool) \<Rightarrow> ('a \<Rightarrow> 'w \<Rightarrow> csapp_stop) \<Rightarrow> 'a \<times> 'w \<Rightarrow> csapp_stop + ('a \<times> 'w)" where
  "checked_with failed err r = (if failed (fst r) (snd r) then Inl (err (fst r) (snd r)) else Inr r)"

definition checked :: "('a \<Rightarrow> 'w \<Rightarrow> bool) \<Rightarrow> ('w \<Rightarrow> csapp_stop) \<Rightarrow> 'a \<times> 'w \<Rightarrow> csapp_stop + ('a \<times> 'w)" where
  "checked failed err = checked_with failed (\<lambda>_. err)"

definition map_value :: "('a \<Rightarrow> 'b) \<Rightarrow> csapp_stop + ('a \<times> 'w) \<Rightarrow> csapp_stop + ('b \<times> 'w)" where
  "map_value f m = and_then m (\<lambda>(a, w). Inr (f a, w))"

subsection \<open>Unix process control\<close>

definition Fork :: "'w sys \<Rightarrow> ('w \<Rightarrow> int \<times> 'w) \<Rightarrow> 'w \<Rightarrow> csapp_stop + (int \<times> 'w)" where
  "Fork S fork_call w =
     checked (\<lambda>rc w. rc < 0) (unix_error S ''Fork error'') (fork_call w)"

definition Execve :: "'w sys \<Rightarrow> (string \<Rightarrow> string list \<Rightarrow> string list \<Rightarrow> 'w \<Rightarrow> int \<times> 'w) \<Rightarrow> string \<Rightarrow> string list \<Rightarrow> string list \<Rightarrow> 'w \<Rightarrow> csapp_stop + (unit \<times> 'w)" where
  "Execve S execve_call filename argv envp w =
     map_value (\<lambda>_. ()) (checked (\<lambda>rc w. rc < 0) (unix_error S ''Execve error'') (execve_call filename argv envp w))"

definition Wait :: "'w sys \<Rightarrow> ('w \<Rightarrow> (int \<times> int) \<times> 'w) \<Rightarrow> 'w \<Rightarrow> csapp_stop + ((int \<times> int) \<times> 'w)" where
  "Wait S wait_call w =
     checked (\<lambda>rc w. fst rc < 0) (unix_error S ''Wait error'') (wait_call w)"

definition Waitpid :: "'w sys \<Rightarrow> (int \<Rightarrow> int \<Rightarrow> 'w \<Rightarrow> (int \<times> int) \<times> 'w) \<Rightarrow> int \<Rightarrow> int \<Rightarrow> 'w \<Rightarrow> csapp_stop + ((int \<times> int) \<times> 'w)" where
  "Waitpid S waitpid_call pid options w =
     checked (\<lambda>rc w. fst rc < 0) (unix_error S ''Waitpid error'') (waitpid_call pid options w)"

definition Kill :: "'w sys \<Rightarrow> (int \<Rightarrow> int \<Rightarrow> 'w \<Rightarrow> int \<times> 'w) \<Rightarrow> int \<Rightarrow> int \<Rightarrow> 'w \<Rightarrow> csapp_stop + (unit \<times> 'w)" where
  "Kill S kill_call pid signum w =
     map_value (\<lambda>_. ()) (checked (\<lambda>rc w. rc < 0) (unix_error S ''Kill error'') (kill_call pid signum w))"

definition Pause :: "('w \<Rightarrow> unit \<times> 'w) \<Rightarrow> 'w \<Rightarrow> csapp_stop + (unit \<times> 'w)" where
  "Pause pause_call w =
     Inr (pause_call w)"

definition Sleep :: "'w sys \<Rightarrow> (32 word \<Rightarrow> 'w \<Rightarrow> (32 word) \<times> 'w) \<Rightarrow> 32 word \<Rightarrow> 'w \<Rightarrow> csapp_stop + ((32 word) \<times> 'w)" where
  "Sleep S sleep_call secs w =
     checked (\<lambda>rc w. rc < 0) (unix_error S ''Sleep error'') (sleep_call secs w)"

definition Alarm :: "(32 word \<Rightarrow> 'w \<Rightarrow> (32 word) \<times> 'w) \<Rightarrow> 32 word \<Rightarrow> 'w \<Rightarrow> csapp_stop + ((32 word) \<times> 'w)" where
  "Alarm alarm_call seconds w =
     Inr (alarm_call seconds w)"

definition Setpgid :: "'w sys \<Rightarrow> (int \<Rightarrow> int \<Rightarrow> 'w \<Rightarrow> int \<times> 'w) \<Rightarrow> int \<Rightarrow> int \<Rightarrow> 'w \<Rightarrow> csapp_stop + (unit \<times> 'w)" where
  "Setpgid S setpgid_call pid pgid w =
     map_value (\<lambda>_. ()) (checked (\<lambda>rc w. rc < 0) (unix_error S ''Setpgid error'') (setpgid_call pid pgid w))"

definition Getpgrp :: "('w \<Rightarrow> int \<times> 'w) \<Rightarrow> 'w \<Rightarrow> csapp_stop + (int \<times> 'w)" where
  "Getpgrp getpgrp_call w =
     Inr (getpgrp_call w)"

subsection \<open>Signals\<close>

definition Signal :: "'w sys \<Rightarrow> (int \<Rightarrow> int \<Rightarrow> 'w \<Rightarrow> (int \<times> int) \<times> 'w) \<Rightarrow> int \<Rightarrow> int \<Rightarrow> 'w \<Rightarrow> csapp_stop + (int \<times> 'w)" where
  "Signal S sigaction_call signum handler w =
     map_value snd (checked (\<lambda>rc w. fst rc < 0) (unix_error S ''Signal error'') (sigaction_call signum handler w))"

definition Sigprocmask :: "'w sys \<Rightarrow> (int \<Rightarrow> int \<Rightarrow> int \<Rightarrow> 'w \<Rightarrow> int \<times> 'w) \<Rightarrow> int \<Rightarrow> int \<Rightarrow> int \<Rightarrow> 'w \<Rightarrow> csapp_stop + (unit \<times> 'w)" where
  "Sigprocmask S sigprocmask_call how sigs oldset w =
     map_value (\<lambda>_. ()) (checked (\<lambda>rc w. rc < 0) (unix_error S ''Sigprocmask error'') (sigprocmask_call how sigs oldset w))"

definition Sigemptyset :: "'w sys \<Rightarrow> (int \<Rightarrow> 'w \<Rightarrow> int \<times> 'w) \<Rightarrow> int \<Rightarrow> 'w \<Rightarrow> csapp_stop + (unit \<times> 'w)" where
  "Sigemptyset S sigemptyset_call sigs w =
     map_value (\<lambda>_. ()) (checked (\<lambda>rc w. rc < 0) (unix_error S ''Sigemptyset error'') (sigemptyset_call sigs w))"

definition Sigfillset :: "'w sys \<Rightarrow> (int \<Rightarrow> 'w \<Rightarrow> int \<times> 'w) \<Rightarrow> int \<Rightarrow> 'w \<Rightarrow> csapp_stop + (unit \<times> 'w)" where
  "Sigfillset S sigfillset_call sigs w =
     map_value (\<lambda>_. ()) (checked (\<lambda>rc w. rc < 0) (unix_error S ''Sigfillset error'') (sigfillset_call sigs w))"

definition Sigaddset :: "'w sys \<Rightarrow> (int \<Rightarrow> int \<Rightarrow> 'w \<Rightarrow> int \<times> 'w) \<Rightarrow> int \<Rightarrow> int \<Rightarrow> 'w \<Rightarrow> csapp_stop + (unit \<times> 'w)" where
  "Sigaddset S sigaddset_call sigs signum w =
     map_value (\<lambda>_. ()) (checked (\<lambda>rc w. rc < 0) (unix_error S ''Sigaddset error'') (sigaddset_call sigs signum w))"

definition Sigdelset :: "'w sys \<Rightarrow> (int \<Rightarrow> int \<Rightarrow> 'w \<Rightarrow> int \<times> 'w) \<Rightarrow> int \<Rightarrow> int \<Rightarrow> 'w \<Rightarrow> csapp_stop + (unit \<times> 'w)" where
  "Sigdelset S sigdelset_call sigs signum w =
     map_value (\<lambda>_. ()) (checked (\<lambda>rc w. rc < 0) (unix_error S ''Sigdelset error'') (sigdelset_call sigs signum w))"

definition Sigismember :: "'w sys \<Rightarrow> (int \<Rightarrow> int \<Rightarrow> 'w \<Rightarrow> int \<times> 'w) \<Rightarrow> int \<Rightarrow> int \<Rightarrow> 'w \<Rightarrow> csapp_stop + (int \<times> 'w)" where
  "Sigismember S sigismember_call sigs signum w =
     checked (\<lambda>rc w. rc < 0) (unix_error S ''Sigismember error'') (sigismember_call sigs signum w)"

subsection \<open>Unix I/O\<close>

definition Open :: "'w sys \<Rightarrow> (string \<Rightarrow> int \<Rightarrow> int \<Rightarrow> 'w \<Rightarrow> int \<times> 'w) \<Rightarrow> string \<Rightarrow> int \<Rightarrow> int \<Rightarrow> 'w \<Rightarrow> csapp_stop + (int \<times> 'w)" where
  "Open S open_call pathname flags mode w =
     checked (\<lambda>rc w. rc < 0) (unix_error S ''Open error'') (open_call pathname flags mode w)"

definition Read :: "'w sys \<Rightarrow> (int \<Rightarrow> nat \<Rightarrow> 'w \<Rightarrow> (int \<times> string) \<times> 'w) \<Rightarrow> int \<Rightarrow> nat \<Rightarrow> 'w \<Rightarrow> csapp_stop + ((int \<times> string) \<times> 'w)" where
  "Read S read_call fd count w =
     checked (\<lambda>rc w. fst rc < 0) (unix_error S ''Read error'') (read_call fd count w)"

definition Write :: "'w sys \<Rightarrow> (int \<Rightarrow> string \<Rightarrow> nat \<Rightarrow> 'w \<Rightarrow> int \<times> 'w) \<Rightarrow> int \<Rightarrow> string \<Rightarrow> nat \<Rightarrow> 'w \<Rightarrow> csapp_stop + (int \<times> 'w)" where
  "Write S write_call fd buf count w =
     checked (\<lambda>rc w. rc < 0) (unix_error S ''Write error'') (write_call fd buf count w)"

definition Lseek :: "'w sys \<Rightarrow> (int \<Rightarrow> int \<Rightarrow> int \<Rightarrow> 'w \<Rightarrow> int \<times> 'w) \<Rightarrow> int \<Rightarrow> int \<Rightarrow> int \<Rightarrow> 'w \<Rightarrow> csapp_stop + (int \<times> 'w)" where
  "Lseek S lseek_call fildes offset whence w =
     checked (\<lambda>rc w. rc < 0) (unix_error S ''Lseek error'') (lseek_call fildes offset whence w)"

definition Close :: "'w sys \<Rightarrow> (int \<Rightarrow> 'w \<Rightarrow> int \<times> 'w) \<Rightarrow> int \<Rightarrow> 'w \<Rightarrow> csapp_stop + (unit \<times> 'w)" where
  "Close S close_call fd w =
     map_value (\<lambda>_. ()) (checked (\<lambda>rc w. rc < 0) (unix_error S ''Close error'') (close_call fd w))"

definition Select :: "'w sys \<Rightarrow> (int \<Rightarrow> int \<Rightarrow> int \<Rightarrow> int \<Rightarrow> int \<Rightarrow> 'w \<Rightarrow> int \<times> 'w) \<Rightarrow> int \<Rightarrow> int \<Rightarrow> int \<Rightarrow> int \<Rightarrow> int \<Rightarrow> 'w \<Rightarrow> csapp_stop + (int \<times> 'w)" where
  "Select S select_call n readfds writefds exceptfds timeout w =
     checked (\<lambda>rc w. rc < 0) (unix_error S ''Select error'') (select_call n readfds writefds exceptfds timeout w)"

definition Dup2 :: "'w sys \<Rightarrow> (int \<Rightarrow> int \<Rightarrow> 'w \<Rightarrow> int \<times> 'w) \<Rightarrow> int \<Rightarrow> int \<Rightarrow> 'w \<Rightarrow> csapp_stop + (int \<times> 'w)" where
  "Dup2 S dup2_call fd1 fd2 w =
     checked (\<lambda>rc w. rc < 0) (unix_error S ''Dup2 error'') (dup2_call fd1 fd2 w)"

definition Stat :: "'w sys \<Rightarrow> (string \<Rightarrow> int \<Rightarrow> 'w \<Rightarrow> int \<times> 'w) \<Rightarrow> string \<Rightarrow> int \<Rightarrow> 'w \<Rightarrow> csapp_stop + (unit \<times> 'w)" where
  "Stat S stat_call filename buf w =
     map_value (\<lambda>_. ()) (checked (\<lambda>rc w. rc < 0) (unix_error S ''Stat error'') (stat_call filename buf w))"

definition Fstat :: "'w sys \<Rightarrow> (int \<Rightarrow> int \<Rightarrow> 'w \<Rightarrow> int \<times> 'w) \<Rightarrow> int \<Rightarrow> int \<Rightarrow> 'w \<Rightarrow> csapp_stop + (unit \<times> 'w)" where
  "Fstat S fstat_call fd buf w =
     map_value (\<lambda>_. ()) (checked (\<lambda>rc w. rc < 0) (unix_error S ''Fstat error'') (fstat_call fd buf w))"

subsection \<open>Memory\<close>

definition Mmap :: "'w sys \<Rightarrow> (int \<Rightarrow> nat \<Rightarrow> int \<Rightarrow> int \<Rightarrow> int \<Rightarrow> int \<Rightarrow> 'w \<Rightarrow> int \<times> 'w) \<Rightarrow> int \<Rightarrow> nat \<Rightarrow> int \<Rightarrow> int \<Rightarrow> int \<Rightarrow> int \<Rightarrow> 'w \<Rightarrow> csapp_stop + (int \<times> 'w)" where
  "Mmap S mmap_call addr len prot flags fd off w =
     checked (\<lambda>ptr w. ptr = -1) (unix_error S ''mmap error'') (mmap_call addr len prot flags fd off w)"

definition Munmap :: "'w sys \<Rightarrow> (int \<Rightarrow> nat \<Rightarrow> 'w \<Rightarrow> int \<times> 'w) \<Rightarrow> int \<Rightarrow> nat \<Rightarrow> 'w \<Rightarrow> csapp_stop + (unit \<times> 'w)" where
  "Munmap S munmap_call start len w =
     map_value (\<lambda>_. ()) (checked (\<lambda>rc w. rc < 0) (unix_error S ''munmap error'') (munmap_call start len w))"

definition Malloc :: "'w sys \<Rightarrow> (nat \<Rightarrow> 'w \<Rightarrow> int \<times> 'w) \<Rightarrow> nat \<Rightarrow> 'w \<Rightarrow> csapp_stop + (int \<times> 'w)" where
  "Malloc S malloc_call sz w =
     checked (\<lambda>p w. p = NULL) (unix_error S ''Malloc error'') (malloc_call sz w)"

definition Realloc :: "'w sys \<Rightarrow> (int \<Rightarrow> nat \<Rightarrow> 'w \<Rightarrow> int \<times> 'w) \<Rightarrow> int \<Rightarrow> nat \<Rightarrow> 'w \<Rightarrow> csapp_stop + (int \<times> 'w)" where
  "Realloc S realloc_call ptr sz w =
     checked (\<lambda>p w. p = NULL) (unix_error S ''Realloc error'') (realloc_call ptr sz w)"

definition Calloc :: "'w sys \<Rightarrow> (nat \<Rightarrow> nat \<Rightarrow> 'w \<Rightarrow> int \<times> 'w) \<Rightarrow> nat \<Rightarrow> nat \<Rightarrow> 'w \<Rightarrow> csapp_stop + (int \<times> 'w)" where
  "Calloc S calloc_call nmemb sz w =
     checked (\<lambda>p w. p = NULL) (unix_error S ''Calloc error'') (calloc_call nmemb sz w)"

definition Free :: "(int \<Rightarrow> 'w \<Rightarrow> unit \<times> 'w) \<Rightarrow> int \<Rightarrow> 'w \<Rightarrow> csapp_stop + (unit \<times> 'w)" where
  "Free free_call ptr w =
     Inr (free_call ptr w)"

subsection \<open>Standard I/O\<close>

definition Fclose :: "'w sys \<Rightarrow> (int \<Rightarrow> 'w \<Rightarrow> int \<times> 'w) \<Rightarrow> int \<Rightarrow> 'w \<Rightarrow> csapp_stop + (unit \<times> 'w)" where
  "Fclose S fclose_call fp w =
     map_value (\<lambda>_. ()) (checked (\<lambda>rc w. rc \<noteq> 0) (unix_error S ''Fclose error'') (fclose_call fp w))"

definition Fdopen :: "'w sys \<Rightarrow> (int \<Rightarrow> string \<Rightarrow> 'w \<Rightarrow> int \<times> 'w) \<Rightarrow> int \<Rightarrow> string \<Rightarrow> 'w \<Rightarrow> csapp_stop + (int \<times> 'w)" where
  "Fdopen S fdopen_call fd type w =
     checked (\<lambda>p w. p = NULL) (unix_error S ''Fdopen error'') (fdopen_call fd type w)"

definition Fgets :: "'w sys \<Rightarrow> (nat \<Rightarrow> int \<Rightarrow> 'w \<Rightarrow> (string option) \<times> 'w) \<Rightarrow> nat \<Rightarrow> int \<Rightarrow> 'w \<Rightarrow> csapp_stop + ((string option) \<times> 'w)" where
  "Fgets S fgets_call n fp w =
     checked (\<lambda>rptr w. rptr = None \<and> ferror S fp w) (app_error S ''Fgets error'') (fgets_call n fp w)"

definition Fopen :: "'w sys \<Rightarrow> (string \<Rightarrow> string \<Rightarrow> 'w \<Rightarrow> int \<times> 'w) \<Rightarrow> string \<Rightarrow> string \<Rightarrow> 'w \<Rightarrow> csapp_stop + (int \<times> 'w)" where
  "Fopen S fopen_call filename mode w =
     checked (\<lambda>p w. p = NULL) (unix_error S ''Fopen error'') (fopen_call filename mode w)"

definition Fputs :: "'w sys \<Rightarrow> (string \<Rightarrow> int \<Rightarrow> 'w \<Rightarrow> int \<times> 'w) \<Rightarrow> string \<Rightarrow> int \<Rightarrow> 'w \<Rightarrow> csapp_stop + (unit \<times> 'w)" where
  "Fputs S fputs_call ptr fp w =
     map_value (\<lambda>_. ()) (checked (\<lambda>rc w. rc = EOF) (unix_error S ''Fputs error'') (fputs_call ptr fp w))"

definition Fread :: "'w sys \<Rightarrow> (nat \<Rightarrow> nat \<Rightarrow> int \<Rightarrow> 'w \<Rightarrow> (nat \<times> string) \<times> 'w) \<Rightarrow> nat \<Rightarrow> nat \<Rightarrow> int \<Rightarrow> 'w \<Rightarrow> csapp_stop + ((nat \<times> string) \<times> 'w)" where
  "Fread S fread_call sz nmemb fp w =
     checked (\<lambda>n w. fst n < nmemb \<and> ferror S fp w) (unix_error S ''Fread error'') (fread_call sz nmemb fp w)"

definition Fwrite :: "'w sys \<Rightarrow> (string \<Rightarrow> nat \<Rightarrow> nat \<Rightarrow> int \<Rightarrow> 'w \<Rightarrow> nat \<times> 'w) \<Rightarrow> string \<Rightarrow> nat \<Rightarrow> nat \<Rightarrow> int \<Rightarrow> 'w \<Rightarrow> csapp_stop + (unit \<times> 'w)" where
  "Fwrite S fwrite_call ptr sz nmemb fp w =
     map_value (\<lambda>_. ()) (checked (\<lambda>n w. n < nmemb) (unix_error S ''Fwrite error'') (fwrite_call ptr sz nmemb fp w))"

subsection \<open>Sockets\<close>

definition Socket :: "'w sys \<Rightarrow> (int \<Rightarrow> int \<Rightarrow> int \<Rightarrow> 'w \<Rightarrow> int \<times> 'w) \<Rightarrow> int \<Rightarrow> int \<Rightarrow> int \<Rightarrow> 'w \<Rightarrow> csapp_stop + (int \<times> 'w)" where
  "Socket S socket_call domain type protocol w =
     checked (\<lambda>rc w. rc < 0) (unix_error S ''Socket error'') (socket_call domain type protocol w)"

definition Setsockopt :: "'w sys \<Rightarrow> (int \<Rightarrow> int \<Rightarrow> int \<Rightarrow> int \<Rightarrow> int \<Rightarrow> 'w \<Rightarrow> int \<times> 'w) \<Rightarrow> int \<Rightarrow> int \<Rightarrow> int \<Rightarrow> int \<Rightarrow> int \<Rightarrow> 'w \<Rightarrow> csapp_stop + (unit \<times> 'w)" where
  "Setsockopt S setsockopt_call s level optname optval optlen w =
     map_value (\<lambda>_. ()) (checked (\<lambda>rc w. rc < 0) (unix_error S ''Setsockopt error'') (setsockopt_call s level optname optval optlen w))"

definition Bind :: "'w sys \<Rightarrow> (int \<Rightarrow> sockaddr_in \<Rightarrow> int \<Rightarrow> 'w \<Rightarrow> int \<times> 'w) \<Rightarrow> int \<Rightarrow> sockaddr_in \<Rightarrow> int \<Rightarrow> 'w \<Rightarrow> csapp_stop + (unit \<times> 'w)" where
  "Bind S bind_call sockfd my_addr addrlen w =
     map_value (\<lambda>_. ()) (checked (\<lambda>rc w. rc < 0) (unix_error S ''Bind error'') (bind_call sockfd my_addr addrlen w))"

definition Listen :: "'w sys \<Rightarrow> (int \<Rightarrow> int \<Rightarrow> 'w \<Rightarrow> int \<times> 'w) \<Rightarrow> int \<Rightarrow> int \<Rightarrow> 'w \<Rightarrow> csapp_stop + (unit \<times> 'w)" where
  "Listen S listen_call s backlog w =
     map_value (\<lambda>_. ()) (checked (\<lambda>rc w. rc < 0) (unix_error S ''Listen error'') (listen_call s backlog w))"

definition Accept :: "'w sys \<Rightarrow> (int \<Rightarrow> 'w \<Rightarrow> (int \<times> sockaddr_in) \<times> 'w) \<Rightarrow> int \<Rightarrow> 'w \<Rightarrow> csapp_stop + ((int \<times> sockaddr_in) \<times> 'w)" where
  "Accept S accept_call s w =
     checked (\<lambda>rc w. fst rc < 0) (unix_error S ''Accept error'') (accept_call s w)"

definition Connect :: "'w sys \<Rightarrow> (int \<Rightarrow> sockaddr_in \<Rightarrow> int \<Rightarrow> 'w \<Rightarrow> int \<times> 'w) \<Rightarrow> int \<Rightarrow> sockaddr_in \<Rightarrow> int \<Rightarrow> 'w \<Rightarrow> csapp_stop + (unit \<times> 'w)" where
  "Connect S connect_call sockfd serv_addr addrlen w =
     map_value (\<lambda>_. ()) (checked (\<lambda>rc w. rc < 0) (unix_error S ''Connect error'') (connect_call sockfd serv_addr addrlen w))"

definition Gethostbyname :: "'w sys \<Rightarrow> (string \<Rightarrow> 'w \<Rightarrow> (hostent option) \<times> 'w) \<Rightarrow> string \<Rightarrow> 'w \<Rightarrow> csapp_stop + ((hostent option) \<times> 'w)" where
  "Gethostbyname S gethostbyname_call name w =
     checked (\<lambda>p w. p = None) (dns_error S ''Gethostbyname error'') (gethostbyname_call name w)"

definition Gethostbyaddr :: "'w sys \<Rightarrow> (32 word \<Rightarrow> int \<Rightarrow> int \<Rightarrow> 'w \<Rightarrow> (hostent option) \<times> 'w) \<Rightarrow> 32 word \<Rightarrow> int \<Rightarrow> int \<Rightarrow> 'w \<Rightarrow> csapp_stop + ((hostent option) \<times> 'w)" where
  "Gethostbyaddr S gethostbyaddr_call addr len type w =
     checked (\<lambda>p w. p = None) (dns_error S ''Gethostbyaddr error'') (gethostbyaddr_call addr len type w)"

subsection \<open>Threads and semaphores\<close>

definition Pthread_create :: "'w sys \<Rightarrow> (int \<Rightarrow> int \<Rightarrow> int \<Rightarrow> int \<Rightarrow> 'w \<Rightarrow> int \<times> 'w) \<Rightarrow> int \<Rightarrow> int \<Rightarrow> int \<Rightarrow> int \<Rightarrow> 'w \<Rightarrow> csapp_stop + (unit \<times> 'w)" where
  "Pthread_create S pthread_create_call tidp attrp routine argp w =
     map_value (\<lambda>_. ()) (checked_with (\<lambda>rc w. rc \<noteq> 0) (\<lambda>rc. posix_error S rc ''Pthread_create error'') (pthread_create_call tidp attrp routine argp w))"

definition Pthread_cancel :: "'w sys \<Rightarrow> (int \<Rightarrow> 'w \<Rightarrow> int \<times> 'w) \<Rightarrow> int \<Rightarrow> 'w \<Rightarrow> csapp_stop + (unit \<times> 'w)" where
  "Pthread_cancel S pthread_cancel_call tid w =
     map_value (\<lambda>_. ()) (checked_with (\<lambda>rc w. rc \<noteq> 0) (\<lambda>rc. posix_error S rc ''Pthread_cancel error'') (pthread_cancel_call tid w))"

definition Pthread_join :: "'w sys \<Rightarrow> (int \<Rightarrow> int \<Rightarrow> 'w \<Rightarrow> int \<times> 'w) \<Rightarrow> int \<Rightarrow> int \<Rightarrow> 'w \<Rightarrow> csapp_stop + (unit \<times> 'w)" where
  "Pthread_join S pthread_join_call tid thread_return w =
     map_value (\<lambda>_. ()) (checked_with (\<lambda>rc w. rc \<noteq> 0) (\<lambda>rc. posix_error S rc ''Pthread_join error'') (pthread_join_call tid thread_return w))"

definition Pthread_detach :: "'w sys \<Rightarrow> (int \<Rightarrow> 'w \<Rightarrow> int \<times> 'w) \<Rightarrow> int \<Rightarrow> 'w \<Rightarrow> csapp_stop + (unit \<times> 'w)" where
  "Pthread_detach S pthread_detach_call tid w =
     map_value (\<lambda>_. ()) (checked_with (\<lambda>rc w. rc \<noteq> 0) (\<lambda>rc. posix_error S rc ''Pthread_detach error'') (pthread_detach_call tid w))"

definition Pthread_exit :: "(int \<Rightarrow> 'w \<Rightarrow> unit \<times> 'w) \<Rightarrow> int \<Rightarrow> 'w \<Rightarrow> csapp_stop + (unit \<times> 'w)" where
  "Pthread_exit pthread_exit_call retval w =
     Inr (pthread_exit_call retval w)"

definition Pthread_self :: "('w \<Rightarrow> int \<times> 'w) \<Rightarrow> 'w \<Rightarrow> csapp_stop + (int \<times> 'w)" where
  "Pthread_self pthread_self_call w =
     Inr (pthread_self_call w)"

definition Pthread_once :: "(int \<Rightarrow> int \<Rightarrow> 'w \<Rightarrow> unit \<times> 'w) \<Rightarrow> int \<Rightarrow> int \<Rightarrow> 'w \<Rightarrow> csapp_stop + (unit \<times> 'w)" where
  "Pthread_once pthread_once_call once_control init_function w =
     Inr (pthread_once_call once_control init_function w)"

definition Sem_init :: "'w sys \<Rightarrow> (int \<Rightarrow> int \<Rightarrow> 32 word \<Rightarrow> 'w \<Rightarrow> int \<times> 'w) \<Rightarrow> int \<Rightarrow> int \<Rightarrow> 32 word \<Rightarrow> 'w \<Rightarrow> csapp_stop + (unit \<times> 'w)" where
  "Sem_init S sem_init_call sem pshared value w =
     map_value (\<lambda>_. ()) (checked (\<lambda>rc w. rc < 0) (unix_error S ''Sem_init error'') (sem_init_call sem pshared value w))"

subsection \<open>What the tests tell\<close>

lemma checked_simps [simp]:
  "checked failed err (a, w) = (if failed a w then Inl (err w) else Inr (a, w))"
  "checked_with failed err' (a, w) = (if failed a w then Inl (err' a w) else Inr (a, w))"
  "map_value f (Inr (a, w)) = Inr (f a, w)" "map_value f (Inl e) = Inl e"
  by (simp_all add: checked_def checked_with_def map_value_def)

text \<open>\<^verbatim>\<open>sleep\<close> returns an unsigned number, which is never below 0: the test of \<^verbatim>\<open>Sleep\<close> does nothing.\<close>

lemma Sleep_never_fails: "Sleep S sleep_call secs w = Inr (sleep_call secs w)"
  by (cases "sleep_call secs w") (simp add: Sleep_def)

end
