(* ===== verification/EchoServer.thy ===== *)
theory EchoServer
  imports Wrappers "HOL-Library.Multiset"
begin

text \<open>
  The concurrent echo server (\<^verbatim>\<open>proxylab/echoservert.c\<close>): the accept loop of \<^verbatim>\<open>main\<close>, which passes each
  thread its descriptor in a cell of its own, and the threads, which share the byte count of \<^verbatim>\<open>echo.c\<close>
  without a lock. What the system answers in one turn of the accept loop is an \<open>outcome\<close>. A thread's
  reading of the count, its addition and its report are steps that other threads' steps can come
  between; the lines of connection \<open>fd\<close> are given by what \<^verbatim>\<open>Rio_readlineb\<close> returns for them, the list
  \<open>input fd\<close>. An error of a wrapper ends the whole process.
\<close>

datatype thread_phase =
    Starting int                       \<comment> \<open>with its argument \<^verbatim>\<open>vargp\<close>\<close>
  | Detaching int int                  \<comment> \<open>\<^verbatim>\<open>connfd\<close> is read\<close>
  | Freeing int int
  | Serving int "int list"             \<comment> \<open>in the loop of \<^verbatim>\<open>echo\<close>, with the lines to come\<close>
  | Adding int int int "int list"      \<comment> \<open>\<^verbatim>\<open>bytecnt\<close> was loaded, \<open>n\<close> is to be added\<close>
  | Reporting int int "int list"       \<comment> \<open>the sum is stored\<close>
  | Closed int

record server =
  cells :: "int \<rightharpoonup> int"                \<comment> \<open>what \<^verbatim>\<open>malloc\<close> has given out\<close>
  threads :: "thread_phase list"
  bytecnt :: int
  total_out :: "(int \<times> int) list"      \<comment> \<open>the reports of \<^verbatim>\<open>echo\<close>\<close>
  s_out :: string
  stopped :: "csapp_stop option"
  accepted :: "int list"               \<comment> \<open>the connections that threads were created for\<close>
  received :: int                      \<comment> \<open>the sum of the \<open>n\<close> that were added\<close>

record outcome =
  o_malloc :: int
  o_accept :: "int \<times> sockaddr_in"
  o_host :: "hostent option"
  o_create :: int

definition AF_INET :: int where "AF_INET = 2"

text \<open>\<^verbatim>\<open>inet_ntoa\<close> of an address in network order, on a little-endian machine.\<close>

definition inet_ntoa :: "32 word \<Rightarrow> string" where
  "inet_ntoa a =
     show_int (uint (a AND 0xFF)) @ ''.'' @ show_int (uint (drop_bit 8 a AND 0xFF)) @ ''.'' @
     show_int (uint (drop_bit 16 a AND 0xFF)) @ ''.'' @ show_int (uint (drop_bit 24 a AND 0xFF))"

subsection \<open>The accept loop\<close>

definition malloc_call :: "outcome \<Rightarrow> nat \<Rightarrow> server \<Rightarrow> int \<times> server" where
  "malloc_call o1 sz s =
     (o_malloc o1, if o_malloc o1 = NULL then s else s\<lparr>cells := (cells s)(o_malloc o1 \<mapsto> 0)\<rparr>)"

definition accept_call :: "outcome \<Rightarrow> int \<Rightarrow> server \<Rightarrow> (int \<times> sockaddr_in) \<times> server" where
  "accept_call o1 listenfd s = (o_accept o1, s)"

definition gethostbyaddr_call :: "outcome \<Rightarrow> 32 word \<Rightarrow> int \<Rightarrow> int \<Rightarrow> server \<Rightarrow> hostent option \<times> server" where
  "gethostbyaddr_call o1 addr len ty s = (o_host o1, s)"

definition create_call :: "outcome \<Rightarrow> int \<Rightarrow> int \<Rightarrow> int \<Rightarrow> int \<Rightarrow> server \<Rightarrow> int \<times> server" where
  "create_call o1 tidp attrp routine argp s =
     (o_create o1, if o_create o1 = 0 then s\<lparr>threads := threads s @ [Starting argp]\<rparr> else s)"

definition connected_line :: "hostent option \<Rightarrow> sockaddr_in \<Rightarrow> string" where
  "connected_line hp addr =
     ''Server connected to '' @ (case hp of None \<Rightarrow> '''' | Some h \<Rightarrow> h_name h) @ '' ('' @ inet_ntoa (sin_addr addr) @
     ''), port '' @ show_int (uint (ntohs (sin_port addr))) @ [newline]"

definition accept_turn :: "server sys \<Rightarrow> outcome \<Rightarrow> int \<Rightarrow> server \<Rightarrow> csapp_stop + server" where
  "accept_turn S o1 listenfd s =
     and_then (Malloc S (malloc_call o1) 4 s) (\<lambda>(connfdp, s).
     and_then (Accept S (accept_call o1) listenfd s) (\<lambda>((connfd, clientaddr), s).
       let s = s\<lparr>cells := (cells s)(connfdp \<mapsto> connfd)\<rparr> in
     and_then (Gethostbyaddr S (gethostbyaddr_call o1) (sin_addr clientaddr) 4 AF_INET s) (\<lambda>(hp, s).
       let s = s\<lparr>s_out := s_out s @ connected_line hp clientaddr\<rparr> in
     and_then (Pthread_create S (create_call o1) 0 NULL 0 connfdp s) (\<lambda>(_, s).
       Inr (s\<lparr>accepted := accepted s @ [connfd]\<rparr>)))))"

text \<open>\<^verbatim>\<open>main\<close> up to the loop: the port is read without a test that there is one.\<close>

definition server_start :: server where
  "server_start = \<lparr>cells = Map.empty, threads = [], bytecnt = 0, total_out = [], s_out = '''', stopped = None,
     accepted = [], received = 0\<rparr>"

definition server_listen :: "'w net \<Rightarrow> string list \<Rightarrow> 'w \<Rightarrow> (net_stop + (int \<times> 'w)) option" where
  "server_listen N argv w =
     (case argv of
        _ # port # _ \<Rightarrow> Some (Open_listenfd N (atoi port) w)
      | _ \<Rightarrow> None)"   \<comment> \<open>\<^verbatim>\<open>atoi(NULL)\<close>\<close>

subsection \<open>Threads\<close>

text \<open>\<^verbatim>\<open>pthread_self\<close> gives a number that the model leaves open.\<close>

definition served_line :: "nat \<Rightarrow> string" where
  "served_line tid = ''Served by thread '' @ show_nat tid @ [newline]"

inductive echo_thread :: "server sys \<Rightarrow> (int \<Rightarrow> int list) \<Rightarrow> thread_phase \<Rightarrow> server \<Rightarrow> thread_phase \<Rightarrow> server \<Rightarrow> bool"
  for S input where
  read_arg: "cells s a = Some connfd \<Longrightarrow> echo_thread S input (Starting a) s (Detaching a connfd) s"
| detach: "Pthread_detach S (\<lambda>tid s. (0, s)) tid s = Inr ((), s') \<Longrightarrow>
    echo_thread S input (Detaching a connfd) s (Freeing a connfd) s'"
| detach_fails: "rc \<noteq> 0 \<Longrightarrow> Pthread_detach S (\<lambda>tid s. (rc, s)) tid s = Inl e \<Longrightarrow>
    echo_thread S input (Detaching a connfd) s (Detaching a connfd) (s\<lparr>stopped := Some e\<rparr>)"
| free: "Free (\<lambda>p s. ((), s\<lparr>cells := (cells s)(p := None)\<rparr>)) a s = Inr ((), s') \<Longrightarrow>
    echo_thread S input (Freeing a connfd) s (Serving connfd (input connfd)) (s'\<lparr>s_out := s_out s' @ served_line tid\<rparr>)"
| load: "echo_thread S input (Serving connfd (n # ns)) s (Adding connfd (bytecnt s) n ns) s"
| store: "echo_thread S input (Adding connfd m n ns) s (Reporting connfd n ns)
    (s\<lparr>bytecnt := s32 (m + n), received := received s + n\<rparr>)"
| report: "echo_thread S input (Reporting connfd n ns) s (Serving connfd ns) (s\<lparr>total_out := total_out s @ [(n, bytecnt s)]\<rparr>)"
| read_fails: "echo_thread S input (Serving connfd ns) s (Serving connfd ns)
    (s\<lparr>stopped := Some (unix_error S ''Rio_readlineb error'' s)\<rparr>)"
| write_fails: "echo_thread S input (Reporting connfd n ns) s (Reporting connfd n ns)
    (s\<lparr>stopped := Some (unix_error S ''Rio_writen error'' s)\<rparr>)"
| close: "Close S (\<lambda>fd s. (0, s)) connfd s = Inr ((), s') \<Longrightarrow>
    echo_thread S input (Serving connfd []) s (Closed connfd) s'"
| close_fails: "rc < 0 \<Longrightarrow> Close S (\<lambda>fd s. (rc, s)) connfd s = Inl e \<Longrightarrow>
    echo_thread S input (Serving connfd []) s (Serving connfd []) (s\<lparr>stopped := Some e\<rparr>)"

text \<open>The process: one turn of the accept loop, where \<^verbatim>\<open>malloc\<close> gives no cell that is in use, or a step of a
  thread. The threads are kept in the state.\<close>

inductive server_step :: "server sys \<Rightarrow> (int \<Rightarrow> int list) \<Rightarrow> int \<Rightarrow> server \<Rightarrow> server \<Rightarrow> bool" for S input listenfd where
  accept: "stopped s = None \<Longrightarrow> o_malloc o1 \<notin> dom (cells s) \<Longrightarrow> accept_turn S o1 listenfd s = Inr s' \<Longrightarrow>
    server_step S input listenfd s s'"
| accept_fails: "stopped s = None \<Longrightarrow> accept_turn S o1 listenfd s = Inl e \<Longrightarrow>
    server_step S input listenfd s (s\<lparr>stopped := Some e\<rparr>)"
| thread: "stopped s = None \<Longrightarrow> i < length (threads s) \<Longrightarrow> echo_thread S input (threads s ! i) s t' s' \<Longrightarrow>
    server_step S input listenfd s (s'\<lparr>threads := (threads s')[i := t']\<rparr>)"

end
