(* ===== verification/EchoServerProps.thy ===== *)
theory EchoServerProps
  imports EchoServer
begin

text \<open>
  What holds of the concurrent echo server under every interleaving: every accepted connection is
  served by one thread, which reads its argument before it frees it; the shared byte count never runs
  ahead of what was received, but falls behind it when two threads add at the same time.
\<close>

lemma accept_turn_Inr:
  assumes "accept_turn S o1 listenfd s = Inr s'"
  shows "o_malloc o1 \<noteq> 0" "o_create o1 = 0"
    "s' = s\<lparr>cells := (cells s)(o_malloc o1 \<mapsto> fst (o_accept o1)), s_out := s_out s @ connected_line (o_host o1) (snd (o_accept o1)),
       threads := threads s @ [Starting (o_malloc o1)], accepted := accepted s @ [fst (o_accept o1)]\<rparr>"
proof -
  obtain fd addr where a: "o_accept o1 = (fd, addr)" by fastforce
  have "o_malloc o1 \<noteq> 0 \<and> o_create o1 = 0 \<and>
    s' = s\<lparr>cells := (cells s)(o_malloc o1 \<mapsto> fst (o_accept o1)), s_out := s_out s @ connected_line (o_host o1) (snd (o_accept o1)),
       threads := threads s @ [Starting (o_malloc o1)], accepted := accepted s @ [fst (o_accept o1)]\<rparr>"
    using assms
    by (auto simp: accept_turn_def Malloc_def Accept_def Gethostbyaddr_def Pthread_create_def malloc_call_def accept_call_def
        gethostbyaddr_call_def create_call_def a Let_def split: if_splits)
  then show "o_malloc o1 \<noteq> 0" "o_create o1 = 0"
    "s' = s\<lparr>cells := (cells s)(o_malloc o1 \<mapsto> fst (o_accept o1)), s_out := s_out s @ connected_line (o_host o1) (snd (o_accept o1)),
       threads := threads s @ [Starting (o_malloc o1)], accepted := accepted s @ [fst (o_accept o1)]\<rparr>"
    by blast+
qed

subsection \<open>The invariant\<close>

fun cell_of :: "thread_phase \<Rightarrow> int list" where
  "cell_of (Starting a) = [a]"
| "cell_of (Detaching a fd) = [a]"
| "cell_of (Freeing a fd) = [a]"
| "cell_of t = []"

text \<open>The connection that a thread serves, or will serve.\<close>

fun connection :: "(int \<rightharpoonup> int) \<Rightarrow> thread_phase \<Rightarrow> int" where
  "connection c (Starting a) = (case c a of Some fd \<Rightarrow> fd | None \<Rightarrow> -1)"
| "connection c (Detaching a fd) = fd"
| "connection c (Freeing a fd) = fd"
| "connection c (Serving fd ns) = fd"
| "connection c (Adding fd m n ns) = fd"
| "connection c (Reporting fd n ns) = fd"
| "connection c (Closed fd) = fd"

fun rest_of :: "(int \<Rightarrow> int list) \<Rightarrow> (int \<rightharpoonup> int) \<Rightarrow> thread_phase \<Rightarrow> int list" where
  "rest_of input c (Serving fd ns) = ns"
| "rest_of input c (Adding fd m n ns) = n # ns"
| "rest_of input c (Reporting fd n ns) = ns"
| "rest_of input c (Closed fd) = []"
| "rest_of input c t = input (connection c t)"

fun thread_ok :: "server \<Rightarrow> thread_phase \<Rightarrow> bool" where
  "thread_ok s (Starting a) = (cells s a \<noteq> None)"
| "thread_ok s (Detaching a fd) = (cells s a = Some fd)"
| "thread_ok s (Freeing a fd) = (cells s a = Some fd)"
| "thread_ok s (Adding fd m n ns) = (received s \<le> 2147483647 \<longrightarrow> 0 \<le> m \<and> m \<le> received s)"
| "thread_ok s t = True"

definition server_inv :: "(int \<Rightarrow> int list) \<Rightarrow> server \<Rightarrow> bool" where
  "server_inv input s \<longleftrightarrow>
     distinct (concat (map cell_of (threads s))) \<and> dom (cells s) = set (concat (map cell_of (threads s))) \<and>
     accepted s = map (connection (cells s)) (threads s) \<and>
     (\<forall>t \<in> set (threads s). thread_ok s t \<and> (\<forall>n \<in> set (rest_of input (cells s) t). 0 < n)) \<and>
     received s + sum_list (map (\<lambda>t. sum_list (rest_of input (cells s) t)) (threads s)) =
       sum_list (map (\<lambda>fd. sum_list (input fd)) (accepted s)) \<and>
     0 \<le> received s \<and> (received s \<le> 2147483647 \<longrightarrow> 0 \<le> bytecnt s \<and> bytecnt s \<le> received s)"

lemma other_cell:
  assumes "distinct (concat (map cell_of (xs @ t # ys)))" "u \<in> set xs \<union> set ys" "a \<in> set (cell_of t)"
  shows "a \<notin> set (cell_of u)"
proof -
  have "set (cell_of t) \<inter> set (concat (map cell_of xs)) = {}" "set (cell_of t) \<inter> set (concat (map cell_of ys)) = {}"
    using assms(1) by (simp_all only: map_append concat_append distinct_append list.map concat.simps set_append) blast+
  moreover have "set (cell_of u) \<subseteq> set (concat (map cell_of xs)) \<union> set (concat (map cell_of ys))" using assms(2) by auto
  ultimately show ?thesis using assms(3) by blast
qed

lemma cell_free_maps:
  assumes "a \<notin> set (cell_of u)"
  shows "connection (c(a := x)) u = connection c u" "rest_of input (c(a := x)) u = rest_of input c u"
    "cells s' = (cells s)(a := x) \<Longrightarrow> received s' = received s \<Longrightarrow> thread_ok s' u = thread_ok s u"
  using assms by (cases u; auto)+

lemma inv_accept:
  assumes inv: "server_inv input s" and pos: "\<forall>fd. \<forall>n \<in> set (input fd). 0 < n"
    and new: "o_malloc o1 \<notin> dom (cells s)" and acc: "accept_turn S o1 listenfd s = Inr s'"
  shows "server_inv input s'"
proof -
  note a = accept_turn_Inr [OF acc]
  let ?a = "o_malloc o1" and ?fd = "fst (o_accept o1)"
  have free: "?a \<notin> set (cell_of u)" if "u \<in> set (threads s)" for u using inv new that by (auto simp: server_inv_def)
  note m = cell_free_maps(1,2) [OF free] and ok = cell_free_maps(3) [OF free, of _ s' s "Some ?fd"]
  have acc': "map (connection (cells s')) (threads s') = accepted s @ [?fd]"
    using inv m(1) by (simp add: a(3) server_inv_def)
  have rest: "map (\<lambda>t. sum_list (rest_of input (cells s') t)) (threads s') =
      map (\<lambda>t. sum_list (rest_of input (cells s) t)) (threads s) @ [sum_list (input ?fd)]"
    using m(2) by (simp add: a(3))
  have thr: "\<forall>t \<in> set (threads s'). thread_ok s' t \<and> (\<forall>n \<in> set (rest_of input (cells s') t). 0 < n)"
    using inv ok m(2) pos by (auto simp: a(3) server_inv_def)
  have "distinct (concat (map cell_of (threads s')))" "dom (cells s') = set (concat (map cell_of (threads s')))"
    using inv new free by (auto simp: a(3) server_inv_def)
  moreover have "received s' = received s" "bytecnt s' = bytecnt s" "accepted s' = accepted s @ [?fd]"
    by (simp_all add: a(3))
  moreover have "received s + sum_list (map (\<lambda>t. sum_list (rest_of input (cells s') t)) (threads s')) =
      sum_list (map (\<lambda>fd. sum_list (input fd)) (accepted s @ [?fd]))"
    using inv by (simp add: rest server_inv_def)
  ultimately show ?thesis using inv acc' thr unfolding server_inv_def by simp
qed

text \<open>A step of a thread that leaves the cells alone and keeps what the thread stands for.\<close>

lemma inv_local:
  assumes inv: "server_inv input s" and ts: "threads s = xs @ t # ys"
    and c: "cells s' = cells s" "threads s' = threads s" "accepted s' = accepted s"
    and t: "cell_of t' = cell_of t" "connection (cells s) t' = connection (cells s) t"
      "received s' + sum_list (rest_of input (cells s) t') = received s + sum_list (rest_of input (cells s) t)"
      "set (rest_of input (cells s) t') \<subseteq> set (rest_of input (cells s) t)" "thread_ok s' t'"
    and r: "received s \<le> received s'" "received s' \<le> 2147483647 \<Longrightarrow> 0 \<le> bytecnt s' \<and> bytecnt s' \<le> received s'"
  shows "server_inv input (s'\<lparr>threads := xs @ t' # ys\<rparr>)"
proof -
  have ok: "thread_ok s' u" if "thread_ok s u" for u using that c r(1) by (cases u) auto
  have ok': "thread_ok (s'\<lparr>threads := ts\<rparr>) u = thread_ok s' u" for u ts by (cases u) auto
  show ?thesis
    using inv c t r ok by (auto simp: server_inv_def ts ok')
qed

lemma inv_thread:
  assumes inv: "server_inv input s" and pos: "\<forall>fd. \<forall>n \<in> set (input fd). 0 < n"
    and i: "i < length (threads s)" and step: "echo_thread S input (threads s ! i) s t' s'"
  shows "server_inv input (s'\<lparr>threads := (threads s')[i := t']\<rparr>)"
proof -
  define xs ys t where "xs = take i (threads s)" and "ys = drop (Suc i) (threads s)" and "t = threads s ! i"
  have ts: "threads s = xs @ t # ys" using i by (simp add: xs_def ys_def t_def id_take_nth_drop [symmetric])
  have upd: "(threads s)[i := u] = xs @ u # ys" for u using i by (simp add: xs_def ys_def upd_conv_take_nth_drop)
  have ok: "thread_ok s t" "\<forall>n \<in> set (rest_of input (cells s) t). 0 < n" using inv ts by (auto simp: server_inv_def)
  have b: "received s \<le> 2147483647 \<Longrightarrow> 0 \<le> bytecnt s \<and> bytecnt s \<le> received s" using inv by (simp add: server_inv_def)
  have main: ?thesis if "echo_thread S input t s t' s'"
    using that
  proof cases
    case (free a s1 connfd tid)
    have s': "s' = s\<lparr>cells := (cells s)(a := None), s_out := s_out s @ served_line tid\<rparr>"
      using free by (auto simp: Free_def)
    have s1: "s1 = s\<lparr>cells := (cells s)(a := None)\<rparr>" using free by (simp add: Free_def)
    have dist: "distinct (concat (map cell_of (xs @ t # ys)))" using inv ts by (simp add: server_inv_def)
    have o: "a \<notin> set (cell_of u)" if "u \<in> set xs \<union> set ys" for u using other_cell [OF dist that] free by simp
    note m = cell_free_maps(1,2) [OF o] 
    have ok': "thread_ok (s'\<lparr>threads := v\<rparr>) u = thread_ok s u" if "u \<in> set xs \<union> set ys" for u v
      using cell_free_maps(3) [OF o [OF that], of "s'\<lparr>threads := v\<rparr>" s None] by (simp add: s')
    have mx: "map (connection ((cells s)(a := None))) xs = map (connection (cells s)) xs"
      "map (connection ((cells s)(a := None))) ys = map (connection (cells s)) ys"
      using m by (auto simp del: cell_of.simps)
    have sums: "sum_list (map (\<lambda>t. sum_list (rest_of input ((cells s)(a := None)) t)) xs) = sum_list (map (\<lambda>t. sum_list (rest_of input (cells s) t)) xs)"
      "sum_list (map (\<lambda>t. sum_list (rest_of input ((cells s)(a := None)) t)) ys) = sum_list (map (\<lambda>t. sum_list (rest_of input (cells s) t)) ys)"
      using m(2) by (auto intro!: arg_cong [of _ _ sum_list] simp del: cell_of.simps)
    have a: "cells s a = Some connfd" "cells s' = (cells s)(a := None)" "received s' = received s" "bytecnt s' = bytecnt s"
      "accepted s' = accepted s" "threads s' = threads s"
      using ok(1) free(1-3) by (simp_all add: s1)
    have "server_inv input (s'\<lparr>threads := xs @ t' # ys\<rparr>)"
      unfolding server_inv_def
    proof (intro conjI)
      show "distinct (concat (map cell_of (threads (s'\<lparr>threads := xs @ t' # ys\<rparr>))))" using dist free(1,2) by simp
      have "dom (cells s) = set (concat (map cell_of (xs @ t # ys)))" using inv ts by (simp add: server_inv_def)
      then show "dom (cells (s'\<lparr>threads := xs @ t' # ys\<rparr>)) = set (concat (map cell_of (threads (s'\<lparr>threads := xs @ t' # ys\<rparr>))))"
        using o free(1,2) by (auto simp: a(2) simp del: cell_of.simps) auto
      show "accepted (s'\<lparr>threads := xs @ t' # ys\<rparr>) = map (connection (cells (s'\<lparr>threads := xs @ t' # ys\<rparr>))) (threads (s'\<lparr>threads := xs @ t' # ys\<rparr>))"
        using inv ts free(1,2) mx by (simp add: a server_inv_def)
      show "received (s'\<lparr>threads := xs @ t' # ys\<rparr>) +
          sum_list (map (\<lambda>u. sum_list (rest_of input (cells (s'\<lparr>threads := xs @ t' # ys\<rparr>)) u)) (threads (s'\<lparr>threads := xs @ t' # ys\<rparr>))) =
          sum_list (map (\<lambda>fd. sum_list (input fd)) (accepted (s'\<lparr>threads := xs @ t' # ys\<rparr>)))"
        using inv ts free(1,2) by (simp add: a sums server_inv_def)
      show "\<forall>u \<in> set (threads (s'\<lparr>threads := xs @ t' # ys\<rparr>)). thread_ok (s'\<lparr>threads := xs @ t' # ys\<rparr>) u \<and>
          (\<forall>n \<in> set (rest_of input (cells (s'\<lparr>threads := xs @ t' # ys\<rparr>)) u). 0 < n)"
        using inv ts ok' m(2) pos free(1,2) by (auto simp: a(2) server_inv_def)
      show "0 \<le> received (s'\<lparr>threads := xs @ t' # ys\<rparr>)"
        "received (s'\<lparr>threads := xs @ t' # ys\<rparr>) \<le> 2147483647 \<longrightarrow>
          0 \<le> bytecnt (s'\<lparr>threads := xs @ t' # ys\<rparr>) \<and> bytecnt (s'\<lparr>threads := xs @ t' # ys\<rparr>) \<le> received (s'\<lparr>threads := xs @ t' # ys\<rparr>)"
        using inv by (simp_all add: a server_inv_def)
    qed
    then show ?thesis by (simp add: upd a(6))
  next
    case (read_arg a connfd)
    have "server_inv input (s'\<lparr>threads := xs @ t' # ys\<rparr>)"
      by (rule inv_local [OF inv ts]) (use read_arg b in auto)
    then show ?thesis by (simp add: upd read_arg)
  next
    case (detach tid a connfd)
    have "s' = s" using detach by (simp add: Pthread_detach_def)
    moreover have "server_inv input (s\<lparr>threads := xs @ t' # ys\<rparr>)"
      by (rule inv_local [OF inv ts]) (use detach ok b in auto)
    ultimately show ?thesis by (simp add: upd)
  next
    case (load connfd n ns)
    have "server_inv input (s'\<lparr>threads := xs @ t' # ys\<rparr>)"
      by (rule inv_local [OF inv ts]) (use load b in auto)
    then show ?thesis by (simp add: upd load)
  next
    case (store connfd m n ns)
    have n: "0 < n" using ok(2) store by simp
    have "received s' \<le> 2147483647 \<Longrightarrow> 0 \<le> bytecnt s' \<and> bytecnt s' \<le> received s'"
      using ok(1) store n by simp
    then have "server_inv input (s'\<lparr>threads := xs @ t' # ys\<rparr>)"
      by (intro inv_local [OF inv ts]) (use store n in auto)
    then show ?thesis by (simp add: upd store)
  next
    case (report connfd n ns)
    have "server_inv input (s'\<lparr>threads := xs @ t' # ys\<rparr>)"
      by (rule inv_local [OF inv ts]) (use report b in auto)
    then show ?thesis by (simp add: upd report)
  next
    case (close connfd)
    have "s' = s" using close by (simp add: Close_def)
    moreover have "server_inv input (s\<lparr>threads := xs @ t' # ys\<rparr>)"
      by (rule inv_local [OF inv ts]) (use close b in auto)
    ultimately show ?thesis by (simp add: upd)
  next
    case (detach_fails rc tid e a connfd)
    have "server_inv input (s'\<lparr>threads := xs @ t' # ys\<rparr>)"
      by (rule inv_local [OF inv ts]) (use detach_fails ok b in auto)
    then show ?thesis by (simp add: upd detach_fails)
  next
    case (read_fails connfd ns)
    have "server_inv input (s'\<lparr>threads := xs @ t' # ys\<rparr>)"
      by (rule inv_local [OF inv ts]) (use read_fails b in auto)
    then show ?thesis by (simp add: upd read_fails)
  next
    case (write_fails connfd n ns)
    have "server_inv input (s'\<lparr>threads := xs @ t' # ys\<rparr>)"
      by (rule inv_local [OF inv ts]) (use write_fails b in auto)
    then show ?thesis by (simp add: upd write_fails)
  next
    case (close_fails rc connfd e)
    have "server_inv input (s'\<lparr>threads := xs @ t' # ys\<rparr>)"
      by (rule inv_local [OF inv ts]) (use close_fails b in auto)
    then show ?thesis by (simp add: upd close_fails)
  qed
  then show ?thesis using main step by (simp add: t_def)
qed

lemma inv_stop: "server_inv input s \<Longrightarrow> server_inv input (s\<lparr>stopped := e\<rparr>)"
proof -
  have "thread_ok (s\<lparr>stopped := e\<rparr>) t = thread_ok s t" for t by (cases t) auto
  then show "server_inv input s \<Longrightarrow> server_inv input (s\<lparr>stopped := e\<rparr>)" by (simp add: server_inv_def)
qed

lemma inv_step:
  assumes "server_step S input listenfd s s'" "server_inv input s" "\<forall>fd. \<forall>n \<in> set (input fd). 0 < n"
  shows "server_inv input s'"
  using assms by cases (auto intro: inv_accept inv_stop inv_thread)

definition server_run :: "server sys \<Rightarrow> (int \<Rightarrow> int list) \<Rightarrow> int \<Rightarrow> server \<Rightarrow> bool" where
  "server_run S input listenfd s \<longleftrightarrow> (server_step S input listenfd)\<^sup>*\<^sup>* server_start s"

lemma inv_run:
  assumes "server_run S input listenfd s" "\<forall>fd. \<forall>n \<in> set (input fd). 0 < n"
  shows "server_inv input s"
  using assms(1) unfolding server_run_def
proof (induction rule: rtranclp_induct)
  case base
  show ?case by (simp add: server_inv_def server_start_def)
next
  case (step y z)
  then show ?case using inv_step assms(2) by blast
qed

subsection \<open>Steps that succeed\<close>

text \<open>What a thread does next when no call fails.\<close>

fun next_phase :: "(int \<Rightarrow> int list) \<Rightarrow> thread_phase \<Rightarrow> server \<Rightarrow> (thread_phase \<times> server) option" where
  "next_phase input (Starting a) s = map_option (\<lambda>fd. (Detaching a fd, s)) (cells s a)"
| "next_phase input (Detaching a fd) s = Some (Freeing a fd, s)"
| "next_phase input (Freeing a fd) s = Some (Serving fd (input fd), s\<lparr>cells := (cells s)(a := None), s_out := s_out s @ served_line 1\<rparr>)"
| "next_phase input (Serving fd []) s = Some (Closed fd, s)"
| "next_phase input (Serving fd (n # ns)) s = Some (Adding fd (bytecnt s) n ns, s)"
| "next_phase input (Adding fd m n ns) s = Some (Reporting fd n ns, s\<lparr>bytecnt := s32 (m + n), received := received s + n\<rparr>)"
| "next_phase input (Reporting fd n ns) s = Some (Serving fd ns, s\<lparr>total_out := total_out s @ [(n, bytecnt s)]\<rparr>)"
| "next_phase input (Closed fd) s = None"

lemma next_phase_step: "next_phase input t s = Some (t', s') \<Longrightarrow> echo_thread S input t s t' s'"
proof (induction input t s rule: next_phase.induct)
  case (1 input a s)
  then show ?case by (auto intro: echo_thread.read_arg)
next
  case (2 input a fd s)
  then show ?case using echo_thread.detach [of S 0 s s input a fd] by (simp add: Pthread_detach_def)
next
  case (3 input a fd s)
  then show ?case using echo_thread.free [of a s _ S input fd 1] by (simp add: Free_def)
next
  case (4 input fd s)
  then show ?case using echo_thread.close [of S fd s s input] by (simp add: Close_def)
qed (auto intro: echo_thread.intros)

definition thread_turn :: "(int \<Rightarrow> int list) \<Rightarrow> nat \<Rightarrow> server \<Rightarrow> server option" where
  "thread_turn input i s =
     (if stopped s = None \<and> i < length (threads s)
      then map_option (\<lambda>(t', s'). s'\<lparr>threads := (threads s')[i := t']\<rparr>) (next_phase input (threads s ! i) s)
      else None)"

fun thread_turns :: "(int \<Rightarrow> int list) \<Rightarrow> nat list \<Rightarrow> server \<Rightarrow> server option" where
  "thread_turns input [] s = Some s"
| "thread_turns input (i # is) s = (case thread_turn input i s of None \<Rightarrow> None | Some s' \<Rightarrow> thread_turns input is s')"

lemma thread_turns_run: "thread_turns input is s = Some s' \<Longrightarrow> (server_step S input listenfd)\<^sup>*\<^sup>* s s'"
proof (induction "is" arbitrary: s)
  case (Cons i "is")
  then obtain u where u: "thread_turn input i s = Some u" "thread_turns input is u = Some s'" by (auto split: option.splits)
  from u(1) obtain t' v where v: "stopped s = None" "i < length (threads s)" "next_phase input (threads s ! i) s = Some (t', v)"
    "u = v\<lparr>threads := (threads v)[i := t']\<rparr>" by (auto simp: thread_turn_def split: if_splits)
  from server_step.thread [OF v(1,2) next_phase_step [OF v(3)], of S listenfd] v(4)
  have "server_step S input listenfd s u" by simp
  then show ?case using Cons.IH [OF u(2)] by (rule converse_rtranclp_into_rtranclp)
qed simp

text \<open>A turn of the accept loop in which every call succeeds, for descriptor \<open>fd\<close> and cell \<open>a\<close>.\<close>

definition connects :: "int \<Rightarrow> int \<Rightarrow> outcome" where
  "connects a fd = \<lparr>o_malloc = a, o_accept = (fd, \<lparr>sin_addr = 0x0100007F, sin_port = 0x901F\<rparr>),
     o_host = Some \<lparr>h_name = ''localhost'', h_addr_list = [0x0100007F]\<rparr>, o_create = 0\<rparr>"

definition after_connect :: "int \<Rightarrow> int \<Rightarrow> server \<Rightarrow> server" where
  "after_connect a fd s = s\<lparr>cells := (cells s)(a \<mapsto> fd), s_out := s_out s @ connected_line (o_host (connects a fd)) (snd (o_accept (connects a fd))),
     threads := threads s @ [Starting a], accepted := accepted s @ [fd]\<rparr>"

lemma connect_step:
  assumes "stopped s = None" "a \<noteq> 0" "0 \<le> fd" "a \<notin> dom (cells s)"
  shows "server_step S input listenfd s (after_connect a fd s)"
proof -
  have "accept_turn S (connects a fd) listenfd s = Inr (after_connect a fd s)"
    using assms(2,3)
    by (simp add: accept_turn_def Malloc_def Accept_def Gethostbyaddr_def Pthread_create_def malloc_call_def accept_call_def
        gethostbyaddr_call_def create_call_def connects_def after_connect_def Let_def)
  moreover have "o_malloc (connects a fd) \<notin> dom (cells s)" using assms(4) by (simp add: connects_def)
  ultimately show ?thesis using server_step.accept [OF assms(1)] by blast
qed

text \<open>Two clients send five bytes each; both threads load the count before either stores its sum.\<close>

definition two_clients :: server where
  "two_clients = after_connect 24 5 (after_connect 8 4 server_start)"

definition overlapping :: "nat list" where
  "overlapping = [0, 0, 0, 1, 1, 1, 0, 1, 0, 1, 0, 1, 0, 1]"

lemma two_clients_run: "server_run S input listenfd two_clients"
proof -
  have "server_step S input listenfd server_start (after_connect 8 4 server_start)"
    by (rule connect_step) (simp_all add: server_start_def)
  moreover have "server_step S input listenfd (after_connect 8 4 server_start) two_clients"
    unfolding two_clients_def by (rule connect_step) (simp_all add: server_start_def after_connect_def)
  ultimately show ?thesis unfolding server_run_def by (meson rtranclp.simps)
qed

lemma overlap_result:
  "map_option (\<lambda>s. (threads s, bytecnt s, received s, total_out s)) (thread_turns (\<lambda>_. [5]) overlapping two_clients) =
   Some ([Closed 4, Closed 5], 5, 10, [(5, 5), (5, 5)])"
  by (simp add: overlapping_def two_clients_def after_connect_def server_start_def thread_turn_def)

lemma lost_update: "\<exists>s. server_run S (\<lambda>_. [5]) listenfd s \<and> threads s = [Closed 4, Closed 5] \<and> bytecnt s = 5 \<and> received s = 10"
proof -
  obtain s where s: "thread_turns (\<lambda>_. [5]) overlapping two_clients = Some s"
    "(threads s, bytecnt s, received s, total_out s) = ([Closed 4, Closed 5], 5, 10, [(5, 5), (5, 5)])"
    using overlap_result by (auto simp: map_option_eq_Some)
  have "server_run S (\<lambda>_. [5]) listenfd s"
    using two_clients_run thread_turns_run [OF s(1)] unfolding server_run_def by (metis rtranclp_trans)
  with s(2) show ?thesis by blast
qed

subsection \<open>What the server guarantees\<close>

text \<open>A thread that is not done can move.\<close>

lemma thread_can_move:
  assumes "thread_ok s t" "\<forall>fd. t \<noteq> Closed fd"
  shows "\<exists>t' s'. echo_thread S input t s t' s'"
proof -
  have "next_phase input t s \<noteq> None"
  proof (cases t)
    case (Serving fd ns)
    then show ?thesis by (cases ns) auto
  qed (use assms in auto)
  then obtain t' s' where "next_phase input t s = Some (t', s')" by fastforce
  then show ?thesis using next_phase_step by blast
qed

text \<open>C18. Under every interleaving of the accept loop with the threads: each accepted connection is served by
  exactly one thread, the argument cells of threads that have not read or freed theirs are in use and
  distinct, and no others are; a thread that has not closed its connection can move. When all have, no
  cell is left and all input has been counted in. The shared \<^verbatim>\<open>bytecnt\<close> is never more than what was
  received; it can be less when all connections are closed, since the threads add to it without a
  lock.\<close>

theorem echo_server_threads:
  assumes "server_run S input listenfd s" "\<forall>fd. \<forall>n \<in> set (input fd). 0 < n"
  shows "accepted s = map (connection (cells s)) (threads s) \<and>
    distinct (concat (map cell_of (threads s))) \<and> dom (cells s) = set (concat (map cell_of (threads s))) \<and>
    (\<forall>t \<in> set (threads s). (\<forall>fd. t \<noteq> Closed fd) \<longrightarrow> (\<exists>t' s'. echo_thread S input t s t' s')) \<and>
    ((\<forall>t \<in> set (threads s). \<exists>fd. t = Closed fd) \<longrightarrow>
       cells s = Map.empty \<and> received s = sum_list (map (\<lambda>fd. sum_list (input fd)) (accepted s))) \<and>
    (received s \<le> 2147483647 \<longrightarrow> 0 \<le> bytecnt s \<and> bytecnt s \<le> received s) \<and>
    (\<exists>s1. server_run S (\<lambda>_. [5]) listenfd s1 \<and> threads s1 = [Closed 4, Closed 5] \<and> bytecnt s1 = 5 \<and> received s1 = 10)"
proof -
  note inv = inv_run [OF assms]
  have closed: "cells s = Map.empty \<and> received s = sum_list (map (\<lambda>fd. sum_list (input fd)) (accepted s))"
    if c: "\<forall>t \<in> set (threads s). \<exists>fd. t = Closed fd"
  proof -
    have ts: "\<forall>t \<in> set (threads s). cell_of t = [] \<and> rest_of input (cells s) t = []" using c by auto
    then have "concat (map cell_of (threads s)) = []" by (simp add: concat_eq_Nil_conv)
    moreover have "map (\<lambda>t. sum_list (rest_of input (cells s) t)) (threads s) = map (\<lambda>t. 0) (threads s)" using ts by auto
    then have "sum_list (map (\<lambda>t. sum_list (rest_of input (cells s) t)) (threads s)) = 0" by (simp only: sum_list_0)
    ultimately show ?thesis using inv by (simp add: server_inv_def)
  qed
  moreover have "\<forall>t \<in> set (threads s). (\<forall>fd. t \<noteq> Closed fd) \<longrightarrow> (\<exists>t' s'. echo_thread S input t s t' s')"
    using inv thread_can_move by (auto simp: server_inv_def)
  ultimately show ?thesis using inv lost_update by (simp add: server_inv_def)
qed

theorem echo_server_threads_witness:
  "accepted two_clients = map (connection (cells two_clients)) (threads two_clients) \<and> bytecnt two_clients \<le> received two_clients"
  using echo_server_threads [OF two_clients_run [of undefined "\<lambda>_. [5]" 3]] by (simp add: two_clients_def after_connect_def server_start_def)

end
