(* ===== verification/ProxyProps.thy ===== *)
theory ProxyProps
  imports Proxy EchoProps
begin

text \<open>
  What one client of the proxy experiences, as an abstract session: lines in, lines out, one server
  connection, one log entry per reply. The thread's buffers, partial reads and writes and
  interruptions are not part of it; the refinement theorem shows that they cannot be seen.
\<close>

subsection \<open>Lines of a stream\<close>

function split_lines :: "string \<Rightarrow> string list" where
  "split_lines cs =
     (if cs = [] then [] else let l = line_of (MAXLINE - 1) cs in l # split_lines (drop (length l) cs))"
  by pat_completeness auto
termination
  by (relation "measure length") (auto simp: MAXLINE_def)

declare split_lines.simps [simp del]

lemma split_lines_Nil [simp]: "split_lines [] = []"
  by (simp add: split_lines.simps)

lemma split_lines_line: "plain l \<Longrightarrow> length l < MAXLINE - 1 \<Longrightarrow> split_lines (l @ newline # cs) = (l @ [newline]) # split_lines cs"
  using line_of_plain [of l "MAXLINE - 1" cs] by (subst split_lines.simps) (simp add: Let_def)

lemma concat_split_lines: "concat (split_lines cs) = cs"
proof (induction cs rule: split_lines.induct)
  case (1 cs)
  show ?case
  proof (cases "cs = []")
    case False
    have "line_of (MAXLINE - 1) cs @ drop (length (line_of (MAXLINE - 1) cs)) cs = cs"
      using line_of_prefix [of "MAXLINE - 1" cs] by (metis append_take_drop_id)
    then show ?thesis using 1 [OF False refl] False by (subst split_lines.simps) (simp add: Let_def)
  qed simp
qed

subsection \<open>The abstract session\<close>

record session =
  se_peer :: "(string \<times> int) option"
  se_server :: "(string list \<times> string) option"   \<comment> \<open>the replies to come and the lines sent\<close>
  se_answers :: string
  se_log :: "string list"

definition session_open :: "(string \<Rightarrow> int \<Rightarrow> descriptor option) \<Rightarrow> string \<Rightarrow> int \<Rightarrow> session \<Rightarrow> io_stop + ((string list \<times> string) \<times> session)" where
  "session_open connect h p a =
     (case se_server a of
        Some srv \<Rightarrow> Inr (srv, a)
      | None \<Rightarrow> (case connect h p of
          None \<Rightarrow> Inl ConnectError
        | Some d \<Rightarrow> Inr ((split_lines (stream (in_events d)), written d), a\<lparr>se_peer := Some (h, p)\<rparr>)))"

definition session_forward ::
  "(string \<Rightarrow> int \<Rightarrow> descriptor option) \<Rightarrow> (nat \<Rightarrow> string) \<Rightarrow> sockaddr_in \<Rightarrow> string \<Rightarrow> string \<Rightarrow> string \<Rightarrow> string \<Rightarrow> session \<Rightarrow> io_stop + session" where
  "session_forward connect now sock h p c line a =
     and_then (session_open connect h (atoi p) a) (\<lambda>((replies, sent), a).
       case replies of
         [] \<Rightarrow> Inr (a\<lparr>se_server := Some ([], sent @ c @ [newline]), se_answers := se_answers a @ line\<rparr>)
       | r # rs \<Rightarrow> and_then (deal_log_format (now (length (se_log a))) sock (c_string r)) (\<lambda>entry.
           Inr (a\<lparr>se_server := Some (rs, sent @ c @ [newline]), se_answers := se_answers a @ c_string r,
                   se_log := se_log a @ [entry]\<rparr>)))"

definition session_line ::
  "(string \<Rightarrow> int \<Rightarrow> descriptor option) \<Rightarrow> (nat \<Rightarrow> string) \<Rightarrow> sockaddr_in \<Rightarrow> string \<Rightarrow> session \<Rightarrow> io_stop + session" where
  "session_line connect now sock line a =
     (case scan_words 3 line of
        h # p # c # _ \<Rightarrow> session_forward connect now sock h p c line a
      | [] \<Rightarrow> Inr (a\<lparr>se_answers := se_answers a @ error_msg\<rparr>)
      | _ \<Rightarrow> Inr (a\<lparr>se_answers := se_answers a @ warning_msg\<rparr>))"

primrec serve_session ::
  "(string \<Rightarrow> int \<Rightarrow> descriptor option) \<Rightarrow> (nat \<Rightarrow> string) \<Rightarrow> sockaddr_in \<Rightarrow> string list \<Rightarrow> session \<Rightarrow> io_stop + session" where
  "serve_session connect now sock [] a = Inr a"
| "serve_session connect now sock (l # ls) a =
     and_then (session_line connect now sock (c_string l) a) (serve_session connect now sock ls)"

text \<open>What a state of the thread shows of it.\<close>

definition server_view :: "rio_t \<times> descriptor \<Rightarrow> string list \<times> string" where
  "server_view srv = (split_lines (pending (fst srv) (in_events (snd srv))), written (snd srv))"

definition session_of :: "proxy_state \<Rightarrow> session" where
  "session_of s = \<lparr>se_peer = px_peer s, se_server = map_option server_view (px_server s),
     se_answers = written (px_client s), se_log = px_log s\<rparr>"

definition sound_link :: "descriptor \<Rightarrow> bool" where
  "sound_link d \<longleftrightarrow> healthy (in_events d) \<and> WriteFail \<notin> set (out_events d)"

definition sound_network :: "(string \<Rightarrow> int \<Rightarrow> descriptor option) \<Rightarrow> bool" where
  "sound_network connect \<longleftrightarrow> (\<forall>h p. pred_option sound_link (connect h p))"

definition sound_state :: "proxy_state \<Rightarrow> bool" where
  "sound_state s \<longleftrightarrow> sound_link (px_client s) \<and> pred_option (\<lambda>srv. sound_link (snd srv)) (px_server s) \<and> \<not> px_closed s"

subsection \<open>The simulation\<close>

lemma c_string_stored: "c_string (l @ NUL # cs) = c_string l"
  unfolding c_string_def by (induction l) auto

lemma readlineb_w_line:
  assumes "healthy es"
  obtains (eof) r rp' es' where "Rio_readlineb_w rp MAXLINE es = (0, r, rp', es', [])" "healthy es'"
      "split_lines (pending rp es) = []" "split_lines (pending rp' es') = []" "\<And>buf. store_line r buf = buf"
  | (line) n r rp' es' l where "Rio_readlineb_w rp MAXLINE es = (n, r, rp', es', [])" "n \<noteq> 0" "healthy es'"
      "split_lines (pending rp es) = l # split_lines (pending rp' es')"
      "\<And>buf. c_str (store_line r buf) = Inr (c_string l)"
proof -
  have max: "1 < MAXLINE" unfolding MAXLINE_def by simp
  from readlineb_line [OF assms max, of rp] obtain r rp' es' where
    r: "rio_readlineb rp MAXLINE es = (r, rp', es')" "healthy es'" "lr_bytes r = line_of (MAXLINE - 1) (pending rp es)"
      "pending rp' es' = drop (length (lr_bytes r)) (pending rp es)"
      "lr_value r = (if pending rp es = [] then 0 else if ended (lr_bytes r) then int (length (lr_bytes r)) else int (length (lr_bytes r)) + 1)"
      "lr_nul r \<longleftrightarrow> pending rp es \<noteq> []" by blast
  have w: "Rio_readlineb_w rp MAXLINE es = (lr_value r, r, rp', es', [])"
    using r(1,5) by (simp add: Rio_readlineb_w_def)
  show thesis
  proof (cases "pending rp es = []")
    case True
    then show thesis using r w by (intro eof [of r rp' es']) (auto simp: store_line_def)
  next
    case False
    have ne: "lr_bytes r \<noteq> []" using r(3) False max by simp
    have "split_lines (pending rp es) = lr_bytes r # split_lines (pending rp' es')"
      using False r(3,4) by (subst split_lines.simps) (simp add: Let_def)
    moreover have "lr_value r \<noteq> 0" using r(5) False ne by auto
    moreover have "c_str (store_line r buf) = Inr (c_string (lr_bytes r))" for buf
      using r(6) False by (simp add: c_str_def store_line_def c_string_stored)
    ultimately show thesis using w r(2) by (intro line)
  qed
qed

lemma writen_w_all:
  assumes "WriteFail \<notin> set (out_events d)"
  obtains d' where "Rio_writen_w bs d = (d', [])" "written d' = written d @ bs" "in_events d' = in_events d"
    "WriteFail \<notin> set (out_events d')"
proof -
  from writes_all [OF assms, of bs] obtain d' where
    d': "Rio_writen bs d = Inr d'" "written d' = written d @ bs" "in_events d' = in_events d" "WriteFail \<notin> set (out_events d')" .
  moreover have "Rio_writen_w bs d = (d', [])"
    using d'(1) by (auto simp: Rio_writen_def Rio_writen_w_def Let_def split: prod.splits if_splits)
  ultimately show thesis by (intro that)
qed

text \<open>A result of the thread and one of the session that agree.\<close>

definition agrees :: "io_stop + proxy_state \<Rightarrow> io_stop + session \<Rightarrow> bool" where
  "agrees r a \<longleftrightarrow> a = map_sum id session_of r \<and> (\<forall>s. r = Inr s \<longrightarrow> sound_state s)"

lemma agrees_simps [simp]:
  "agrees (Inl e) a \<longleftrightarrow> a = Inl e" "agrees (Inr s) a \<longleftrightarrow> a = Inr (session_of s) \<and> sound_state s"
  by (auto simp: agrees_def)

lemma agrees_send:
  assumes "sound_state s"
  shows "sound_state (send_client bs s)"
    "session_of (send_client bs s) = (session_of s)\<lparr>se_answers := se_answers (session_of s) @ bs\<rparr>"
proof -
  have "WriteFail \<notin> set (out_events (px_client s))" using assms by (simp add: sound_state_def sound_link_def)
  from writen_w_all [OF this, of bs] obtain d' where
    d': "Rio_writen_w bs (px_client s) = (d', [])" "written d' = written (px_client s) @ bs"
      "in_events d' = in_events (px_client s)" "WriteFail \<notin> set (out_events d')" .
  then have "send_client bs s = s\<lparr>px_client := d'\<rparr>" by (simp add: send_client_def)
  then show "sound_state (send_client bs s)"
    "session_of (send_client bs s) = (session_of s)\<lparr>se_answers := se_answers (session_of s) @ bs\<rparr>"
    using assms d'(2-4) by (simp_all add: sound_state_def sound_link_def session_of_def)
qed

lemma agrees_open:
  assumes "sound_network connect" "sound_state s"
  shows "case open_server connect h p s of
      Inl e \<Rightarrow> session_open connect h (atoi p) (session_of s) = Inl e
    | Inr ((rp, d), s') \<Rightarrow> session_open connect h (atoi p) (session_of s) = Inr (server_view (rp, d), session_of s') \<and>
        sound_link d \<and> sound_state s'"
proof (cases "px_server s")
  case None
  have "pred_option sound_link (connect h (atoi p))" using assms(1) unfolding sound_network_def by blast
  then show ?thesis
    using None assms(2)
    by (cases "connect h (atoi p)")
      (simp_all add: open_server_def session_open_def open_clientfd_ts_def session_of_def server_view_def pending_def
        rio_readinitb_def sound_state_def)
next
  case (Some srv)
  then show ?thesis
    using assms(2) by (cases srv) (simp add: open_server_def session_open_def session_of_def sound_state_def)
qed

lemma agrees_forward:
  assumes net: "sound_network connect" and s: "sound_state s" and buf: "c_str buf = Inr line"
  shows "agrees (map_sum id snd (forward connect now sock h p c buf s)) (session_forward connect now sock h p c line (session_of s))"
proof (cases "open_server connect h p s")
  case (Inl e)
  then show ?thesis using agrees_open [OF net s, of h p] by (simp add: forward_def session_forward_def)
next
  case (Inr x)
  then obtain rp d s1 where o: "open_server connect h p s = Inr ((rp, d), s1)" by (cases x) auto
  with agrees_open [OF net s, of h p] have
    o': "session_open connect h (atoi p) (session_of s) = Inr (server_view (rp, d), session_of s1)" "sound_link d"
      "sound_state s1" by simp_all
  have wf: "WriteFail \<notin> set (out_events d)" using o'(2) by (simp add: sound_link_def)
  from writen_w_all [OF wf, of "c @ [newline]"] obtain d1 where
    d1: "Rio_writen_w (c @ [newline]) d = (d1, [])" "written d1 = written d @ c @ [newline]" "in_events d1 = in_events d"
      "WriteFail \<notin> set (out_events d1)" by auto
  have h: "healthy (in_events d1)" using o'(2) d1(3) by (simp add: sound_link_def)
  let ?lines = "split_lines (pending rp (in_events d1))"
  show ?thesis
    using h
  proof (cases rule: readlineb_w_line [where rp = rp])
    case (eof r rp' es')
    let ?s = "s1\<lparr>px_server := Some (rp', d1\<lparr>in_events := es'\<rparr>)\<rparr>"
    have snd_s: "sound_state ?s" using eof(2) d1(4) o'(3) by (simp add: sound_state_def sound_link_def)
    have view: "server_view (rp, d) = ([], written d)" using eof(3) d1(3) by (simp add: server_view_def)
    have "forward connect now sock h p c buf s = Inr (buf, send_client line ?s)"
      by (simp add: forward_def o d1(1) eof(1,5) buf)
    moreover have "session_forward connect now sock h p c line (session_of s) =
        Inr ((session_of ?s)\<lparr>se_answers := se_answers (session_of ?s) @ line\<rparr>)"
      using d1(2) eof(4) by (simp add: session_forward_def o'(1) view) (simp add: session_of_def server_view_def)
    ultimately show ?thesis using agrees_send [OF snd_s, of line] by simp
  next
    case (line nn r rp' es' l)
    let ?s = "s1\<lparr>px_server := Some (rp', d1\<lparr>in_events := es'\<rparr>)\<rparr>"
    have snd_s: "sound_state (print_log e ?s)" for e
      using line(3) d1(4) o'(3) by (simp add: sound_state_def sound_link_def print_log_def)
    have view: "server_view (rp, d) = (l # split_lines (pending rp' es'), written d)"
      using line(4) d1(3) by (simp add: server_view_def)
    have log: "px_log ?s = px_log s1" "se_log (session_of s1) = px_log s1" by (simp_all add: session_of_def)
    show ?thesis
    proof (cases "deal_log_format (now (length (px_log s1))) sock (c_string l)")
      case (Inl e)
      then show ?thesis
        by (simp add: forward_def session_forward_def o o'(1) d1(1) line(1,2,5) log_reply_def log view)
    next
      case (Inr e)
      have "forward connect now sock h p c buf s = Inr (store_line r buf, send_client (c_string l) (print_log e ?s))"
        by (simp add: forward_def o d1(1) line(1,2,5) log_reply_def Inr)
      moreover have "session_forward connect now sock h p c line (session_of s) =
          Inr ((session_of (print_log e ?s))\<lparr>se_answers := se_answers (session_of (print_log e ?s)) @ c_string l\<rparr>)" for line
        using d1(2) by (simp add: session_forward_def o'(1) view log Inr) (simp add: session_of_def server_view_def print_log_def)
      ultimately show ?thesis using agrees_send [OF snd_s, of "c_string l" e] by simp
    qed
  qed
qed

lemma agrees_line:
  assumes net: "sound_network connect" and s: "sound_state s" and buf: "c_str buf = Inr line"
  shows "agrees (map_sum id snd (serve_line connect now sock buf s)) (session_line connect now sock line (session_of s))"
proof (cases "scan_words 3 line" rule: scan_cases)
  case (all h p c r)
  then show ?thesis
    using agrees_forward [OF net s buf, of now sock h p c] by (simp add: serve_line_def session_line_def buf del: scan_words.simps)
qed (use agrees_send s in \<open>auto simp: serve_line_def session_line_def buf reject_def sound_state_def session_of_def
      simp del: scan_words.simps\<close>)

lemma agrees_loop:
  assumes "sound_network connect" "sound_state s"
  shows "agrees (request_loop connect now sock rp buf s)
    (serve_session connect now sock (split_lines (pending rp (in_events (px_client s)))) (session_of s))"
  using assms
proof (induction connect now sock rp buf s rule: request_loop.induct [case_names step])
  case (step connect now sock rp buf s)
  have h: "healthy (in_events (px_client s))" using step.prems(2) by (simp add: sound_state_def sound_link_def)
  note unfold = request_loop.simps [of connect now sock rp buf s]
  show ?case
    using h
  proof (cases rule: readlineb_w_line [where rp = rp])
    case (eof r rp' es')
    then show ?thesis using step.prems
      by (simp add: unfold) (simp add: session_of_def sound_state_def sound_link_def)
  next
    case (line n r rp' es' l)
    let ?s = "s\<lparr>px_client := (px_client s)\<lparr>in_events := es'\<rparr>\<rparr>" and ?buf = "store_line r buf"
    have s: "sound_state ?s" "session_of ?s = session_of s" "in_events (px_client ?s) = es'"
      using step.prems line(3) by (simp_all add: sound_state_def sound_link_def session_of_def)
    note served = agrees_line [OF step.prems(1) s(1) line(5) [of buf], of now sock]
    have loop: "request_loop connect now sock rp buf s =
        and_then (serve_line connect now sock ?buf ?s) (\<lambda>(buf, s). request_loop connect now sock rp' buf s)"
      by (simp add: unfold line(1,2))
    show ?thesis
    proof (cases "serve_line connect now sock ?buf ?s")
      case (Inl e)
      then show ?thesis using served by (simp add: loop line(4) s(2))
    next
      case (Inr x)
      then obtain buf1 s1 where x: "serve_line connect now sock ?buf ?s = Inr (buf1, s1)" by (cases x) auto
      then have x': "serve_line connect now sock ?buf
          (s\<lparr>px_client := (px_client s)\<lparr>in_events := es'\<rparr>, px_stdout := px_stdout s @ []\<rparr>) = Inr (buf1, s1)" by simp
      have "in_events (px_client s1) = es'" using serve_line_events [OF x] s(3) by simp
      with served step.IH [OF line(1) [symmetric] refl refl refl refl refl line(2) x' refl step.prems(1)] show ?thesis
        by (simp add: loop line(4) s(2) x)
    qed
  qed
qed

definition fresh_session :: "string \<Rightarrow> session" where
  "fresh_session out = \<lparr>se_peer = None, se_server = None, se_answers = out, se_log = []\<rparr>"

lemma thread_session:
  assumes "sound_network connect" "sound_link client"
  shows "map_sum id session_of (process_request connect now sock buf client) =
      serve_session connect now sock (split_lines (stream (in_events client))) (fresh_session (written client)) \<and>
    pred_sum (\<lambda>_. True) (\<lambda>s. px_closed s = (px_server s \<noteq> None)) (process_request connect now sock buf client)"
proof -
  let ?s = "\<lparr>px_client = client, px_server = None, px_peer = None, px_log = [], px_stdout = [], px_stderr = [], px_closed = False\<rparr>"
  have s: "sound_state ?s" "session_of ?s = fresh_session (written client)"
    using assms(2) by (simp_all add: sound_state_def session_of_def fresh_session_def)
  have p: "pending (rio_readinitb 0) (in_events (px_client ?s)) = stream (in_events client)"
    by (simp add: pending_def rio_readinitb_def)
  have "agrees (request_loop connect now sock (rio_readinitb 0) buf ?s)
      (serve_session connect now sock (split_lines (stream (in_events client))) (fresh_session (written client)))"
    using agrees_loop [OF assms(1) s(1), of now sock "rio_readinitb 0" buf] by (simp only: p s(2))
  moreover have "session_of (s\<lparr>px_closed := True\<rparr>) = session_of s" for s by (simp add: session_of_def)
  ultimately show ?thesis
    by (cases "request_loop connect now sock (rio_readinitb 0) buf ?s")
      (simp_all add: process_request_def sound_state_def)
qed

text \<open>C39. On working connections a thread of the proxy is the abstract session of its client's lines: every
  line with three words is forwarded, to the server that the first such line named, each reply is
  logged and sent back, other lines get a message, and a missing reply gives the client its own line;
  the thread stops early exactly when the session cannot connect or a log entry does not fit its
  buffer. It closes its descriptors exactly when a server was opened.\<close>

theorem proxy_serves_session:
  assumes "sound_network connect" "sound_link client"
  shows "map_sum id session_of (process_request connect now sock buf client) =
      serve_session connect now sock (split_lines (stream (in_events client))) (fresh_session (written client)) \<and>
    pred_sum (\<lambda>_. True) (\<lambda>s. px_closed s = (px_server s \<noteq> None)) (process_request connect now sock buf client)"
  using assms by (rule thread_session)

text \<open>A client that sends two requests, to a server that has one reply.\<close>

definition pong :: descriptor where
  "pong = \<lparr>in_events = [Chunk ''po'', ReadIntr, Chunk (''ng'' @ [newline])], out_events = [Wrote 0], written = []\<rparr>"

definition pinger :: descriptor where
  "pinger = \<lparr>in_events = [Chunk (''h 8'' @ ''0 ping'' @ newline # ''x 1''), ReadIntr, Chunk ('' two'' @ newline # ''hi'')],
     out_events = [WriteIntr, Wrote 1], written = []\<rparr>"

definition loopback :: sockaddr_in where
  "loopback = \<lparr>sin_addr = 0x0100007F, sin_port = 0x901F\<rparr>"

lemma example_digits:
  "char_of (48 :: nat) = CHR ''0''" "char_of (49 :: nat) = CHR ''1''" "char_of (50 :: nat) = CHR ''2''"
  "char_of (53 :: nat) = CHR ''5''" "char_of (55 :: nat) = CHR ''7''" "char_of (56 :: nat) = CHR ''8''"
  by (simp_all add: char_of_eq_iff)

lemma example_numbers:
  "show_nat 127 = ''127''" "show_nat 0 = ''0''" "show_nat (Suc 0) = ''1''" "show_nat 8080 = ''8080''"
  "pad3 (Suc (Suc (Suc (Suc (Suc 0))))) = ''  5''"
  by (simp_all add: pad3_def show_nat.simps example_digits numeral_2_eq_2)

lemma example_port: "atoi ''80'' = 80"
  by (simp add: atoi_def read_nat_def is_space_def is_digit_def digit_val_def clamp32_def less_eq_char_def)

lemma loopback_log:
  "log_text (''now'' @ [newline]) loopback (''pong'' @ [newline]) = ''now: 127.0.0.1 8080   5 pong'' @ [newline]"
  by (simp add: log_text_def log_entry_def loopback_def ntohl_def ntohs_def dotted_def Let_def example_numbers)

lemma pinger_lines:
  "split_lines (stream (in_events pinger)) = [''h 80 ping'' @ [newline], ''x 1 two'' @ [newline], ''hi'']"
proof -
  have "stream (in_events pinger) = ''h 80 ping'' @ newline # ''x 1 two'' @ newline # ''hi''" by (simp add: pinger_def)
  moreover have "split_lines ''hi'' = [''hi'']"
    using line_of_tail [of "''hi''" "MAXLINE - 1"] by (subst split_lines.simps) (simp add: plain_def MAXLINE_def Let_def)
  moreover have "split_lines (''x 1 two'' @ newline # ''hi'') = (''x 1 two'' @ [newline]) # split_lines ''hi''"
    by (rule split_lines_line) (simp_all add: plain_def MAXLINE_def)
  moreover have "split_lines (''h 80 ping'' @ newline # ''x 1 two'' @ newline # ''hi'') =
      (''h 80 ping'' @ [newline]) # split_lines (''x 1 two'' @ newline # ''hi'')"
    by (rule split_lines_line) (simp_all add: plain_def MAXLINE_def)
  ultimately show ?thesis by simp
qed

lemma pong_lines: "split_lines (stream (in_events pong)) = [''pong'' @ [newline]]"
proof -
  have "stream (in_events pong) = ''pong'' @ newline # []" by (simp add: pong_def)
  moreover have "split_lines (''pong'' @ newline # []) = (''pong'' @ [newline]) # split_lines []"
    by (rule split_lines_line) (simp_all add: plain_def MAXLINE_def)
  ultimately show ?thesis by simp
qed

lemma example_words:
  "scan_words 3 (''h 80 ping'' @ [newline]) = [''h'', ''80'', ''ping'']"
  "scan_words 3 (''x 1 two'' @ [newline]) = [''x'', ''1'', ''two'']"
  "scan_words 3 ''hi'' = [''hi'']" "c_string ''hi'' = ''hi''"
  "c_string (''h 80 ping'' @ [newline]) = ''h 80 ping'' @ [newline]" "c_string (''x 1 two'' @ [newline]) = ''x 1 two'' @ [newline]"
  "c_string (''pong'' @ [newline]) = ''pong'' @ [newline]"
  by code_simp+

lemma example_entry:
  "deal_log_format (''now'' @ [newline]) loopback (''pong'' @ [newline]) = Inr (''now: 127.0.0.1 8080   5 pong'' @ [newline])"
  unfolding deal_log_format_def loopback_log by (simp add: MAXLINE_def)

lemma example_session:
  "serve_session (\<lambda>h p. Some pong) (\<lambda>_. ''now'' @ [newline]) loopback (split_lines (stream (in_events pinger))) (fresh_session []) =
     Inr \<lparr>se_peer = Some (''h'', 80), se_server = Some ([], ''ping'' @ newline # ''two'' @ [newline]),
       se_answers = ''pong'' @ newline # ''x 1 two'' @ newline # warning_msg,
       se_log = [''now: 127.0.0.1 8080   5 pong'' @ [newline]]\<rparr>"
  unfolding pinger_lines serve_session.simps session_line_def example_words example_port list.case session_forward_def session_open_def
    fresh_session_def session.simps option.case pong_lines and_then_simps prod.case example_entry
  by (simp add: pong_def)

theorem proxy_serves_session_witness:
  "\<exists>s. process_request (\<lambda>h p. Some pong) (\<lambda>_. ''now'' @ [newline]) loopback [] pinger = Inr s \<and>
     px_peer s = Some (''h'', 80) \<and> map_option (\<lambda>srv. written (snd srv)) (px_server s) = Some (''ping'' @ newline # ''two'' @ [newline]) \<and>
     written (px_client s) = ''pong'' @ newline # ''x 1 two'' @ newline # warning_msg \<and>
     px_log s = [''now: 127.0.0.1 8080   5 pong'' @ [newline]] \<and> px_closed s"
proof -
  have "sound_network (\<lambda>h p. Some pong)" "sound_link pinger"
    by (simp_all add: sound_network_def sound_link_def pong_def pinger_def)
  from proxy_serves_session [OF this, of "\<lambda>_. ''now'' @ [newline]" loopback "[]"]
  have "map_sum id session_of (process_request (\<lambda>h p. Some pong) (\<lambda>_. ''now'' @ [newline]) loopback [] pinger) =
      serve_session (\<lambda>h p. Some pong) (\<lambda>_. ''now'' @ [newline]) loopback (split_lines (stream (in_events pinger))) (fresh_session [])"
    "pred_sum (\<lambda>_. True) (\<lambda>s. px_closed s = (px_server s \<noteq> None))
      (process_request (\<lambda>h p. Some pong) (\<lambda>_. ''now'' @ [newline]) loopback [] pinger)"
    by (simp_all add: pinger_def)
  then show ?thesis unfolding example_session
    by (cases "process_request (\<lambda>h p. Some pong) (\<lambda>_. ''now'' @ [newline]) loopback [] pinger")
      (auto simp: session_of_def server_view_def map_option_case split: option.splits)
qed

end
