(* ===== verification/ProxyMain.thy ===== *)
theory ProxyMain
  imports Wrappers
begin

text \<open>
  \<^verbatim>\<open>main\<close> of \<^verbatim>\<open>proxylab/proxy.c\<close>: its setting up and a turn of its accept loop, over the wrappers. The
  functions of the system are the fields of \<open>main_calls\<close>; a new thread gets a cell that holds the
  client's descriptor and address.
\<close>

record thread_args =
  ta_fd :: int
  ta_addr :: sockaddr_in

record 'w main_calls =
  c_sigaction :: "int \<Rightarrow> int \<Rightarrow> 'w \<Rightarrow> (int \<times> int) \<times> 'w"
  c_fopen :: "string \<Rightarrow> string \<Rightarrow> 'w \<Rightarrow> int \<times> 'w"
  c_sem_init :: "int \<Rightarrow> int \<Rightarrow> 32 word \<Rightarrow> 'w \<Rightarrow> int \<times> 'w"
  c_net :: "'w net"
  c_malloc :: "nat \<Rightarrow> 'w \<Rightarrow> int \<times> 'w"
  c_accept :: "int \<Rightarrow> 'w \<Rightarrow> (int \<times> sockaddr_in) \<times> 'w"
  c_create :: "thread_args \<Rightarrow> int \<Rightarrow> int \<Rightarrow> int \<Rightarrow> int \<Rightarrow> 'w \<Rightarrow> int \<times> 'w"

definition SIGPIPE :: int where "SIGPIPE = 13"
definition SIG_IGN :: int where "SIG_IGN = 1"
definition PROXY_LOG :: string where "PROXY_LOG = ''proxy.log''"

text \<open>The addresses of the global semaphores.\<close>

definition mutex_log :: int where "mutex_log = 1"
definition mutex_sem :: int where "mutex_sem = 2"

definition proxy_usage :: "string list \<Rightarrow> csapp_stop" where
  "proxy_usage argv = Exited 0 (''Usage: '' @ (case argv of [] \<Rightarrow> ''(null)'' | a # _ \<Rightarrow> a) @ '' <port number>'' @ [newline])"

text \<open>The wrapper \<^verbatim>\<open>Open_listenfd\<close> with the error routine written out.\<close>

definition listen_or_exit :: "'w sys \<Rightarrow> 'w net \<Rightarrow> int \<Rightarrow> 'w \<Rightarrow> csapp_stop + (int \<times> 'w)" where
  "listen_or_exit S N port w = checked (\<lambda>rc w. rc < 0) (unix_error S ''Open_listenfd error'') (open_listenfd N port w)"

definition listening_line :: "int \<Rightarrow> string" where
  "listening_line port =
     ''Proxy server listening @ port: '' @ [CHR 0x1B] @ ''[1;33m'' @ show_int port @ [CHR 0x1B] @ ''[0m'' @ [newline]"

text \<open>Until the loop: the log file, the listening descriptor and what was printed.\<close>

definition proxy_setup :: "'w sys \<Rightarrow> 'w main_calls \<Rightarrow> string list \<Rightarrow> 'w \<Rightarrow> csapp_stop + ((int \<times> int \<times> string) \<times> 'w)" where
  "proxy_setup S C argv w =
     (if length argv \<noteq> 2 then Inl (proxy_usage argv)
      else
        and_then (Signal S (c_sigaction C) SIGPIPE SIG_IGN w) (\<lambda>(_, w).
        and_then (Fopen S (c_fopen C) PROXY_LOG ''a'' w) (\<lambda>(file_log, w).
          let (_, w) = c_sem_init C mutex_sem 0 1 w;
              (_, w) = c_sem_init C mutex_log 0 1 w;
              port = atoi (argv ! 1)
          in and_then (listen_or_exit S (c_net C) port w) (\<lambda>(listenfd, w).
               Inr ((file_log, listenfd, listening_line port), w)))))"

definition proxy_turn :: "'w sys \<Rightarrow> 'w main_calls \<Rightarrow> int \<Rightarrow> 'w \<Rightarrow> csapp_stop + ((int \<times> thread_args) \<times> 'w)" where
  "proxy_turn S C listenfd w =
     and_then (Malloc S (c_malloc C) 20 w) (\<lambda>(argsp, w).
     and_then (Accept S (c_accept C) listenfd w) (\<lambda>((connfd, clientaddr), w).
       let args = \<lparr>ta_fd = connfd, ta_addr = clientaddr\<rparr> in
     and_then (Pthread_create S (c_create C args) 0 NULL 0 argsp w) (\<lambda>(_, w). Inr ((argsp, args), w))))"

lemma listen_or_exit_wrapper: "(\<exists>r. listen_or_exit S N port w = Inr r) = (\<exists>r. Open_listenfd N port w = Inr r)"
  by (cases "open_listenfd N port w") (auto simp: listen_or_exit_def Open_listenfd_def)

text \<open>A turn ends in a thread exactly when its three calls succeed, and the thread then has the
  descriptor and the address that \<^verbatim>\<open>accept\<close> gave.\<close>

lemma proxy_turn_Inr:
  "proxy_turn S C listenfd w = Inr ((argsp, args), w3) \<longleftrightarrow>
   (\<exists>w1 w2. c_malloc C 20 w = (argsp, w1) \<and> argsp \<noteq> NULL \<and>
      c_accept C listenfd w1 = ((ta_fd args, ta_addr args), w2) \<and> 0 \<le> ta_fd args \<and>
      c_create C args 0 NULL 0 argsp w2 = (0, w3))"
  by (cases "c_malloc C 20 w"; cases "c_accept C listenfd (snd (c_malloc C 20 w))"; cases args)
    (auto simp: proxy_turn_def Malloc_def Accept_def Pthread_create_def Let_def map_value_def and_then_def checked_def checked_with_def
      split: sum.splits prod.splits if_splits)

end
