(* ===== verification/LogMutex.thy ===== *)
theory LogMutex
  imports Prelude "HOL-Library.Multiset"
begin

text \<open>
  The proxy's threads on their shared log (\<^verbatim>\<open>print_log\<close> of \<^verbatim>\<open>proxylab/proxy.c\<close>, with \<^verbatim>\<open>P\<close> and \<^verbatim>\<open>V\<close> of
  \<^verbatim>\<open>csapp.c\<close> on \<^verbatim>\<open>mutex_log\<close>). A call is a sequence of steps that other threads' steps can come between.
  \<^verbatim>\<open>fprintf\<close> puts its characters one by one into the stream's buffer, from which libc may write to the
  file at any time; \<^verbatim>\<open>fflush\<close> writes what is left. The list of the entries in the order in which their
  \<^verbatim>\<open>fprintf\<close> ended is kept beside the state.
\<close>

subsection \<open>The steps\<close>

text \<open>\<^verbatim>\<open>P\<close> and \<^verbatim>\<open>V\<close> end the program when \<^verbatim>\<open>sem_wait\<close> or \<^verbatim>\<open>sem_post\<close> fails. They do for a semaphore that was not initialized,
  for a wait that a signal handler interrupts and for a count above \<^verbatim>\<open>SEM_VALUE_MAX\<close>: none of these is possible for the
  proxy's semaphore, which \<^verbatim>\<open>main\<close> initializes with 1, in a program that installs no handler. Here they succeed; None is a \<^verbatim>\<open>P\<close>
  that has to wait.\<close>

definition sem_init :: "nat \<Rightarrow> nat" where "sem_init value = value"

definition P_sem :: "nat \<Rightarrow> nat option" where
  "P_sem s = (case s of 0 \<Rightarrow> None | Suc n \<Rightarrow> Some n)"

definition V_sem :: "nat \<Rightarrow> nat" where "V_sem s = Suc s"

text \<open>A thread between two calls, with the entries it will log, or inside one: after \<^verbatim>\<open>P\<close> with the rest of the
  entry to put, after \<^verbatim>\<open>fprintf\<close>, after \<^verbatim>\<open>fflush\<close>, and after \<^verbatim>\<open>V\<close>.\<close>

datatype log_thread =
    Outside "string list"
  | Writing string string "string list"
  | Flushing string "string list"
  | Releasing string "string list"
  | Printing string "string list"

record log_shared =
  mutex_log :: nat
  log_buffer :: string
  file_log :: string
  log_entries :: "string list"
  stdout_lines :: "string list"

inductive print_log_step :: "log_thread \<Rightarrow> log_shared \<Rightarrow> log_thread \<Rightarrow> log_shared \<Rightarrow> bool" where
  lock: "P_sem (mutex_log s) = Some n \<Longrightarrow>
    print_log_step (Outside (l # ls)) s (Writing l l ls) (s\<lparr>mutex_log := n\<rparr>)"
| put: "print_log_step (Writing l (c # cs) ls) s (Writing l cs ls) (s\<lparr>log_buffer := log_buffer s @ [c]\<rparr>)"
| spill: "log_buffer s = bs @ cs \<Longrightarrow> bs \<noteq> [] \<Longrightarrow>
    print_log_step (Writing l r ls) s (Writing l r ls) (s\<lparr>log_buffer := cs, file_log := file_log s @ bs\<rparr>)"
| put_all: "print_log_step (Writing l [] ls) s (Flushing l ls) (s\<lparr>log_entries := log_entries s @ [l]\<rparr>)"
| flush: "print_log_step (Flushing l ls) s (Releasing l ls) (s\<lparr>file_log := file_log s @ log_buffer s, log_buffer := []\<rparr>)"
| unlock: "print_log_step (Releasing l ls) s (Printing l ls) (s\<lparr>mutex_log := V_sem (mutex_log s)\<rparr>)"
| print: "print_log_step (Printing l ls) s (Outside ls) (s\<lparr>stdout_lines := stdout_lines s @ [l]\<rparr>)"

type_synonym log_system = "log_thread list \<times> log_shared"

inductive log_step :: "log_system \<Rightarrow> log_system \<Rightarrow> bool" where
  thread: "print_log_step t s t' s' \<Longrightarrow> log_step (ts @ t # us, s) (ts @ t' # us, s')"

definition log_start :: "string list list \<Rightarrow> log_system" where
  "log_start jobs = (map Outside jobs,
     \<lparr>mutex_log = sem_init 1, log_buffer = [], file_log = [], log_entries = [], stdout_lines = []\<rparr>)"

inductive log_reachable :: "string list list \<Rightarrow> log_system \<Rightarrow> bool" for jobs where
  start: "log_reachable jobs (log_start jobs)"
| step: "log_reachable jobs c \<Longrightarrow> log_step c c' \<Longrightarrow> log_reachable jobs c'"

inductive_cases print_log_stepE: "print_log_step t s t' s'"

subsection \<open>The invariant\<close>

fun critical :: "log_thread \<Rightarrow> bool" where
  "critical (Outside _) = False"
| "critical (Printing _ _) = False"
| "critical _ = True"

fun in_buffer :: "log_thread \<Rightarrow> bool" where
  "in_buffer (Writing _ _ _) = True"
| "in_buffer (Flushing _ _) = True"
| "in_buffer _ = False"

fun put_part :: "log_thread \<Rightarrow> string" where
  "put_part (Writing l cs _) = take (length l - length cs) l"
| "put_part _ = []"

fun thread_ok :: "log_thread \<Rightarrow> bool" where
  "thread_ok (Writing l cs _) = (drop (length l - length cs) l = cs \<and> length cs \<le> length l)"
| "thread_ok _ = True"

fun to_write :: "log_thread \<Rightarrow> string multiset" where
  "to_write (Outside ls) = mset ls"
| "to_write (Writing l _ ls) = add_mset l (mset ls)"
| "to_write (Flushing _ ls) = mset ls"
| "to_write (Releasing _ ls) = mset ls"
| "to_write (Printing _ ls) = mset ls"

fun to_print :: "log_thread \<Rightarrow> string multiset" where
  "to_print (Flushing l _) = {#l#}"
| "to_print (Releasing l _) = {#l#}"
| "to_print (Printing l _) = {#l#}"
| "to_print _ = {#}"

definition log_inv :: "string list list \<Rightarrow> log_system \<Rightarrow> bool" where
  "log_inv jobs = (\<lambda>(ts, s).
     mutex_log s + length (filter critical ts) = 1 \<and>
     file_log s @ log_buffer s = concat (log_entries s) @ concat (map put_part ts) \<and>
     (list_ex in_buffer ts \<or> log_buffer s = []) \<and>
     list_all thread_ok ts \<and>
     mset (log_entries s) + sum_list (map to_write ts) = mset (concat jobs) \<and>
     mset (stdout_lines s) + sum_list (map to_print ts) = mset (log_entries s))"

lemma not_critical: "filter critical ts = [] \<Longrightarrow> concat (map put_part ts) = [] \<and> \<not> list_ex in_buffer ts"
proof (induction ts)
  case (Cons t ts)
  then show ?case by (cases t) auto
qed simp

lemma to_write_start: "sum_list (map to_write (map Outside jobs)) = mset (concat jobs)"
  by (induction jobs) auto

lemma log_inv_start: "log_inv jobs (log_start jobs)"
proof -
  have "filter critical (map Outside jobs) = []" "list_all thread_ok (map Outside jobs)"
    "sum_list (map to_print (map Outside jobs)) = {#}"
    by (induction jobs) auto
  then show ?thesis
    using to_write_start [of jobs] not_critical [of "map Outside jobs"] by (simp add: log_inv_def log_start_def sem_init_def)
qed

text \<open>When a thread holds the semaphore, or is the first to get it, no other thread is in the critical
  section.\<close>

lemma log_inv_alone:
  assumes "log_inv jobs (ts @ t # us, s)" "critical t \<or> mutex_log s \<noteq> 0"
  shows "mutex_log s = (if critical t then 0 else 1)" "filter critical ts = []" "filter critical us = []"
    "concat (map put_part ts) = []" "concat (map put_part us) = []" "\<not> list_ex in_buffer ts" "\<not> list_ex in_buffer us"
proof -
  obtain a b where ab: "length (filter critical ts) = a" "length (filter critical us) = b" by simp
  have "mutex_log s + (a + (if critical t then 1 else 0) + b) = 1"
    using assms(1) ab by (cases "critical t") (auto simp: log_inv_def)
  with assms(2) have "mutex_log s = (if critical t then 0 else 1) \<and> a = 0 \<and> b = 0" by (auto split: if_splits)
  then show n: "mutex_log s = (if critical t then 0 else 1)" "filter critical ts = []" "filter critical us = []"
    using ab by simp_all
  show "concat (map put_part ts) = []" "concat (map put_part us) = []" "\<not> list_ex in_buffer ts" "\<not> list_ex in_buffer us"
    using n(2,3) not_critical by blast+
qed

lemma log_inv_thread:
  assumes inv: "log_inv jobs (ts @ t # us, s)" and step: "print_log_step t s t' s'"
  shows "log_inv jobs (ts @ t' # us, s')"
  using step
proof cases
  case (lock n l ls)
  have m: "mutex_log s = Suc n" using lock(4) by (simp add: P_sem_def split: nat.splits)
  then have "critical t \<or> mutex_log s \<noteq> 0" by simp
  note alone = log_inv_alone [OF inv this]
  show ?thesis using inv alone m by (auto simp: lock log_inv_def add_ac)
next
  case (put l c cs ls)
  have "critical t \<or> mutex_log s \<noteq> 0" by (simp add: put)
  note alone = log_inv_alone [OF inv this]
  have ok: "drop (length l - Suc (length cs)) l = c # cs" "Suc (length cs) \<le> length l"
    using inv by (auto simp: put log_inv_def)
  define k where "k = length l - Suc (length cs)"
  have k: "length l - length cs = Suc k" "k < length l" using ok(2) by (auto simp: k_def)
  have c: "drop k l = c # cs" using ok(1) by (simp add: k_def)
  have "l ! k = c" "drop (Suc k) l = cs" using c k(2) by (simp_all add: Cons_nth_drop_Suc [symmetric])
  then have "take (Suc k) l = take k l @ [c]" using k(2) by (simp add: take_Suc_conv_app_nth)
  then show ?thesis
    using inv alone k \<open>drop (Suc k) l = cs\<close> ok(2)
    by (simp add: put log_inv_def k_def [symmetric] append_assoc [symmetric] del: append_assoc concat_eq_Nil_conv)
next
  case (spill bs cs l r ls)
  then show ?thesis using inv by (auto simp: log_inv_def)
next
  case (put_all l ls)
  have "critical t \<or> mutex_log s \<noteq> 0" by (simp add: put_all)
  note alone = log_inv_alone [OF inv this]
  show ?thesis using inv alone by (auto simp: put_all log_inv_def add_ac)
next
  case (flush l ls)
  have "critical t \<or> mutex_log s \<noteq> 0" by (simp add: flush)
  note alone = log_inv_alone [OF inv this]
  show ?thesis using inv alone by (auto simp: flush log_inv_def)
next
  case (unlock l ls)
  have "critical t \<or> mutex_log s \<noteq> 0" by (simp add: unlock)
  note alone = log_inv_alone [OF inv this]
  show ?thesis using inv alone by (auto simp: unlock log_inv_def V_sem_def)
next
  case (print l ls)
  then show ?thesis using inv by (auto simp: log_inv_def add_ac)
qed

lemma log_inv_step:
  assumes "log_step c c'" "log_inv jobs c"
  shows "log_inv jobs c'"
  using assms by cases (blast intro: log_inv_thread)

lemma log_inv_reachable: "log_reachable jobs c \<Longrightarrow> log_inv jobs c"
  by (induction rule: log_reachable.induct) (blast intro: log_inv_start log_inv_step)+

subsection \<open>Progress\<close>

fun thread_work :: "log_thread \<Rightarrow> nat" where
  "thread_work (Outside ls) = sum_list (map (\<lambda>l. 2 * length l + 6) ls)"
| "thread_work (Writing _ cs ls) = 2 * length cs + 5 + sum_list (map (\<lambda>l. 2 * length l + 6) ls)"
| "thread_work (Flushing _ ls) = 4 + sum_list (map (\<lambda>l. 2 * length l + 6) ls)"
| "thread_work (Releasing _ ls) = 3 + sum_list (map (\<lambda>l. 2 * length l + 6) ls)"
| "thread_work (Printing _ ls) = 2 + sum_list (map (\<lambda>l. 2 * length l + 6) ls)"

definition log_work :: "log_system \<Rightarrow> nat" where
  "log_work = (\<lambda>(ts, s). sum_list (map thread_work ts) + length (log_buffer s))"

lemma log_step_work: "log_step c c' \<Longrightarrow> log_work c' < log_work c"
  by (cases rule: log_step.cases, assumption, erule print_log_stepE) (auto simp: log_work_def)

lemma log_step_wf: "wf {(c', c). log_step c c'}"
  by (rule wf_subset [OF wf_measure [of log_work]]) (auto dest: log_step_work)

text \<open>A thread that has work left moves, or waits for the semaphore.\<close>

lemma thread_moves:
  assumes "t \<noteq> Outside []" "mutex_log s \<noteq> 0 \<or> critical t \<or> in_buffer t \<or> (\<exists>l ls. t = Printing l ls)"
  shows "\<exists>t' s'. print_log_step t s t' s'"
proof (cases t)
  case (Outside ls)
  then obtain l r where "ls = l # r" using assms(1) by (cases ls) auto
  moreover obtain n where "P_sem (mutex_log s) = Some n"
    using assms(2) Outside by (cases "mutex_log s") (auto simp: P_sem_def)
  ultimately show ?thesis unfolding Outside by (blast intro: print_log_step.lock)
next
  case (Writing l cs ls)
  then show ?thesis by (cases cs) (blast intro: print_log_step.put print_log_step.put_all)+
qed (blast intro: print_log_step.intros)+

lemma log_moves:
  assumes "log_inv jobs (ts, s)" "t \<in> set ts" "t \<noteq> Outside []"
  shows "\<exists>c. log_step (ts, s) c"
proof -
  have "\<exists>u \<in> set ts. u \<noteq> Outside [] \<and> (mutex_log s \<noteq> 0 \<or> critical u \<or> in_buffer u \<or> (\<exists>l ls. u = Printing l ls))"
  proof (cases "mutex_log s = 0")
    case True
    then have "filter critical ts \<noteq> []" using assms(1) by (auto simp: log_inv_def)
    then obtain u where "u \<in> set ts" "critical u" by (auto simp: filter_empty_conv)
    moreover then have "u \<noteq> Outside []" by auto
    ultimately show ?thesis by blast
  next
    case False
    then show ?thesis using assms(2,3) by blast
  qed
  then obtain u t' s' where u: "u \<in> set ts" "print_log_step u s t' s'" using thread_moves by meson
  then obtain as bs where "ts = as @ u # bs" by (auto simp: in_set_conv_decomp)
  then show ?thesis using log_step.thread [OF u(2), of as bs] by blast
qed

text \<open>C40. However the threads' steps interleave, at most one thread is between \<^verbatim>\<open>P\<close> and \<^verbatim>\<open>V\<close>; whenever the
  semaphore is free the log file consists of whole entries, in the order in which they were written,
  and no entry is written twice; some thread can always move until every entry of every thread is in
  the log and on the standard output, and every run is finite.\<close>

theorem log_entries_whole:
  assumes "log_reachable jobs (ts, s)"
  shows "length (filter critical ts) \<le> 1 \<and>
    (mutex_log s = 1 \<longrightarrow> file_log s = concat (log_entries s)) \<and>
    mset (log_entries s) \<subseteq># mset (concat jobs) \<and>
    ((\<exists>c. log_step (ts, s) c) \<or>
      mutex_log s = 1 \<and> mset (log_entries s) = mset (concat jobs) \<and> mset (stdout_lines s) = mset (concat jobs)) \<and>
    wf {(c', c). log_step c c'}"
proof -
  note inv = log_inv_reachable [OF assms]
  have "mutex_log s = 1 \<longrightarrow> file_log s = concat (log_entries s)"
  proof
    assume "mutex_log s = 1"
    then have "filter critical ts = []" using inv by (simp add: log_inv_def)
    from not_critical [OF this] inv show "file_log s = concat (log_entries s)" by (auto simp: log_inv_def)
  qed
  moreover have "mset (log_entries s) \<subseteq># mset (concat jobs)"
    using inv mset_subset_eq_add_left [of "mset (log_entries s)" "sum_list (map to_write ts)"] by (simp add: log_inv_def)
  moreover have "mutex_log s = 1 \<and> mset (log_entries s) = mset (concat jobs) \<and> mset (stdout_lines s) = mset (concat jobs)"
    if "\<nexists>c. log_step (ts, s) c"
  proof -
    have "\<forall>t \<in> set ts. t = Outside []" using log_moves [OF inv] that by blast
    then have "filter critical ts = [] \<and> sum_list (map to_write ts) = {#} \<and> sum_list (map to_print ts) = {#}"
      by (induction ts) auto
    then show ?thesis using inv by (simp add: log_inv_def)
  qed
  moreover have "length (filter critical ts) \<le> 1" using inv by (simp add: log_inv_def)
  ultimately show ?thesis using log_step_wf by blast
qed

theorem log_entries_whole_witness:
  "length (filter critical [Writing ''ab'' ''b'' [], Outside [''c'']]) \<le> 1 \<and>
   mset ([] :: string list) \<subseteq># mset (concat [[''ab''], [''c'']])"
proof -
  let ?s0 = "snd (log_start [[''ab''], [''c'']])"
  let ?s1 = "?s0\<lparr>mutex_log := 0\<rparr>"
  let ?s2 = "?s1\<lparr>log_buffer := log_buffer ?s1 @ ''a''\<rparr>"
  have "log_start [[''ab''], [''c'']] = ([] @ Outside [''ab''] # [Outside [''c'']], ?s0)" by (simp add: log_start_def)
  then have r0: "log_reachable [[''ab''], [''c'']] ([] @ Outside [''ab''] # [Outside [''c'']], ?s0)"
    using log_reachable.start [of "[[''ab''], [''c'']]"] by simp
  have "print_log_step (Outside [''ab'']) ?s0 (Writing ''ab'' ''ab'' []) ?s1"
    by (rule print_log_step.lock) (simp add: log_start_def sem_init_def P_sem_def)
  from log_reachable.step [OF r0 log_step.thread [OF this, of "[]" "[Outside [''c'']]"]]
  have r1: "log_reachable [[''ab''], [''c'']] ([] @ Writing ''ab'' ''ab'' [] # [Outside [''c'']], ?s1)" .
  have "print_log_step (Writing ''ab'' ''ab'' []) ?s1 (Writing ''ab'' ''b'' []) ?s2" by (rule print_log_step.put)
  from log_reachable.step [OF r1 log_step.thread [OF this, of "[]" "[Outside [''c'']]"]]
  have "log_reachable [[''ab''], [''c'']] ([Writing ''ab'' ''b'' [], Outside [''c'']], ?s2)" by simp
  from log_entries_whole [OF this] show ?thesis by (simp add: log_start_def)
qed

end
