(* ===== verification/LogDate.thy ===== *)
theory LogDate
  imports Proxy "HOL-Library.Sublist"
begin

text \<open>
  The proxy's threads in \<^verbatim>\<open>deal_log_format\<close> (\<^verbatim>\<open>proxylab/proxy.c\<close>). \<^verbatim>\<open>localtime\<close> and \<^verbatim>\<open>asctime\<close> give pointers to
  static storage that all threads share, and no semaphore is held: what a thread does is a sequence of calls, other threads'
  calls can come between them, and can overlap with them. Thread \<open>i\<close> serves a list of replies; \<open>date\<close> is the text that
  \<^verbatim>\<open>asctime\<close> makes of a time, which for the years up to 9999 has 25 characters and ends the line.
\<close>

subsection \<open>The steps\<close>

record 'time reply =
  r_time :: 'time
  r_sock :: sockaddr_in
  r_buf :: string

text \<open>Before \<^verbatim>\<open>time\<close>; after \<^verbatim>\<open>localtime\<close>, after \<^verbatim>\<open>asctime\<close>, after \<^verbatim>\<open>strlen(tt)-1\<close> has been computed, and after the NUL
  has been stored there.\<close>

datatype 'time date_thread =
    Begin "'time reply list"
  | Localtime "'time reply" "'time reply list"
  | Asctime "'time reply" "'time reply list"
  | Cutting nat "'time reply" "'time reply list"
  | Cut "'time reply" "'time reply list"

record 'time date_shared =
  static_tm :: "'time option"
  static_text :: string
  entries :: "('time reply \<times> string) list"
  outside :: bool       \<comment> \<open>a store before the first character of the text\<close>

inductive date_thread_step :: "('time \<Rightarrow> string) \<Rightarrow> 'time date_thread \<Rightarrow> 'time date_shared
    \<Rightarrow> 'time date_thread \<Rightarrow> 'time date_shared \<Rightarrow> bool" for date where
  localtime: "date_thread_step date (Begin (r # rs)) s (Localtime r rs) (s\<lparr>static_tm := Some (r_time r)\<rparr>)"
| asctime: "static_tm s = Some t \<Longrightarrow>
    date_thread_step date (Localtime r rs) s (Asctime r rs) (s\<lparr>static_text := date t\<rparr>)"
| strlen: "static_text s \<noteq> [] \<Longrightarrow>
    date_thread_step date (Asctime r rs) s (Cutting (length (static_text s) - 1) r rs) s"
| strlen0: "static_text s = [] \<Longrightarrow> date_thread_step date (Asctime r rs) s (Cut r rs) (s\<lparr>outside := True\<rparr>)"
| store: "date_thread_step date (Cutting k r rs) s (Cut r rs) (s\<lparr>static_text := take k (static_text s)\<rparr>)"
| sprintf: "date_thread_step date (Cut r rs) s (Begin rs)
    (s\<lparr>entries := entries s @ [(r, log_entry (static_text s) (r_sock r) (r_buf r))]\<rparr>)"

text \<open>No call is atomic. A thread that is at one of these steps enters the call and later leaves it, and the effect
  of the step is that of the leaving. Two calls conflict when they use the same static storage and one of
  them changes it; from the first time that two conflicting calls overlap (\<open>overlapped\<close>) the storage can hold
  anything, at any moment (\<open>torn\<close>): neither \<^verbatim>\<open>localtime\<close> nor \<^verbatim>\<open>asctime\<close> promises more to threads.\<close>

datatype storage = Broken_down | Text

fun changed :: "'time date_thread \<Rightarrow> storage set" where
  "changed (Begin rs) = {Broken_down}"
| "changed (Localtime r rs) = {Text}"
| "changed (Asctime r rs) = {}"
| "changed (Cutting k r rs) = {Text}"
| "changed (Cut r rs) = {}"

fun used :: "'time date_thread \<Rightarrow> storage set" where
  "used (Begin rs) = {Broken_down}"
| "used (Localtime r rs) = {Broken_down, Text}"
| "used (Asctime r rs) = {Text}"
| "used (Cutting k r rs) = {Text}"
| "used (Cut r rs) = {Text}"

definition conflict :: "'time date_thread \<Rightarrow> 'time date_thread \<Rightarrow> bool" where
  "conflict t u \<longleftrightarrow> changed t \<inter> used u \<noteq> {} \<or> used t \<inter> changed u \<noteq> {}"

record 'time date_system =
  threads :: "nat \<Rightarrow> 'time date_thread"
  inside :: "nat set"       \<comment> \<open>the threads that are in a call\<close>
  overlapped :: bool
  shared :: "'time date_shared"

inductive date_step :: "('time \<Rightarrow> string) \<Rightarrow> 'time date_system \<Rightarrow> 'time date_system \<Rightarrow> bool" for date where
  enter: "i \<notin> inside c \<Longrightarrow> threads c i \<noteq> Begin [] \<Longrightarrow>
    date_step date c (c\<lparr>inside := insert i (inside c),
      overlapped := overlapped c \<or> (\<exists>j \<in> inside c. conflict (threads c i) (threads c j))\<rparr>)"
| leave: "i \<in> inside c \<Longrightarrow> date_thread_step date (threads c i) (shared c) t s' \<Longrightarrow>
    date_step date c (c\<lparr>threads := (threads c)(i := t), inside := inside c - {i}, shared := s'\<rparr>)"
| torn: "overlapped c \<Longrightarrow>
    date_step date c (c\<lparr>shared := (shared c)\<lparr>static_tm := x, static_text := d, outside := b\<rparr>\<rparr>)"

definition date_start :: "(nat \<Rightarrow> 'time reply list) \<Rightarrow> 'time date_system" where
  "date_start jobs = \<lparr>threads = \<lambda>i. Begin (jobs i), inside = {}, overlapped = False,
     shared = \<lparr>static_tm = None, static_text = [], entries = [], outside = False\<rparr>\<rparr>"

abbreviation date_reachable :: "('time \<Rightarrow> string) \<Rightarrow> (nat \<Rightarrow> 'time reply list) \<Rightarrow> 'time date_system \<Rightarrow> bool" where
  "date_reachable date jobs \<equiv> (date_step date)\<^sup>*\<^sup>* (date_start jobs)"

inductive_cases date_thread_stepE: "date_thread_step date t s t' s'"

subsection \<open>Every date comes from some reply\<close>

fun to_do :: "'time date_thread \<Rightarrow> 'time reply set" where
  "to_do (Begin rs) = set rs"
| "to_do (Localtime r rs) = insert r (set rs)"
| "to_do (Asctime r rs) = insert r (set rs)"
| "to_do (Cutting k r rs) = insert r (set rs)"
| "to_do (Cut r rs) = insert r (set rs)"

definition replies :: "(nat \<Rightarrow> 'time reply list) \<Rightarrow> 'time reply set" where
  "replies jobs = (\<Union>i. set (jobs i))"

definition some_date :: "('time \<Rightarrow> string) \<Rightarrow> (nat \<Rightarrow> 'time reply list) \<Rightarrow> string \<Rightarrow> bool" where
  "some_date date jobs d \<longleftrightarrow> d = [] \<or> (\<exists>r \<in> replies jobs. prefix d (date (r_time r)))"

text \<open>An entry is that of a reply, with the address and the text of its own; the date is one that satisfies \<open>P\<close>.\<close>

definition entry_of :: "(nat \<Rightarrow> 'time reply list) \<Rightarrow> (string \<Rightarrow> bool) \<Rightarrow> 'time reply \<times> string \<Rightarrow> bool" where
  "entry_of jobs P e \<longleftrightarrow> fst e \<in> replies jobs \<and> (\<exists>d. P d \<and> snd e = log_entry d (r_sock (fst e)) (r_buf (fst e)))"

definition shared_inv :: "('time \<Rightarrow> string) \<Rightarrow> (nat \<Rightarrow> 'time reply list) \<Rightarrow> 'time date_shared \<Rightarrow> bool" where
  "shared_inv date jobs s \<longleftrightarrow>
     (\<forall>t. static_tm s = Some t \<longrightarrow> t \<in> r_time ` replies jobs) \<and>
     some_date date jobs (static_text s) \<and>
     (\<forall>e \<in> set (entries s). entry_of jobs (some_date date jobs) e)"

definition date_inv :: "('time \<Rightarrow> string) \<Rightarrow> (nat \<Rightarrow> 'time reply list) \<Rightarrow> 'time date_system \<Rightarrow> bool" where
  "date_inv date jobs c \<longleftrightarrow>
     (\<forall>i. to_do (threads c i) \<subseteq> replies jobs) \<and>
     (\<forall>e \<in> set (entries (shared c)). entry_of jobs (\<lambda>_. True) e) \<and>
     (\<not> overlapped c \<longrightarrow> shared_inv date jobs (shared c))"

lemma some_date_take: "some_date date jobs d \<Longrightarrow> some_date date jobs (take k d)"
  unfolding some_date_def by (metis prefix_order.trans take_is_prefix take_Nil)

lemma date_inv_start: "date_inv date jobs (date_start jobs)"
  by (auto simp: date_inv_def shared_inv_def date_start_def some_date_def replies_def)

lemma thread_step_to_do: "date_thread_step date t s t' s' \<Longrightarrow> to_do t' \<subseteq> to_do t"
  by (induction rule: date_thread_step.induct) auto

lemma thread_step_entries:
  "date_thread_step date t s t' s' \<Longrightarrow> to_do t \<subseteq> replies jobs \<Longrightarrow>
     \<forall>e \<in> set (entries s). entry_of jobs (\<lambda>_. True) e \<Longrightarrow> \<forall>e \<in> set (entries s'). entry_of jobs (\<lambda>_. True) e"
  by (induction rule: date_thread_step.induct) (auto simp: entry_of_def)

lemma thread_step_shared:
  "date_thread_step date t s t' s' \<Longrightarrow> to_do t \<subseteq> replies jobs \<Longrightarrow> shared_inv date jobs s \<Longrightarrow> shared_inv date jobs s'"
proof (induction rule: date_thread_step.induct)
  case (asctime s t r rs)
  then show ?case by (auto simp: shared_inv_def some_date_def)
next
  case (sprintf r rs s)
  then show ?case by (auto simp: shared_inv_def entry_of_def)
qed (auto simp: shared_inv_def some_date_take)

lemma date_inv_step: "date_step date c c' \<Longrightarrow> date_inv date jobs c \<Longrightarrow> date_inv date jobs c'"
proof (induction rule: date_step.induct)
  case (leave i c t s')
  then have "to_do (threads c i) \<subseteq> replies jobs" by (simp add: date_inv_def)
  then show ?case
    using leave(3) order_trans [OF thread_step_to_do [OF leave(2)]] thread_step_entries [OF leave(2)] thread_step_shared [OF leave(2)]
    by (simp add: date_inv_def)
qed (auto simp: date_inv_def)

lemma date_inv_reachable: "date_reachable date jobs c \<Longrightarrow> date_inv date jobs c"
  by (induction rule: rtranclp_induct) (blast intro: date_inv_start date_inv_step)+

subsection \<open>One thread alone\<close>

definition right_entry :: "('time \<Rightarrow> string) \<Rightarrow> 'time reply \<Rightarrow> 'time reply \<times> string" where
  "right_entry date r = (r, log_text (date (r_time r)) (r_sock r) (r_buf r))"

fun in_order :: "('time \<Rightarrow> string) \<Rightarrow> 'time date_thread \<Rightarrow> 'time date_shared \<Rightarrow> bool" where
  "in_order date (Begin rs) s \<longleftrightarrow> True"
| "in_order date (Localtime r rs) s \<longleftrightarrow> static_tm s = Some (r_time r)"
| "in_order date (Asctime r rs) s \<longleftrightarrow> static_text s = date (r_time r)"
| "in_order date (Cutting k r rs) s \<longleftrightarrow> static_text s = date (r_time r) \<and> k = length (static_text s) - 1"
| "in_order date (Cut r rs) s \<longleftrightarrow> static_text s = butlast (date (r_time r))"

fun waiting :: "'time date_thread \<Rightarrow> 'time reply list" where
  "waiting (Begin rs) = rs"
| "waiting (Localtime r rs) = r # rs"
| "waiting (Asctime r rs) = r # rs"
| "waiting (Cutting k r rs) = r # rs"
| "waiting (Cut r rs) = r # rs"

definition own_inv :: "('time \<Rightarrow> string) \<Rightarrow> 'time reply list \<Rightarrow> 'time date_thread \<Rightarrow> 'time date_shared \<Rightarrow> bool" where
  "own_inv date rs t s \<longleftrightarrow> in_order date t s \<and> \<not> outside s \<and>
     (\<exists>served. rs = served @ waiting t \<and> entries s = map (right_entry date) served)"

definition alone_inv :: "('time \<Rightarrow> string) \<Rightarrow> nat \<Rightarrow> 'time reply list \<Rightarrow> 'time date_system \<Rightarrow> bool" where
  "alone_inv date i rs c \<longleftrightarrow> (\<forall>j. j \<noteq> i \<longrightarrow> threads c j = Begin []) \<and> inside c \<subseteq> {i} \<and> \<not> overlapped c \<and>
     own_inv date rs (threads c i) (shared c)"

lemma own_step:
  "date_thread_step date t s t' s' \<Longrightarrow> own_inv date rs t s \<Longrightarrow> \<forall>t. date t \<noteq> [] \<Longrightarrow> own_inv date rs t' s'"
proof (induction rule: date_thread_step.induct)
  case (sprintf r rs' s)
  then obtain served where "rs = (served @ [r]) @ rs'" "entries s = map (right_entry date) served"
    by (auto simp: own_inv_def)
  with sprintf show ?case
    by (auto simp: own_inv_def right_entry_def log_text_def intro!: exI [of _ "served @ [r]"])
next
  case (strlen0 s r rs')
  then have "date (r_time r) = []" by (simp add: own_inv_def)
  with strlen0(3) show ?case by simp
qed (auto simp: own_inv_def butlast_conv_take)

lemma alone_step:
  "date_step date c c' \<Longrightarrow> alone_inv date i rs c \<Longrightarrow> \<forall>t. date t \<noteq> [] \<Longrightarrow> alone_inv date i rs c'"
proof (induction rule: date_step.induct)
  case (enter j c)
  then have "j = i" by (auto simp: alone_inv_def)
  with enter show ?case by (auto simp: alone_inv_def)
next
  case (leave j c t s')
  then have "j = i" by (auto simp: alone_inv_def)
  with leave show ?case by (auto simp: alone_inv_def intro: own_step)
qed (simp add: alone_inv_def)

lemma alone_reachable:
  assumes "date_reachable date jobs c" "\<forall>j. j \<noteq> i \<longrightarrow> jobs j = []" "\<forall>t. date t \<noteq> []"
  shows "alone_inv date i (jobs i) c"
  using assms(1)
proof (induction rule: rtranclp_induct)
  case base
  show ?case using assms(2) by (simp add: alone_inv_def own_inv_def date_start_def)
qed (use alone_step assms(3) in blast)

subsection \<open>Two threads\<close>

text \<open>A whole call of one thread: nobody else is in a call, or two calls have overlapped before.\<close>

lemma whole_call:
  assumes "date_reachable date jobs c" "i \<notin> inside c" "inside c = {} \<or> overlapped c"
    "date_thread_step date (threads c i) (shared c) t s'"
  shows "date_reachable date jobs (c\<lparr>threads := (threads c)(i := t), shared := s'\<rparr>)"
proof -
  let ?c = "c\<lparr>inside := insert i (inside c)\<rparr>"
  have "threads c i \<noteq> Begin []" using assms(4) by (auto elim: date_thread_stepE)
  moreover have "(overlapped c \<or> (\<exists>j \<in> inside c. conflict (threads c i) (threads c j))) = overlapped c"
    using assms(3) by auto
  ultimately have "date_step date c ?c" using date_step.enter [of i c date] assms(2) by simp
  moreover have "date_step date ?c (c\<lparr>threads := (threads c)(i := t), shared := s'\<rparr>)"
    using date_step.leave [of i ?c date t s'] assms(2,4) by simp
  ultimately show ?thesis using assms(1) by (meson rtranclp.rtrancl_into_rtrancl)
qed

definition quiet :: "'time date_system \<Rightarrow> bool" where
  "quiet c \<longleftrightarrow> inside c = {} \<and> \<not> overlapped c"

lemma quiet_call:
  assumes "date_reachable date jobs c" "quiet c" "threads c i = t" "date_thread_step date t (shared c) t' s'"
  shows "\<exists>c'. date_reachable date jobs c' \<and> quiet c' \<and> threads c' = (threads c)(i := t') \<and> shared c' = s'"
  using whole_call [of date jobs c i t' s'] assms
  by (intro exI [of _ "c\<lparr>threads := (threads c)(i := t'), shared := s'\<rparr>"]) (simp add: quiet_def)

text \<open>A thread that is between \<^verbatim>\<open>strlen\<close> and its store, while another serves a reply: the other's text is cut at the
  old place, found too short by one more, and the first thread logs it.\<close>

lemma stale_cut:
  assumes "date_reachable date jobs c" "quiet c" "i \<noteq> j" "threads c i = Cutting k a as" "threads c j = Begin (b # bs)"
    "k \<le> length (date (r_time b))"
  shows "\<exists>c'. date_reachable date jobs c' \<and> quiet c' \<and> static_text (shared c') = take k (date (r_time b)) \<and>
    threads c' i = Cut a as \<and> threads c' j = Asctime b bs"
proof -
  from quiet_call [OF assms(1,2,5) date_thread_step.localtime] obtain c1 where
    c1: "date_reachable date jobs c1" "quiet c1" "threads c1 = (threads c)(j := Localtime b bs)"
      "static_tm (shared c1) = Some (r_time b)" by force
  from quiet_call [OF c1(1,2) _ date_thread_step.asctime [OF c1(4)], of j b bs] c1(3) obtain c2 where
    c2: "date_reachable date jobs c2" "quiet c2" "threads c2 = (threads c)(j := Asctime b bs)"
      "static_text (shared c2) = date (r_time b)" by force
  from quiet_call [OF c2(1,2) _ date_thread_step.store, of i k a as] c2(3) assms(3,4) obtain c3 where
    c3: "date_reachable date jobs c3" "quiet c3" "threads c3 = (threads c2)(i := Cut a as)"
      "static_text (shared c3) = take k (static_text (shared c2))" by force
  show ?thesis using c3 c2(3,4) assms(3) by (intro exI [of _ c3]) simp
qed

lemma finish_cut:
  assumes "date_reachable date jobs c" "quiet c" "i \<noteq> j" "threads c i = Cut a as" "threads c j = Asctime b bs"
    "static_text (shared c) \<noteq> []"
  shows "\<exists>c'. date_reachable date jobs c' \<and> quiet c' \<and> threads c' i = Begin as \<and>
    threads c' j = Cutting (length (static_text (shared c)) - 1) b bs \<and>
    (a, log_entry (static_text (shared c)) (r_sock a) (r_buf a)) \<in> set (entries (shared c'))"
proof -
  from quiet_call [OF assms(1,2,5) date_thread_step.strlen [OF assms(6)]] obtain c1 where
    c1: "date_reachable date jobs c1" "quiet c1"
      "threads c1 = (threads c)(j := Cutting (length (static_text (shared c)) - 1) b bs)" "shared c1 = shared c" by force
  have "threads c1 i = Cut a as" using c1(3) assms(3,4) by simp
  from quiet_call [OF c1(1,2) this date_thread_step.sprintf] obtain c2 where
    c2: "date_reachable date jobs c2" "quiet c2" "threads c2 = (threads c1)(i := Begin as)"
      "entries (shared c2) = entries (shared c1) @ [(a, log_entry (static_text (shared c1)) (r_sock a) (r_buf a))]" by force
  show ?thesis using c2 c1(3,4) assms(3) by (intro exI [of _ c2]) simp
qed

lemma shrinking:
  assumes "\<forall>t. length (date t) = 25"
  shows "date_reachable date jobs c \<Longrightarrow> quiet c \<Longrightarrow> i \<noteq> j \<Longrightarrow> threads c i = Cutting k a as \<Longrightarrow> threads c j = Begin bs \<Longrightarrow>
    k \<le> 24 \<Longrightarrow> k < length bs \<Longrightarrow> k \<le> length as \<Longrightarrow> \<exists>c'. date_reachable date jobs c' \<and> quiet c' \<and> outside (shared c')"
proof (induction k arbitrary: c i j a as bs)
  case 0
  then obtain b bs' where bs: "bs = b # bs'" by (cases bs) auto
  from stale_cut [OF "0.prems"(1-4)] "0.prems"(5) obtain c1 where
    c1: "date_reachable date jobs c1" "quiet c1" "static_text (shared c1) = []" "threads c1 j = Asctime b bs'" by (force simp: bs)
  from quiet_call [OF c1(1,2,4) date_thread_step.strlen0 [OF c1(3)]] show ?case by force
next
  case (Suc k)
  then obtain b bs' where bs: "bs = b # bs'" by (cases bs) auto
  have "Suc k \<le> length (date (r_time b))" using assms Suc.prems(6) by simp
  from stale_cut [OF Suc.prems(1-4) _ this] Suc.prems(5) obtain c1 where
    c1: "date_reachable date jobs c1" "quiet c1" "static_text (shared c1) = take (Suc k) (date (r_time b))"
      "threads c1 i = Cut a as" "threads c1 j = Asctime b bs'"
    by (force simp: bs)
  have l: "length (static_text (shared c1)) = Suc k" using c1(3) assms Suc.prems(6) by simp
  then have "static_text (shared c1) \<noteq> []" by auto
  from finish_cut [OF c1(1,2) Suc.prems(3) c1(4,5) this] l obtain c2 where
    c2: "date_reachable date jobs c2" "quiet c2" "threads c2 i = Begin as" "threads c2 j = Cutting k b bs'" by auto
  show ?case
    using Suc.IH [OF c2(1,2) Suc.prems(3) [symmetric] c2(4,3)] Suc.prems(6-8) by (simp add: bs)
qed

lemma quiet_start: "quiet (date_start jobs)" "threads (date_start jobs) i = Begin (jobs i)"
  by (simp_all add: quiet_def date_start_def)

lemma first_cut:
  assumes "\<forall>t. length (date t) = 25" "jobs i = a # as"
  shows "\<exists>c. date_reachable date jobs c \<and> quiet c \<and> threads c i = Cutting 24 a as \<and> (\<forall>j. j \<noteq> i \<longrightarrow> threads c j = Begin (jobs j))"
proof -
  from quiet_call [OF rtranclp.rtrancl_refl quiet_start(1) _ date_thread_step.localtime, of jobs i a as date] assms(2)
  obtain c1 where c1: "date_reachable date jobs c1" "quiet c1" "threads c1 = (threads (date_start jobs))(i := Localtime a as)"
      "static_tm (shared c1) = Some (r_time a)" by (force simp: quiet_start)
  from quiet_call [OF c1(1,2) _ date_thread_step.asctime [OF c1(4)], of i a as] c1(3) obtain c2 where
    c2: "date_reachable date jobs c2" "quiet c2" "threads c2 = (threads (date_start jobs))(i := Asctime a as)"
      "static_text (shared c2) = date (r_time a)" by force
  have "length (static_text (shared c2)) = 25" using c2(4) assms(1) by simp
  then have l: "static_text (shared c2) \<noteq> []" "length (static_text (shared c2)) - 1 = 24" by auto
  from quiet_call [OF c2(1,2) _ date_thread_step.strlen [OF l(1)], of i a as] c2(3) l(2) show ?thesis
    by (force simp: quiet_start)
qed

text \<open>Nothing keeps two calls of \<^verbatim>\<open>localtime\<close> apart; then any text can be logged.\<close>

lemma overlap_reachable:
  assumes "i \<noteq> j" "jobs i = a # as" "jobs j = b # bs"
  shows "\<exists>c. date_reachable date jobs c \<and> overlapped c \<and> threads c i = Begin (a # as) \<and> inside c = {i, j}"
proof -
  let ?c0 = "date_start jobs"
  let ?c1 = "?c0\<lparr>inside := {i}\<rparr>"
  let ?c2 = "?c1\<lparr>inside := {i, j}, overlapped := True\<rparr>"
  have "date_step date ?c0 ?c1"
    using date_step.enter [of i ?c0 date] assms by (simp add: date_start_def)
  moreover have "date_step date ?c1 ?c2"
    using date_step.enter [of j ?c1 date] assms by (simp add: date_start_def conflict_def insert_commute)
  ultimately have "date_reachable date jobs ?c2" by (meson rtranclp.rtrancl_into_rtrancl rtranclp.rtrancl_refl)
  then show ?thesis using assms by (intro exI [of _ ?c2]) (simp add: quiet_start)
qed

lemma any_text:
  assumes "\<forall>t. length (date t) = 25" "i \<noteq> j" "jobs i = a # as" "jobs j = b # bs"
  shows "\<exists>c. date_reachable date jobs c \<and> (a, log_entry d (r_sock a) (r_buf a)) \<in> set (entries (shared c))"
proof -
  have call: "\<exists>c'. date_reachable date jobs c' \<and> overlapped c' \<and> i \<notin> inside c' \<and> threads c' i = t' \<and> shared c' = s'"
    if "date_reachable date jobs c" "overlapped c" "i \<notin> inside c" "threads c i = t" "date_thread_step date t (shared c) t' s'"
    for c t t' s'
    using whole_call [of date jobs c i t' s'] that
    by (intro exI [of _ "c\<lparr>threads := (threads c)(i := t'), shared := s'\<rparr>"]) simp
  obtain c1 where c1: "date_reachable date jobs c1" "overlapped c1" "threads c1 i = Begin (a # as)" "inside c1 = {i, j}"
    using overlap_reachable assms by metis
  let ?c2 = "c1\<lparr>threads := (threads c1)(i := Localtime a as), inside := {j}, shared := (shared c1)\<lparr>static_tm := Some (r_time a)\<rparr>\<rparr>"
  have "date_step date c1 ?c2"
    using date_step.leave [of i c1 date] date_thread_step.localtime [of date a as "shared c1"] c1(3,4) assms(2)
    by (simp add: insert_Diff_if)
  then have c2: "date_reachable date jobs ?c2" using c1(1) by (meson rtranclp.rtrancl_into_rtrancl)
  from call [OF c2 _ _ _ date_thread_step.asctime [of _ "r_time a" _ a as]] c1(2) assms(2) obtain c3 where
    c3: "date_reachable date jobs c3" "overlapped c3" "i \<notin> inside c3" "threads c3 i = Asctime a as"
      "static_text (shared c3) = date (r_time a)" by force
  have "static_text (shared c3) \<noteq> []" using c3(5) assms(1) by (metis list.size(3) zero_neq_numeral)
  from call [OF c3(1-4) date_thread_step.strlen [OF this]] obtain c4 k where
    c4: "date_reachable date jobs c4" "overlapped c4" "i \<notin> inside c4" "threads c4 i = Cutting k a as" by force
  from call [OF c4(1-4) date_thread_step.store] obtain c5 where
    c5: "date_reachable date jobs c5" "overlapped c5" "i \<notin> inside c5" "threads c5 i = Cut a as" by force
  let ?c6 = "c5\<lparr>shared := (shared c5)\<lparr>static_tm := None, static_text := d, outside := False\<rparr>\<rparr>"
  have c6: "date_reachable date jobs ?c6" using c5(1) date_step.torn [OF c5(2)] by (meson rtranclp.rtrancl_into_rtrancl)
  from call [OF c6 _ _ _ date_thread_step.sprintf [of _ a as]] c5(2-4) show ?thesis by force
qed



end
