(* ===== verification/ProxyEcho.thy ===== *)
theory ProxyEcho
  imports ProxyProps EchoClient
begin

text \<open>
  The proxy in front of the echo server: a client whose requests name a server that runs \<^verbatim>\<open>echoservert\<close> talks to
  it through a thread of \<^verbatim>\<open>proxy.c\<close>. Each end of a connection delivers the text that the other end writes.
\<close>

type_synonym request = "string \<times> string \<times> string"

definition word :: "string \<Rightarrow> bool" where
  "word w \<longleftrightarrow> w \<noteq> [] \<and> list_all (\<lambda>c. \<not> is_space c \<and> c \<noteq> NUL) w"

fun request_line :: "request \<Rightarrow> string" where
  "request_line (h, p, w) = h @ '' '' @ p @ '' '' @ w"

fun good_request :: "request \<Rightarrow> bool" where
  "good_request (h, p, w) \<longleftrightarrow> word h \<and> word p \<and> word w \<and> length (request_line (h, p, w)) < MAXLINE - 1"

abbreviation contents :: "request list \<Rightarrow> string list" where
  "contents rqs \<equiv> map (\<lambda>(h, p, w). w) rqs"

definition reply_line :: "string \<Rightarrow> string" where
  "reply_line w = map toupper w @ [newline]"

definition entry_of :: "(nat \<Rightarrow> string) \<Rightarrow> sockaddr_in \<Rightarrow> nat \<times> string \<Rightarrow> string" where
  "entry_of now sock = (\<lambda>(k, w). log_text (now k) sock (reply_line w))"

lemma newline_space: "is_space newline"
  by (simp add: is_space_def less_eq_char_def)

lemma word_plain: "word w \<Longrightarrow> plain w"
  using newline_space by (auto simp: word_def plain_def list_all_iff)

lemma request_plain: "good_request r \<Longrightarrow> plain (request_line r)"
  using word_plain by (cases r) (auto simp: plain_def)

subsection \<open>What the proxy reads in a request\<close>

lemma scan_word:
  assumes "word w" "r = [] \<or> is_space (hd r)"
  shows "scan_words (Suc k) (w @ r) = w # scan_words k r"
proof -
  have w: "w \<noteq> []" "\<forall>c \<in> set w. \<not> is_space c" using assms(1) by (simp_all add: word_def list_all_iff)
  have d: "dropWhile is_space (w @ r) = w @ r" using w by (cases w) auto
  have "takeWhile (\<lambda>c. \<not> is_space c) (w @ r) = w" using w(2) assms(2) by (cases r) (auto simp: takeWhile_append2)
  moreover have "dropWhile (\<lambda>c. \<not> is_space c) (w @ r) = r" using w(2) assms(2) by (cases r) auto
  ultimately show ?thesis using d w(1) by simp
qed

lemma space_words: "scan_words k (CHR '' '' # cs) = scan_words k cs"
  by (rule scan_words_space) (simp add: is_space_def)

lemma scan_request:
  assumes "good_request (h, p, w)"
  shows "scan_words 3 (c_string (request_line (h, p, w) @ [newline])) = [h, p, w]"
proof -
  have words: "word h" "word p" "word w" using assms by simp_all
  have "\<forall>c \<in> set (request_line (h, p, w) @ [newline]). c \<noteq> NUL"
    using words by (auto simp: word_def list_all_iff)
  then have "c_string (request_line (h, p, w) @ [newline]) = h @ '' '' @ p @ '' '' @ w @ [newline]"
    by (simp add: c_string_def takeWhile_eq_all_conv)
  moreover have "scan_words 0 [newline] = []" by simp
  ultimately show ?thesis
    using scan_word [OF words(1), of "'' '' @ p @ '' '' @ w @ [newline]" 2] scan_word [OF words(2), of "'' '' @ w @ [newline]" 1]
      scan_word [OF words(3), of "[newline]" 0] newline_space
    by (simp add: numeral_3_eq_3 numeral_2_eq_2 space_words is_space_def del: scan_words.simps)
qed

lemma split_text: "list_all ok_line ls \<Longrightarrow> split_lines (text_of ls) = map (\<lambda>l. l @ [newline]) ls"
proof (induction ls)
  case (Cons l ls)
  then have "plain l" "length l < MAXLINE - 1" by (simp_all add: ok_line_def)
  from split_lines_line [OF this, of "text_of ls"] show ?case using Cons by (simp add: text_of_def)
qed (simp add: text_of_def)

subsection \<open>The session\<close>

lemma reply_string: "word w \<Longrightarrow> c_string (reply_line w) = reply_line w"
  using word_plain toupper_plain
  by (fastforce simp: c_string_def reply_line_def plain_def list_all_iff takeWhile_eq_all_conv)

definition fits :: "(nat \<Rightarrow> string) \<Rightarrow> sockaddr_in \<Rightarrow> nat \<Rightarrow> string list \<Rightarrow> bool" where
  "fits now sock k ws \<longleftrightarrow> list_all (\<lambda>e. length (entry_of now sock e) < MAXLINE) (enumerate k ws)"

lemma fits_simps [simp]:
  "fits now sock k []" "fits now sock k (w # ws) \<longleftrightarrow> length (entry_of now sock (k, w)) < MAXLINE \<and> fits now sock (Suc k) ws"
  by (simp_all add: fits_def)

lemma request_answered:
  assumes "good_request (h, p, w)" "se_server a = Some (reply_line w # rs, sent)"
    "length (entry_of now sock (length (se_log a), w)) < MAXLINE"
  shows "session_line connect now sock (c_string (request_line (h, p, w) @ [newline])) a =
    Inr (a\<lparr>se_server := Some (rs, sent @ w @ [newline]), se_answers := se_answers a @ reply_line w,
      se_log := se_log a @ [entry_of now sock (length (se_log a), w)]\<rparr>)"
proof -
  have "word w" using assms(1) by simp
  from reply_string [OF this] assms(3)
  have "deal_log_format (now (length (se_log a))) sock (c_string (reply_line w)) = Inr (entry_of now sock (length (se_log a), w))"
    by (simp add: deal_log_format_def entry_of_def Let_def)
  then show ?thesis
    using reply_string [OF \<open>word w\<close>] assms(2)
    by (simp add: session_line_def scan_request [OF assms(1)] session_forward_def session_open_def del: request_line.simps)
qed

lemma requests_answered:
  assumes "list_all good_request rqs" "se_server a = Some (map reply_line (contents rqs), sent)"
    "fits now sock (length (se_log a)) (contents rqs)"
  shows "serve_session connect now sock (map (\<lambda>r. request_line r @ [newline]) rqs) a =
    Inr (a\<lparr>se_server := Some ([], sent @ text_of (contents rqs)), se_answers := se_answers a @ concat (map reply_line (contents rqs)),
      se_log := se_log a @ map (entry_of now sock) (enumerate (length (se_log a)) (contents rqs))\<rparr>)"
  using assms
proof (induction rqs arbitrary: a sent)
  case Nil
  then show ?case by (simp add: text_of_def)
next
  case (Cons r rqs)
  obtain h p w where r: "r = (h, p, w)" by (cases r)
  let ?rs = "map reply_line (contents rqs)"
  let ?a = "a\<lparr>se_server := Some (?rs, sent @ w @ [newline]), se_answers := se_answers a @ reply_line w,
      se_log := se_log a @ [entry_of now sock (length (se_log a), w)]\<rparr>"
  have "session_line connect now sock (c_string (request_line r @ [newline])) a = Inr ?a"
    using request_answered [of h p w a ?rs sent now sock] Cons.prems by (simp add: r del: request_line.simps)
  moreover have "serve_session connect now sock (map (\<lambda>r. request_line r @ [newline]) rqs) ?a =
    Inr (?a\<lparr>se_server := Some ([], (sent @ w @ [newline]) @ text_of (contents rqs)),
      se_answers := se_answers ?a @ concat ?rs, se_log := se_log ?a @ map (entry_of now sock) (enumerate (length (se_log ?a)) (contents rqs))\<rparr>)"
    using Cons.prems by (intro Cons.IH) (simp_all add: r)
  ultimately show ?case by (simp add: r text_of_def del: request_line.simps)
qed

text \<open>The first request opens the connection.\<close>

lemma first_request:
  assumes "good_request (h, p, w)" "connect h (atoi p) = Some srv" "se_server a = None"
  shows "session_line connect now sock (c_string (request_line (h, p, w) @ [newline])) a =
    session_line connect now sock (c_string (request_line (h, p, w) @ [newline]))
      (a\<lparr>se_peer := Some (h, atoi p), se_server := Some (split_lines (stream (in_events srv)), written srv)\<rparr>)"
  using assms(2,3)
  by (cases "split_lines (stream (in_events srv))")
    (simp_all add: session_line_def scan_request [OF assms(1)] session_forward_def session_open_def del: request_line.simps)

lemma echoed_session:
  assumes "rqs = (h, p, w) # rqs'" "list_all good_request rqs" "connect h (atoi p) = Some srv"
    "stream (in_events srv) = map toupper (text_of (contents rqs))" "fits now sock 0 (contents rqs)"
  shows "serve_session connect now sock (map (\<lambda>r. request_line r @ [newline]) rqs) (fresh_session out) =
    Inr \<lparr>se_peer = Some (h, atoi p), se_server = Some ([], written srv @ text_of (contents rqs)),
      se_answers = out @ concat (map reply_line (contents rqs)),
      se_log = map (entry_of now sock) (enumerate 0 (contents rqs))\<rparr>"
proof -
  let ?a = "(fresh_session out)\<lparr>se_peer := Some (h, atoi p), se_server := Some (split_lines (stream (in_events srv)), written srv)\<rparr>"
  have up: "map toupper (text_of ls) = text_of (map (map toupper) ls)" for ls
    by (induction ls) (simp_all add: text_of_def toupper_def)
  have "list_all ok_line (map (map toupper) (contents rqs))"
  proof -
    have "ok_line w'" if "good_request (h', p', w')" for h' p' w'
      using that word_plain [of w'] by (simp add: ok_line_def)
    then show ?thesis using assms(2) ok_line_upper by (fastforce simp: list_all_iff)
  qed
  from split_text [OF this] have lines: "split_lines (stream (in_events srv)) = map reply_line (contents rqs)"
    by (simp add: assms(4) up reply_line_def)
  have good: "good_request (h, p, w)" using assms(1,2) by simp
  have "serve_session connect now sock (map (\<lambda>r. request_line r @ [newline]) rqs) (fresh_session out) =
      serve_session connect now sock (map (\<lambda>r. request_line r @ [newline]) rqs) ?a"
    using first_request [of h p w connect srv "fresh_session out" now sock] good assms(3) by (simp add: assms(1) fresh_session_def del: request_line.simps)
  also have "\<dots> = Inr \<lparr>se_peer = Some (h, atoi p), se_server = Some ([], written srv @ text_of (contents rqs)),
      se_answers = out @ concat (map reply_line (contents rqs)), se_log = map (entry_of now sock) (enumerate 0 (contents rqs))\<rparr>"
    using requests_answered [OF assms(2), of ?a "written srv" now sock] assms(5) by (simp add: lines fresh_session_def)
  finally show ?thesis .
qed

text \<open>C20. A client, the proxy and the echo server together. The client sends requests \<^verbatim>\<open>host port word\<close>, the connection
  that the first one names leads to the echo server, and each side delivers what the other writes, however it is cut.
  Then the proxy's thread and the server's return; the proxy writes to the server exactly what the
  server reads, the server to the proxy exactly what the proxy reads, the client gets each word in upper case on
  a line, and the log has an entry for each. The connection is the first request's even when later
  requests name other hosts. Both descriptors are closed.\<close>

theorem proxied_echo:
  assumes "rqs = (h, p, w) # rqs'" "list_all good_request rqs" "fits now sock 0 (contents rqs)"
    and "sound_network connect" "connect h (atoi p) = Some srv"
    and "sound_link client" "stream (in_events client) = text_of (map request_line rqs)"
    and "sound_link (e_conn s)" "stream (in_events (e_conn s)) = text_of (contents rqs)"
      "stream (in_events srv) = map toupper (text_of (contents rqs))"
  shows "\<exists>st s' rp d. process_request connect now sock buf client = Inr st \<and> echo buf' s = Inr s' \<and>
    px_peer st = Some (h, atoi p) \<and> px_server st = Some (rp, d) \<and> px_closed st \<and>
    written d = written srv @ stream (in_events (e_conn s)) \<and>
    written (e_conn s') = written (e_conn s) @ stream (in_events srv) \<and>
    written (px_client st) = written client @ concat (map (\<lambda>w. map toupper w @ [newline]) (contents rqs)) \<and>
    px_log st = map (\<lambda>(k, w). log_text (now k) sock (map toupper w @ [newline])) (enumerate 0 (contents rqs))"
proof -
  have ok: "ok_line (request_line r)" if "good_request r" for r
    using that request_plain [OF that] by (cases r) (simp add: ok_line_def)
  have "list_all ok_line (map request_line rqs)" using assms(2) ok by (auto simp: list_all_iff)
  from split_text [OF this] have lines: "split_lines (stream (in_events client)) = map (\<lambda>r. request_line r @ [newline]) rqs"
    by (simp add: assms(7))
  have okw: "list_all ok_line (contents rqs)"
    using assms(2) word_plain by (fastforce simp: list_all_iff ok_line_def)
  note answers = echoed_session [where connect = connect and out = "written client", OF assms(1,2) assms(5,10,3)]
  note session = thread_session [OF assms(4,6), of now sock buf, unfolded lines answers]
  then obtain st where st: "process_request connect now sock buf client = Inr st"
    "session_of st = \<lparr>se_peer = Some (h, atoi p), se_server = Some ([], written srv @ text_of (contents rqs)),
      se_answers = written client @ concat (map reply_line (contents rqs)),
      se_log = map (entry_of now sock) (enumerate 0 (contents rqs))\<rparr>" "px_closed st = (px_server st \<noteq> None)"
    by (cases "process_request connect now sock buf client") auto
  from st(2) obtain rp d where d: "px_server st = Some (rp, d)" "written d = written srv @ text_of (contents rqs)"
    by (auto simp: session_of_def server_view_def)
  have "pending (rio_readinitb 0) (in_events (e_conn s)) = text_of (contents rqs) @ []"
    using assms(9) by (simp add: pending_def rio_readinitb_def)
  moreover have "ok_line []" by (simp add: ok_line_def plain_def MAXLINE_def)
  ultimately obtain s' where "echo buf' s = Inr s'" "written (e_conn s') = written (e_conn s) @ map toupper (text_of (contents rqs))"
    using echo_lines [of s "rio_readinitb 0" "contents rqs" "[]" buf'] assms(8) okw
    unfolding echo_def echo_result_def sound_link_def by (auto simp: echoed_def)
  then show ?thesis
    using st d assms(9,10) by (intro exI [of _ st] exI [of _ s'] exI [of _ rp] exI [of _ d])
      (simp add: session_of_def entry_of_def [abs_def] reply_line_def [abs_def])
qed

text \<open>Two requests; the second one's host is not used.\<close>

theorem proxied_echo_witness:
  "\<exists>st. process_request
      (\<lambda>h p. Some \<lparr>in_events = [Chunk ''HI'', ReadIntr, Chunk (newline # ''YO'' @ [newline])], out_events = [Wrote 0], written = []\<rparr>)
      (\<lambda>_. ''now'' @ [newline]) loopback []
      \<lparr>in_events = [Chunk (''h 80 hi'' @ newline # ''x 9''), Chunk ('' yo'' @ [newline])], out_events = [WriteIntr], written = []\<rparr> = Inr st \<and>
    written (px_client st) = ''HI'' @ newline # ''YO'' @ [newline] \<and> px_peer st = Some (''h'', 80)"
proof -
  let ?srv = "\<lparr>in_events = [Chunk ''HI'', ReadIntr, Chunk (newline # ''YO'' @ [newline])], out_events = [Wrote 0], written = []\<rparr>"
  let ?c = "\<lparr>in_events = [Chunk (''h 80 hi'' @ newline # ''x 9''), Chunk ('' yo'' @ [newline])], out_events = [WriteIntr], written = []\<rparr>"
  let ?s = "\<lparr>e_conn = \<lparr>in_events = [Chunk (''hi'' @ newline # ''yo'' @ [newline])], out_events = [], written = []\<rparr>, e_bytecnt = 0, e_out = []\<rparr>"
  let ?rqs = "[(''h'', ''80'', ''hi''), (''x'', ''9'', ''yo'')]"
  have up: "map toupper ''hi'' = ''HI''" "map toupper ''yo'' = ''YO''" "toupper newline = newline" by code_simp+
  have "word ''h''" "word ''80''" "word ''hi''" "word ''x''" "word ''9''" "word ''yo''" by code_simp+
  then have good: "list_all good_request ?rqs" by (simp add: MAXLINE_def)
  have "length (log_text (''now'' @ [newline]) loopback [a, b, newline]) < MAXLINE" for a b
    by (simp add: log_text_def log_entry_def loopback_def ntohl_def ntohs_def dotted_def Let_def example_numbers
        pad3_def MAXLINE_def show_nat.simps)
  then have "fits (\<lambda>_. ''now'' @ [newline]) loopback 0 (contents ?rqs)" by (simp add: entry_of_def reply_line_def)
  moreover have "sound_network (\<lambda>h p. Some ?srv)" "sound_link ?c" "sound_link (e_conn ?s)"
    by (simp_all add: sound_network_def sound_link_def)
  ultimately show ?thesis
    using proxied_echo [OF refl good, of "\<lambda>_. ''now'' @ [newline]" loopback "\<lambda>h p. Some ?srv" ?srv ?c ?s "[]" "[]"] example_port up
    by (auto simp: text_of_def)
qed

end
