(* ===== verification/MemlistStore.thy ===== *)
theory MemlistStore
  imports Memlist
begin

text \<open>
  \<^verbatim>\<open>linklab/utils/memlist.c\<close> with its nodes in a store: an address stands for a node, 0 for \<^verbatim>\<open>NULL\<close>, and an
  address without a node may not be read, written or freed. The address that libc's \<^verbatim>\<open>calloc\<close> gives, or 0, is an
  argument. The functions do on the linked nodes what those of \<open>Memlist\<close> do on the sequence of the items, and
  \<^verbatim>\<open>free_list\<close> gives back every node that was allocated.
\<close>

record node =
  n_item :: item
  n_next :: addr

type_synonym store = "addr \<rightharpoonup> node"

datatype store_stop = BadAccess addr

definition load :: "store \<Rightarrow> addr \<Rightarrow> store_stop + node" where
  "load h a = (case h a of None \<Rightarrow> Inl (BadAccess a) | Some n \<Rightarrow> Inr n)"

definition freep :: "addr \<Rightarrow> store \<Rightarrow> store_stop + store" where
  "freep a h = (case h a of None \<Rightarrow> Inl (BadAccess a) | Some n \<Rightarrow> Inr (h(a := None)))"

definition zero_node :: node where
  "zero_node = \<lparr>n_item = \<lparr>ptr = 0, item_size = 0, cnt = 0, fname = [], ofs = 0\<rparr>, n_next = 0\<rparr>"

subsection \<open>The functions\<close>

text \<open>The result of a function that follows links: None when it does not return.\<close>

type_synonym 'a outcome = "(store_stop + 'a) option"

definition st_new_list :: "addr \<Rightarrow> store \<Rightarrow> addr \<times> store" where
  "st_new_list q h = (if q = 0 then (0, h) else (q, h(q \<mapsto> zero_node)))"

partial_function (option) st_walk :: "store \<Rightarrow> addr \<Rightarrow> addr \<Rightarrow> addr \<Rightarrow> (addr \<times> addr) outcome" where
  "st_walk h p prev cur =
     (if cur = 0 then Some (Inr (prev, cur))
      else case load h cur of
        Inl e \<Rightarrow> Some (Inl e)
      | Inr n \<Rightarrow> if ptr (n_item n) < p then st_walk h p cur (n_next n) else Some (Inr (prev, cur)))"

text \<open>\<open>st_link\<close> is what follows the walk.\<close>

definition st_link :: "addr \<Rightarrow> addr \<Rightarrow> addr \<Rightarrow> store \<Rightarrow> store_stop + (addr \<times> store)" where
  "st_link i prev cur h =
     and_then (load h i) (\<lambda>ni.
       if cur = 0 then
         and_then (load h prev) (\<lambda>np. Inr (i, h(prev \<mapsto> np\<lparr>n_next := i\<rparr>)))
       else
         and_then (load h cur) (\<lambda>nc.
           if ptr (n_item nc) = ptr (n_item ni) then
             let c = n_item nc;
                 h = h(cur \<mapsto> nc\<lparr>n_item := c\<lparr>item_size := item_size (n_item ni), cnt := s32 (cnt c + 1)\<rparr>\<rparr>)
             in and_then (freep i h) (\<lambda>h. Inr (cur, h))
           else
             let h = h(i \<mapsto> ni\<lparr>n_next := cur\<rparr>)
             in and_then (load h prev) (\<lambda>np. Inr (i, h(prev \<mapsto> np\<lparr>n_next := i\<rparr>)))))"

definition st_alloc :: "addr \<Rightarrow> callinfo \<Rightarrow> addr \<Rightarrow> addr \<Rightarrow> int \<Rightarrow> store \<Rightarrow> (addr \<times> store) outcome" where
  "st_alloc q ci list p sz h =
     (if list = 0 then Some (Inr (0, h))
      else if q = 0 then Some (Inl (BadAccess 0))
      else
        let h = h(q \<mapsto> zero_node\<lparr>n_item := new_item p sz ci\<rparr>)
        in case load h list of
             Inl e \<Rightarrow> Some (Inl e)
           | Inr nl \<Rightarrow>
               (case st_walk h p list (n_next nl) of
                  None \<Rightarrow> None
                | Some r \<Rightarrow> Some (and_then r (\<lambda>(prev, cur). st_link q prev cur h))))"

partial_function (option) st_search :: "store \<Rightarrow> addr \<Rightarrow> addr \<Rightarrow> addr outcome" where
  "st_search h p cur =
     (if cur = 0 then Some (Inr 0)
      else case load h cur of
        Inl e \<Rightarrow> Some (Inl e)
      | Inr n \<Rightarrow> if ptr (n_item n) \<noteq> p then st_search h p (n_next n) else Some (Inr cur))"

definition st_dealloc :: "addr \<Rightarrow> addr \<Rightarrow> store \<Rightarrow> (addr \<times> store) outcome" where
  "st_dealloc list p h =
     (if list = 0 then Some (Inr (0, h))
      else case load h list of
        Inl e \<Rightarrow> Some (Inl e)
      | Inr nl \<Rightarrow>
          (case st_search h p (n_next nl) of
             None \<Rightarrow> None
           | Some r \<Rightarrow> Some (and_then r (\<lambda>cur.
               if cur = 0 then Inr (0, h)
               else and_then (load h cur) (\<lambda>n.
                 let c = n_item n in Inr (cur, h(cur \<mapsto> n\<lparr>n_item := c\<lparr>cnt := s32 (cnt c - 1)\<rparr>\<rparr>)))))))"

partial_function (option) st_find_loop :: "store \<Rightarrow> addr \<Rightarrow> addr \<Rightarrow> addr outcome" where
  "st_find_loop h p cur =
     (if cur = 0 then Some (Inr 0)
      else case load h cur of
        Inl e \<Rightarrow> Some (Inl e)
      | Inr n \<Rightarrow>
          if p > ptr (n_item n) then st_find_loop h p (n_next n)
          else Some (Inr (if ptr (n_item n) = p then cur else 0)))"

definition st_find :: "addr \<Rightarrow> addr \<Rightarrow> store \<Rightarrow> addr outcome" where
  "st_find list p h =
     (if list = 0 then Some (Inr 0)
      else case load h list of Inl e \<Rightarrow> Some (Inl e) | Inr nl \<Rightarrow> st_find_loop h p (n_next nl))"

partial_function (option) free_list :: "addr \<Rightarrow> store \<Rightarrow> store outcome" where
  "free_list list h =
     (if list = 0 then Some (Inr h)
      else case load h list of
        Inl e \<Rightarrow> Some (Inl e)
      | Inr n \<Rightarrow> (case freep list h of Inl e \<Rightarrow> Some (Inl e) | Inr h \<Rightarrow> free_list (n_next n) h))"

subsection \<open>Paths\<close>

text \<open>The nodes from one address to another, with the items in them.\<close>

fun path :: "store \<Rightarrow> addr \<Rightarrow> (addr \<times> item) list \<Rightarrow> addr \<Rightarrow> bool" where
  "path h a [] z \<longleftrightarrow> a = z"
| "path h a ((b, i) # xs) z \<longleftrightarrow> a = b \<and> b \<noteq> 0 \<and> (\<exists>n. h b = Some n \<and> n_item n = i \<and> path h (n_next n) xs z)"

lemma path_append [simp]: "path h a (xs @ ys) z \<longleftrightarrow> (\<exists>m. path h a xs m \<and> path h m ys z)"
  by (induction xs arbitrary: a) (auto, blast+)

lemma path_update [simp]: "c \<notin> fst ` set xs \<Longrightarrow> path (h(c := v)) a xs z = path h a xs z"
  by (induction xs arbitrary: a) auto

lemma path_dom: "path h a xs z \<Longrightarrow> fst ` set xs \<subseteq> dom h"
  by (induction xs arbitrary: a) (simp, force)

lemma path_start: "path h a (x # xs) z \<Longrightarrow> a = fst x \<and> a \<noteq> 0"
  by (cases x) auto

text \<open>The list at an address: a first node, then the nodes with the items, and no other node in the store.\<close>

definition list_at :: "store \<Rightarrow> addr \<Rightarrow> (addr \<times> item) list \<Rightarrow> bool" where
  "list_at h l xs \<longleftrightarrow> (\<exists>d. path h l ((l, d) # xs) 0) \<and> distinct (l # map fst xs) \<and> dom h = set (l # map fst xs)"

lemma list_at_first:
  assumes "list_at h l xs"
  obtains n where "h l = Some n" "path h (n_next n) xs 0" "l \<noteq> 0"
  using assms by (auto simp: list_at_def)

subsection \<open>The loops\<close>

text \<open>The walk stops between the nodes before and those from the first that is not smaller.\<close>

definition head_of :: "(addr \<times> item) list \<Rightarrow> addr" where
  "head_of xs = (case xs of [] \<Rightarrow> 0 | x # _ \<Rightarrow> fst x)"

lemma head_of_simps [simp]: "head_of [] = 0" "head_of (x # xs) = fst x"
  by (simp_all add: head_of_def)

abbreviation below :: "addr \<Rightarrow> addr \<times> item \<Rightarrow> bool" where
  "below p x \<equiv> ptr (snd x) < p"

lemma walk_path:
  assumes "path h cur xs 0"
  shows "st_walk h p prev cur =
    Some (Inr (last (prev # map fst (takeWhile (below p) xs)), head_of (dropWhile (below p) xs)))"
  using assms
proof (induction xs arbitrary: prev cur)
  case (Cons x xs)
  obtain b i where x: "x = (b, i)" by (cases x)
  with Cons.prems obtain n where n: "cur = b" "b \<noteq> 0" "h b = Some n" "n_item n = i" "path h (n_next n) xs 0" by auto
  show ?case using Cons.IH [OF n(5), of b] n by (subst st_walk.simps) (simp add: x load_def)
qed (simp add: st_walk.simps)

lemma search_path:
  assumes "path h cur xs 0"
  shows "st_search h p cur = Some (Inr (head_of (dropWhile (\<lambda>x. ptr (snd x) \<noteq> p) xs)))"
  using assms
proof (induction xs arbitrary: cur)
  case (Cons x xs)
  obtain b i where x: "x = (b, i)" by (cases x)
  with Cons.prems obtain n where n: "cur = b" "b \<noteq> 0" "h b = Some n" "n_item n = i" "path h (n_next n) xs 0" by auto
  show ?case using Cons.IH [OF n(5)] n by (subst st_search.simps) (simp add: x load_def)
qed (simp add: st_search.simps)

lemma find_path:
  assumes "path h cur xs 0"
  shows "\<exists>a. st_find_loop h p cur = Some (Inr a) \<and>
    (case find_item p (map snd xs) of None \<Rightarrow> a = 0 | Some i \<Rightarrow> (a, i) \<in> set xs)"
  using assms
proof (induction xs arbitrary: cur)
  case (Cons x xs)
  obtain b i where x: "x = (b, i)" by (cases x)
  with Cons.prems obtain n where n: "cur = b" "b \<noteq> 0" "h b = Some n" "n_item n = i" "path h (n_next n) xs 0" by auto
  show ?case
    using Cons.IH [OF n(5)] n by (subst st_find_loop.simps) (auto simp: x load_def split: option.splits)
qed (simp add: st_find_loop.simps)

lemma free_path:
  assumes "path h a xs 0" "distinct (map fst xs)" "dom h = fst ` set xs"
  shows "free_list a h = Some (Inr Map.empty)"
  using assms
proof (induction xs arbitrary: a h)
  case Nil
  then show ?case by (simp add: free_list.simps)
next
  case (Cons x xs)
  obtain b i where x: "x = (b, i)" by (cases x)
  with Cons.prems obtain n where n: "a = b" "b \<noteq> 0" "h b = Some n" "n_item n = i" "path h (n_next n) xs 0" by auto
  define h' where "h' = h(b := None)"
  have "path h' (n_next n) xs 0" "dom h' = fst ` set xs" "distinct (map fst xs)"
    using n Cons.prems(2,3) by (auto simp: x h'_def)
  note IH = Cons.IH [OF this(1,3,2)]
  have "load h a = Inr n" "freep a h = Inr h'" using n by (simp_all add: load_def freep_def h'_def)
  then show ?case using IH n(1,2) by (subst free_list.simps) simp
qed

subsection \<open>The functions on the sequence of the items\<close>

lemma insert_item_split:
  assumes "\<forall>x \<in> set as. below (ptr i) x" "bs = [] \<or> \<not> below (ptr i) (hd bs)"
  shows "insert_item i (map snd (as @ bs)) =
     (case bs of
        [] \<Rightarrow> (map snd as @ [i], i)
      | (b, c) # cs \<Rightarrow>
          if ptr c = ptr i then
            let c = c\<lparr>item_size := item_size i, cnt := s32 (cnt c + 1)\<rparr> in (map snd as @ c # map snd cs, c)
          else (map snd as @ i # c # map snd cs, i))"
  using assms(1)
proof (induction as)
  case Nil
  then show ?case using assms(2) by (cases bs) (auto simp: Let_def)
next
  case (Cons a as)
  then show ?case by (cases bs) (auto simp: Let_def split: prod.splits)
qed

lemma dealloc_items_split:
  assumes "\<forall>x \<in> set as. ptr (snd x) \<noteq> p" "bs = [] \<or> ptr (snd (hd bs)) = p"
  shows "dealloc_items p (map snd (as @ bs)) =
     (case bs of
        [] \<Rightarrow> (map snd as, None)
      | (b, c) # cs \<Rightarrow> let c = c\<lparr>cnt := s32 (cnt c - 1)\<rparr> in (map snd as @ c # map snd cs, Some c))"
  using assms(1)
proof (induction as)
  case Nil
  then show ?case using assms(2) by (cases bs) (auto simp: Let_def)
next
  case (Cons a as)
  then show ?case by (cases bs) (auto simp: Let_def split: prod.splits)
qed

text \<open>Changing an item in its node, and putting a node after another one.\<close>

lemma list_at_item:
  assumes "list_at h l (as @ (b, i) # bs)" "h b = Some n"
  shows "list_at (h(b \<mapsto> n\<lparr>n_item := j\<rparr>)) l (as @ (b, j) # bs)"
  using assms by (auto simp: list_at_def)

lemma list_at_insert:
  assumes "list_at h l (as @ bs)" "q \<noteq> 0" "h q = None"
  shows "\<exists>np. h (last (l # map fst as)) = Some np \<and>
    list_at (h(q \<mapsto> \<lparr>n_item = j, n_next = head_of bs\<rparr>, last (l # map fst as) \<mapsto> np\<lparr>n_next := q\<rparr>)) l (as @ (q, j) # bs)"
proof -
  obtain d where d: "path h l ((l, d) # as @ bs) 0" "distinct (l # map fst (as @ bs))" "dom h = set (l # map fst (as @ bs))"
    using assms(1) by (auto simp: list_at_def)
  define ys where "ys = (l, d) # as"
  obtain zs b i where ys: "ys = zs @ [(b, i)]" by (metis ys_def list.distinct(1) rev_exhaust surj_pair)
  have all: "(l, d) # as @ bs = zs @ (b, i) # bs" using ys by (simp add: ys_def)
  have b: "last (l # map fst as) = b"
  proof -
    have "last (map fst ys) = b" by (simp add: ys)
    then show ?thesis by (simp add: ys_def)
  qed
  have names: "l # map fst (as @ bs) = map fst zs @ b # map fst bs"
    using arg_cong [OF all, of "map fst"] by simp
  have "path h l (zs @ (b, i) # bs) 0" using d(1) by (simp only: all)
  then obtain n where n: "path h l zs b" "b \<noteq> 0" "h b = Some n" "n_item n = i" "path h (n_next n) bs 0" by auto
  have nx: "n_next n = head_of bs" using n(5) by (cases bs) auto
  have fresh: "q \<notin> set (map fst zs @ b # map fst bs)" using assms(3) d(3) unfolding names by (metis domIff)
  have dist: "distinct (map fst zs @ b # map fst bs)" using d(2) unfolding names .
  define h' where "h' = h(q \<mapsto> \<lparr>n_item = j, n_next = head_of bs\<rparr>, b \<mapsto> n\<lparr>n_next := q\<rparr>)"
  have "path h' l (zs @ (b, i) # (q, j) # bs) 0"
    using n nx fresh dist assms(2) by (auto simp: h'_def)
  moreover have "zs @ (b, i) # (q, j) # bs = (l, d) # as @ (q, j) # bs" using ys by (simp add: ys_def)
  ultimately have "path h' l ((l, d) # as @ (q, j) # bs) 0" by simp
  moreover have "dom h' = set (l # map fst (as @ (q, j) # bs))"
    using d(3) n(3) by (auto simp: h'_def names [symmetric])
  moreover have "distinct (l # map fst (as @ (q, j) # bs))" using d(2) fresh unfolding names [symmetric] by auto
  ultimately show ?thesis using n(3) unfolding b list_at_def h'_def by blast
qed

lemma list_at_mem: "list_at h l xs \<Longrightarrow> (b, i) \<in> set xs \<Longrightarrow> \<exists>n. h b = Some n \<and> n_item n = i \<and> b \<noteq> 0"
  by (auto simp: list_at_def in_set_conv_decomp)

lemma list_at_path:
  assumes "list_at h l xs" "h q = None"
  obtains n where "h l = Some n" "l \<noteq> 0" "q \<noteq> l" "path (h(q := v)) (n_next n) xs 0"
proof -
  obtain n where n: "h l = Some n" "path h (n_next n) xs 0" "l \<noteq> 0" using list_at_first [OF assms(1)] by blast
  have "q \<notin> fst ` set xs" "q \<noteq> l" using path_dom [OF n(2)] n(1) assms(2) by (auto simp: domIff)
  with n that show thesis by simp
qed

lemma split_while:
  obtains as bs where "xs = as @ bs" "as = takeWhile P xs" "bs = dropWhile P xs" "\<forall>x \<in> set as. P x" "bs = [] \<or> \<not> P (hd bs)"
  using takeWhile_dropWhile_id [of P xs] set_takeWhileD hd_dropWhile by metis

lemma st_alloc_list:
  assumes l: "list_at h l xs" and q: "q \<noteq> 0" "h q = None"
  shows "\<exists>a h' ys n. st_alloc q ci l p sz h = Some (Inr (a, h')) \<and> list_at h' l ys \<and>
    insert_item (new_item p sz ci) (map snd xs) = (map snd ys, n_item n) \<and> h' a = Some n"
proof -
  define h1 where "h1 = h(q \<mapsto> \<lparr>n_item = new_item p sz ci, n_next = 0\<rparr>)"
  obtain n where n: "h l = Some n" "l \<noteq> 0" "q \<noteq> l" "path h1 (n_next n) xs 0"
    using list_at_path [OF l q(2)] unfolding h1_def by metis
  obtain as bs where split: "xs = as @ bs" "as = takeWhile (below p) xs" "bs = dropWhile (below p) xs"
    "\<forall>x \<in> set as. below p x" "bs = [] \<or> \<not> below p (hd bs)" by (rule split_while [of xs "below p"])
  define prev where "prev = last (l # map fst as)"
  have "h1 l = Some n" using n(1,3) by (simp add: h1_def)
  then have run: "st_alloc q ci l p sz h = Some (st_link q prev (head_of bs) h1)"
    using walk_path [OF n(4), of p l] n(2) q(1) split(2,3)
    by (simp add: st_alloc_def load_def h1_def [symmetric] zero_node_def prev_def)
  note item = insert_item_split [of as "new_item p sz ci" bs, folded split(1)]
  from list_at_insert [OF l [unfolded split(1)] q, of "new_item p sz ci"] obtain np where
    np: "h prev = Some np" "list_at (h(q \<mapsto> \<lparr>n_item = new_item p sz ci, n_next = head_of bs\<rparr>, prev \<mapsto> np\<lparr>n_next := q\<rparr>))
      l (as @ (q, new_item p sz ci) # bs)" unfolding prev_def by blast
  have pq: "prev \<noteq> q" using np(1) q(2) by auto
  show ?thesis
  proof (cases bs)
    case Nil
    then have "st_link q prev (head_of bs) h1 = Inr (q, h1(prev \<mapsto> np\<lparr>n_next := q\<rparr>))"
      using np(1) pq by (simp add: st_link_def load_def h1_def)
    then show ?thesis
      using run np(2) item split(4) Nil pq
      by (intro exI [of _ q] exI [of _ "h1(prev \<mapsto> np\<lparr>n_next := q\<rparr>)"] exI [of _ "as @ [(q, new_item p sz ci)]"]) (auto simp: h1_def)
  next
    case (Cons x cs)
    obtain b c where x: "x = (b, c)" by (cases x)
    have mem: "(b, c) \<in> set xs" by (simp add: split(1) Cons x)
    obtain nc where nc: "h b = Some nc" "n_item nc = c" "b \<noteq> 0" using list_at_mem [OF l mem] by blast
    have bq: "b \<noteq> q" using nc(1) q(2) by auto
    show ?thesis
    proof (cases "ptr c = p")
      case True
      define c' where "c' = c\<lparr>item_size := sz, cnt := s32 (cnt c + 1)\<rparr>"
      have "(h1(b \<mapsto> nc\<lparr>n_item := c'\<rparr>))(q := None) = h(b \<mapsto> nc\<lparr>n_item := c'\<rparr>)"
        using bq q(2) by (auto simp: h1_def)
      then have "st_link q prev (head_of bs) h1 = Inr (b, h(b \<mapsto> nc\<lparr>n_item := c'\<rparr>))"
        using nc bq True by (simp add: st_link_def load_def h1_def Cons x freep_def c'_def Let_def)
      moreover have "list_at (h(b \<mapsto> nc\<lparr>n_item := c'\<rparr>)) l (as @ (b, c') # cs)"
        using list_at_item [of h l as b c cs nc c'] l nc(1) by (simp add: split(1) Cons x)
      ultimately show ?thesis
        using run item split(4,5) True
        by (intro exI [of _ b] exI [of _ "h(b \<mapsto> nc\<lparr>n_item := c'\<rparr>)"] exI [of _ "as @ (b, c') # cs"])
          (auto simp: Cons x c'_def Let_def)
    next
      case False
      define h2 where "h2 = h(q \<mapsto> \<lparr>n_item = new_item p sz ci, n_next = b\<rparr>, prev \<mapsto> np\<lparr>n_next := q\<rparr>)"
      have "st_link q prev (head_of bs) h1 = Inr (q, h2)"
        using nc bq pq False np(1) by (simp add: st_link_def load_def h1_def Cons x h2_def Let_def)
      then show ?thesis
        using run np(2) item split(4,5) False pq
        by (intro exI [of _ q] exI [of _ h2] exI [of _ "as @ (q, new_item p sz ci) # bs"])
          (auto simp: Cons x h2_def)
    qed
  qed
qed

lemma st_dealloc_list:
  assumes l: "list_at h l xs"
  shows "\<exists>a h' ys. st_dealloc l p h = Some (Inr (a, h')) \<and> list_at h' l ys \<and>
    (case dealloc_items p (map snd xs) of
       (is, None) \<Rightarrow> is = map snd ys \<and> a = 0
     | (is, Some i) \<Rightarrow> is = map snd ys \<and> (\<exists>n. h' a = Some n \<and> n_item n = i))"
proof -
  obtain n where n: "h l = Some n" "l \<noteq> 0" "path h (n_next n) xs 0" using list_at_first [OF l] by blast
  obtain as bs where split: "xs = as @ bs" "as = takeWhile (\<lambda>x. ptr (snd x) \<noteq> p) xs" "bs = dropWhile (\<lambda>x. ptr (snd x) \<noteq> p) xs"
    "\<forall>x \<in> set as. ptr (snd x) \<noteq> p" "bs = [] \<or> \<not> ptr (snd (hd bs)) \<noteq> p"
    by (rule split_while [of xs "\<lambda>x. ptr (snd x) \<noteq> p"])
  have search: "st_search h p (n_next n) = Some (Inr (head_of bs))" using search_path [OF n(3), of p] split(3) by simp
  have item: "dealloc_items p (map snd xs) = (case bs of [] \<Rightarrow> (map snd as, None)
      | (b, c) # cs \<Rightarrow> let c = c\<lparr>cnt := s32 (cnt c - 1)\<rparr> in (map snd as @ c # map snd cs, Some c))"
    using dealloc_items_split [of as p bs] split(1,4,5) by simp
  show ?thesis
  proof (cases bs)
    case Nil
    then show ?thesis
      using search n(1,2) l item split(1)
      by (intro exI [of _ 0] exI [of _ h] exI [of _ xs]) (simp add: st_dealloc_def load_def)
  next
    case (Cons x cs)
    obtain b c where x: "x = (b, c)" by (cases x)
    have mem: "(b, c) \<in> set xs" by (simp add: split(1) Cons x)
    obtain nc where nc: "h b = Some nc" "n_item nc = c" "b \<noteq> 0" using list_at_mem [OF l mem] by blast
    define c' where "c' = c\<lparr>cnt := s32 (cnt c - 1)\<rparr>"
    have "list_at (h(b \<mapsto> nc\<lparr>n_item := c'\<rparr>)) l (as @ (b, c') # cs)"
      using list_at_item [of h l as b c cs nc c'] l nc(1) by (simp add: split(1) Cons x)
    then show ?thesis
      using search n(1,2) nc item
      by (intro exI [of _ b] exI [of _ "h(b \<mapsto> nc\<lparr>n_item := c'\<rparr>)"] exI [of _ "as @ (b, c') # cs"])
        (simp add: st_dealloc_def load_def Cons x c'_def Let_def)
  qed
qed

lemma st_find_list:
  assumes l: "list_at h l xs"
  shows "\<exists>a. st_find l p h = Some (Inr a) \<and>
    map_option n_item (h a) = find (Some (map snd xs)) p \<and> (a = 0 \<longleftrightarrow> find (Some (map snd xs)) p = None)"
proof -
  obtain n where n: "h l = Some n" "l \<noteq> 0" "path h (n_next n) xs 0" using list_at_first [OF l] by blast
  have "0 \<notin> dom h" using l path_start [of h l] by (auto simp: list_at_def dest!: path_dom list_at_mem [OF l])
  then have z: "h 0 = None" by blast
  obtain a where a: "st_find_loop h p (n_next n) = Some (Inr a)"
    "case find_item p (map snd xs) of None \<Rightarrow> a = 0 | Some i \<Rightarrow> (a, i) \<in> set xs" using find_path [OF n(3), of p] by blast
  show ?thesis
    using a n(1,2) z list_at_mem [OF l, of a]
    by (intro exI [of _ a]) (auto simp: st_find_def load_def find_def split: option.splits)
qed

lemma free_list_all:
  assumes "list_at h l xs"
  shows "free_list l h = Some (Inr Map.empty)"
proof -
  obtain d where "path h l ((l, d) # xs) 0" "distinct (map fst ((l, d) # xs))" "dom h = fst ` set ((l, d) # xs)"
    using assms by (auto simp: list_at_def)
  then show ?thesis by (rule free_path)
qed

subsection \<open>A whole life of the list\<close>

text \<open>The calls of a tracer; \<open>calloc k h\<close> is the address that libc gives at the \<open>k\<close>-th call, when \<open>h\<close> are the nodes
  in use.\<close>

fun st_calls :: "(nat \<Rightarrow> store \<Rightarrow> addr) \<Rightarrow> nat \<Rightarrow> log_op list \<Rightarrow> addr \<Rightarrow> store \<Rightarrow> store outcome" where
  "st_calls calloc k [] l h = Some (Inr h)"
| "st_calls calloc k (Insert p sz ci # os) l h =
     (case st_alloc (calloc k h) ci l p sz h of
        None \<Rightarrow> None
      | Some (Inl e) \<Rightarrow> Some (Inl e)
      | Some (Inr (_, h)) \<Rightarrow> st_calls calloc (Suc k) os l h)"
| "st_calls calloc k (Release p # os) l h =
     (case st_dealloc l p h of
        None \<Rightarrow> None
      | Some (Inl e) \<Rightarrow> Some (Inl e)
      | Some (Inr (_, h)) \<Rightarrow> st_calls calloc (Suc k) os l h)"

lemma list_at_finite: "list_at h l xs \<Longrightarrow> finite (dom h)"
  by (simp add: list_at_def)

lemma st_calls_list:
  assumes fresh: "\<forall>k h. finite (dom h) \<longrightarrow> calloc k h \<noteq> 0 \<and> h (calloc k h) = None"
  shows "list_at h l xs \<Longrightarrow> \<exists>h' ys. st_calls calloc k os l h = Some (Inr h') \<and> list_at h' l ys \<and>
    run_calls os (Some (map snd xs)) = Inr (Some (map snd ys))"
proof (induction os arbitrary: k h xs)
  case (Cons oper os)
  show ?case
  proof (cases oper)
    case (Insert p sz ci)
    have "calloc k h \<noteq> 0" "h (calloc k h) = None" using fresh list_at_finite [OF Cons.prems] by blast+
    from st_alloc_list [OF Cons.prems this, of ci p sz] obtain a h1 ys and n :: node where
      s: "st_alloc (calloc k h) ci l p sz h = Some (Inr (a, h1))" "list_at h1 l ys"
        "insert_item (new_item p sz ci) (map snd xs) = (map snd ys, n_item n)" by blast
    from Cons.IH [OF s(2), of "Suc k"] show ?thesis using s(1,3) by (simp add: Insert alloc_def)
  next
    case (Release p)
    from st_dealloc_list [OF Cons.prems, of p] obtain a h1 ys where
      s: "st_dealloc l p h = Some (Inr (a, h1))" "list_at h1 l ys" "fst (dealloc_items p (map snd xs)) = map snd ys"
      by (cases "dealloc_items p (map snd xs)"; cases "snd (dealloc_items p (map snd xs))") auto
    from Cons.IH [OF s(2), of "Suc k"] show ?thesis using s(1,3) by (simp add: Release dealloc_def split_beta Let_def)
  qed
qed auto

lemma new_list_at: "q \<noteq> 0 \<Longrightarrow> list_at (snd (st_new_list q Map.empty)) (fst (st_new_list q Map.empty)) []"
  by (simp add: list_at_def st_new_list_def zero_node_def)

lemma calls_history:
  assumes "run_calls os (Some []) = Inr (Some is)"
  shows "length os < 2147483647 \<longrightarrow> sorted_items is"
    "length os < 2147483647 \<Longrightarrow> map_option (\<lambda>i. (item_size i, cnt i)) (find (Some is) p) = history p os None"
proof -
  have *: "sorted_items is \<and> (\<forall>p. map_option (\<lambda>i. (item_size i, cnt i)) (find (Some is) p) = history p os None)"
    if "length os < 2147483647"
  proof -
    from memlist_history [OF that] obtain is' where i: "run_calls os (Some []) = Inr (Some is')" "sorted_items is'"
      "\<forall>p. map_option (\<lambda>i. (item_size i, cnt i)) (find (Some is') p) = history p os None" by blast
    have "is' = is" using i(1) assms by simp
    with i(2,3) show ?thesis by blast
  qed
  show "length os < 2147483647 \<longrightarrow> sorted_items is" using * by blast
  show "map_option (\<lambda>i. (item_size i, cnt i)) (find (Some is) p) = history p os None" if "length os < 2147483647"
    using * [OF that] by blast
qed

lemma item_data: "map_option (\<lambda>n. (item_size (n_item n), cnt (n_item n))) (h a) =
    map_option (\<lambda>i. (item_size i, cnt i)) (map_option n_item (h a))"
  by (simp add: option.map_comp comp_def)

text \<open>C31. The linked list of \<^verbatim>\<open>memlist.c\<close> from its creation to its release: any calls of \<^verbatim>\<open>alloc\<close> and \<^verbatim>\<open>dealloc\<close> on
  a new list return without touching memory that is not a node in use and leave linked nodes with the
  items that \<open>Memlist\<close> computes; up to \<open>2 ^ 31 - 2\<close> calls these are sorted by address. \<^verbatim>\<open>find\<close> gives for each block
  the node that has what the block's history says, the size of its last allocation and the number of its allocations
  less that of its releases, or \<^verbatim>\<open>NULL\<close> before its first allocation. \<^verbatim>\<open>free_list\<close> gives every node in use back once and
  leaves none. The nodes are where libc gives memory, which may be memory that was given back before.\<close>

theorem memlist_linked:
  assumes "\<forall>k h. finite (dom h) \<longrightarrow> calloc k h \<noteq> 0 \<and> h (calloc k h) = None"
    and "st_new_list (calloc 0 Map.empty) Map.empty = (l, h0)"
  shows "\<exists>h is. st_calls calloc 1 os l h0 = Some (Inr h) \<and> run_calls os (Some []) = Inr (Some is) \<and>
    (\<forall>p. \<exists>a. st_find l p h = Some (Inr a) \<and> map_option n_item (h a) = find (Some is) p \<and>
       (a = 0 \<longleftrightarrow> find (Some is) p = None) \<and>
       (length os < 2147483647 \<longrightarrow> map_option (\<lambda>n. (item_size (n_item n), cnt (n_item n))) (h a) = history p os None)) \<and>
    (length os < 2147483647 \<longrightarrow> sorted_items is) \<and>
    free_list l h = Some (Inr Map.empty)"
proof -
  have "calloc 0 Map.empty \<noteq> 0" using assms(1) by (metis dom_empty finite.emptyI)
  then have "list_at h0 l []" using new_list_at [of "calloc 0 Map.empty"] assms(2) by simp
  from st_calls_list [OF assms(1) this, of 1 os] obtain h ys where
    h: "st_calls calloc 1 os l h0 = Some (Inr h)" "list_at h l ys" "run_calls os (Some []) = Inr (Some (map snd ys))" by auto
  note hist = calls_history [OF h(3)]
  show ?thesis
  proof (intro exI [of _ h] exI [of _ "map snd ys"] conjI allI)
    fix p
    obtain a where a: "st_find l p h = Some (Inr a)" "map_option n_item (h a) = find (Some (map snd ys)) p"
      "a = 0 \<longleftrightarrow> find (Some (map snd ys)) p = None" using st_find_list [OF h(2), of p] by (elim exE conjE) (rule that)
    have "map_option (\<lambda>n. (item_size (n_item n), cnt (n_item n))) (h a) = history p os None" if "length os < 2147483647"
      unfolding item_data a(2) by (rule hist(2) [OF that])
    with a show "\<exists>a. st_find l p h = Some (Inr a) \<and> map_option n_item (h a) = find (Some (map snd ys)) p \<and>
       (a = 0 \<longleftrightarrow> find (Some (map snd ys)) p = None) \<and>
       (length os < 2147483647 \<longrightarrow> map_option (\<lambda>n. (item_size (n_item n), cnt (n_item n))) (h a) = history p os None)"
      by (intro exI [of _ a] conjI impI)
  qed (rule h(1), rule h(3), rule hist(1), rule free_list_all [OF h(2)])
qed

theorem memlist_linked_witness:
  "\<exists>h a. st_calls (\<lambda>k h. Max (Set.insert 0 (dom h)) + 1) 1 calls_example 1 [1 \<mapsto> zero_node] = Some (Inr h) \<and>
     st_find 1 64 h = Some (Inr a) \<and> map_option (\<lambda>n. (item_size (n_item n), cnt (n_item n))) (h a) = Some (20, 1) \<and>
     free_list 1 h = Some (Inr Map.empty)"
proof -
  let ?c = "\<lambda>k :: nat. \<lambda>h :: store. Max (Set.insert 0 (dom h)) + 1"
  have "?c k h \<noteq> 0 \<and> h (?c k h) = None" if "finite (dom h)" for k :: nat and h :: store
  proof -
    have "a \<le> Max (Set.insert 0 (dom h))" if "a \<in> Set.insert 0 (dom h)" for a using that \<open>finite (dom h)\<close> by simp
    from this [of 0] this [of "?c k h"] show ?thesis by force
  qed
  then have fresh: "\<forall>k h. finite (dom h) \<longrightarrow> ?c k h \<noteq> 0 \<and> h (?c k h) = None" by blast
  have ex: "length calls_example < 2147483647" "history 64 calls_example None = Some (20, 1)" by (simp_all add: calls_example_def)
  have "st_new_list (?c 0 Map.empty) Map.empty = (1, [1 \<mapsto> zero_node])" by (simp add: st_new_list_def)
  from memlist_linked [OF fresh this, of calls_example] obtain h "is" where
    h: "st_calls ?c 1 calls_example 1 [1 \<mapsto> zero_node] = Some (Inr h)" "free_list 1 h = Some (Inr Map.empty)"
      "\<exists>a. st_find 1 64 h = Some (Inr a) \<and> (length calls_example < 2147483647 \<longrightarrow>
         map_option (\<lambda>n. (item_size (n_item n), cnt (n_item n))) (h a) = history 64 calls_example None)" by blast
  from h(3) obtain a where "st_find 1 64 h = Some (Inr a)"
    "map_option (\<lambda>n. (item_size (n_item n), cnt (n_item n))) (h a) = Some (20, 1)" unfolding ex(2) using ex(1) by blast
  with h(1,2) show ?thesis by blast
qed

end
