(* ===== verification/Spec2Isabelle.thy ===== *)
theory Spec2Isabelle
  imports DriverCli ShellTypes ShellWorld MmCheck MmWrap OldMm Ftimer ClockAlpha Memlog EchoClient EchoServerProps ProxyProps ProxyMain LogMutex
    LogDate ProxyEcho MemlistStore
begin

text \<open>
  A verification library for the programs of a system programming course: a memory allocator with its
  trace-driven tester (\<^verbatim>\<open>malloclab\<close>), a shell with job control (\<^verbatim>\<open>shelllab\<close>), memory tracers
  (\<^verbatim>\<open>linklab\<close>) and a threaded echo server and logging proxy (\<^verbatim>\<open>proxylab\<close>). Every definition is a
  translation of C code; the operating system, libc and the processor are arguments. This theory only
  collects the library: the properties C1 to C40 stand in the theories of their components.

  \<^bold>\<open>Conventions.\<close> C integers and pointers are HOL integers, with \<open>u32\<close> and \<open>s32\<close> where an operation
  wraps (\<open>Prelude\<close>). Address arithmetic inside the heap is exact, by the invariants; where \<^verbatim>\<open>mem_sbrk\<close> moves the break it
  wraps, and the properties about requests say that it does not (\<open>in_space\<close>, \<open>request_ok\<close>, \<open>in_reach\<close>). Memory holds \<^typ>\<open>8 word\<close> bytes, the cycle counter and socket addresses are words. A
  \<^verbatim>\<open>double\<close> is a rational, so rounding is not modelled. A C array of characters is the string of its
  bytes. An operation that may end the program, fault or overrun an array gives a sum, with the reason
  on the left; a loop that follows pointers in memory is a \<^theory_text>\<open>partial_function\<close> into an option, None being
  "does not return", and the properties show that it returns. All other loops are total, by recursion on
  a count or on the input that is left; no fuel is used.

  \<^bold>\<open>malloclab.\<close>
  \<^item> \<open>Memlib\<close> is \<^verbatim>\<open>memlib.c\<close> and the word accesses of \<^verbatim>\<open>mm.c\<close>, with the interface \<open>word_store\<close> (a locale,
    interpreted on the byte memory); \<open>Mm\<close> is \<^verbatim>\<open>mm.c\<close>: one definition per macro and function, the
    globals in the record \<open>mm\<close>.
  \<^item> \<open>FreeList\<close>, \<open>Blocks\<close>, \<open>HeapInv\<close> and \<open>HeapSteps\<close> hold the invariant: ten doubly linked lists in
    memory, the boundary-tagged layout, and what removing, inserting, coalescing, extending and placing
    do to them. \<open>MmCorrect\<close> has the abstract best-fit allocator (\<open>alloc_step\<close>, \<open>free_step\<close>) that
    the code refines.
  \<^item> \<open>MmProps\<close> (C1 to C5) states the behaviour of \<^verbatim>\<open>mm_init\<close>, \<^verbatim>\<open>mm_malloc\<close>, \<^verbatim>\<open>mm_free\<close>
    and \<^verbatim>\<open>mm_exit\<close>; \<open>MmClient\<close> (C6, C7) follows a client through any sequence of calls and writes;
    \<open>MmCheck\<close> (C24, C25) is the heap checker; \<open>MmWrap\<close> (C26) the sizes and the break that wrap around; \<open>OldMm\<close> (C17)
    compares the older functions of \<^verbatim>\<open>function.c\<close> with those of \<^verbatim>\<open>mm.c\<close>, on every branch.
  \<^item> \<open>Ranges\<close>, \<open>Trace\<close> and \<open>Driver\<close> are \<^verbatim>\<open>mdriver.c\<close>: its range list, the reader of trace files, the
    evaluations of correctness, utilization and speed, and the score. \<open>DriverProps\<close> (C21 to C23) runs the
    driver on the allocator: the trace file read back, the verdict on every legal trace, the peak
    utilization, and the failure of every trace with a reallocation, which the allocator does not have; \<open>DriverScore\<close> bounds the score, and \<open>DriverMain\<close> runs the loops of \<^verbatim>\<open>main\<close> from
    the texts of the files to the score. \<open>DriverCli\<close> (C27) composes the program from its command line to its exit:
    options (\<open>Getopt\<close> models libc's \<^verbatim>\<open>getopt\<close>), the team, the trace paths, the messages, the result tables and the score lines.
  \<^item> \<open>Clock\<close> (C28) with \<open>ClockAlpha\<close>, \<open>Fcyc\<close> (C29) and \<open>Ftimer\<close> are the timing package: \<^verbatim>\<open>clock.c\<close>,
    \<^verbatim>\<open>fcyc.c\<close>, \<^verbatim>\<open>ftimer.c\<close> and \<^verbatim>\<open>fsecs.c\<close>, on an environment of processor and clocks.

  \<^bold>\<open>shelllab.\<close> \<open>Jobs\<close> is the job table of \<^verbatim>\<open>tsh.c\<close> with the interface \<open>pid_table\<close>, \<open>Parseline\<close> its tokeniser,
  \<open>Shell\<close> the evaluation of commands and the signal handlers; the events that arrive while the shell
  waits are a list. \<open>ShellMain\<close> (C16) adds \<^verbatim>\<open>main\<close> with its options, the handlers it installs, through which the signals go, and its read loop.
  \<open>ShellProps\<close> (C9, C11, C13 to C15, C19) has the table's correctness, the round trip of the
  tokeniser, the reaping, stopping and continuing of jobs, and the inputs on which they fail;
  \<open>ShellTypes\<close> (C12) the well-typedness of every state, and exactly when a line or a signal accesses an array outside its bounds. \<open>ShellPrograms\<close> has the test
  programs (\<^verbatim>\<open>myspin.c\<close>, \<^verbatim>\<open>myint.c\<close>, \<^verbatim>\<open>mystop.c\<close>, \<^verbatim>\<open>mysplit.c\<close>) as trees of system calls, and \<open>ShellWorld\<close> (C10)
  interleaves one of them with the shell and the keyboard.

  \<^bold>\<open>linklab.\<close> \<open>Memlist\<close> is the block list as a sequence, with the interface \<open>block_log\<close>;
  \<open>MemlistStore\<close> (C31) has its nodes linked in memory, which do the same; \<open>Callinfo\<close> the search for the
  calling function; \<open>Memtrace\<close> holds the four
  tracers; \<open>MemtraceProps\<close> (C32, C33) relates the bonus tracer's frees and report to the history of
  the program's calls, and collects the faults of the others; \<open>MemtraceLegal\<close> (C34) runs programs that use the
  allocator as they should, the test programs among them, with the sizes by the definition of \<^verbatim>\<open>calloc\<close> and as the tracers count them; \<open>Memlog\<close> is the text of the log (\<^verbatim>\<open>memlog.c\<close>).

  \<^bold>\<open>proxylab.\<close> \<open>Rio\<close> is the robust I/O package of \<^verbatim>\<open>csapp.c\<close> over a kernel that delivers input in
  chunks, interrupts, takes part of the output and fails. \<open>RioProps\<close> (C35 to C37) shows that the
  callers see a stream. \<open>Echo\<close> and \<open>EchoProps\<close> (C38) are the echo server's connection handler,
  \<open>EchoClient\<close> (C30) its client and their dialogue; \<open>EchoServer\<close> and \<open>EchoServerProps\<close> (C18) interleave the accept
  loop with the threads, which share \<^verbatim>\<open>bytecnt\<close> without a lock; \<open>Sockets\<close> has the functions that open
  connections and \<open>Wrappers\<close> the error-handling wrappers, each over the function that it calls.
  \<open>Proxy\<close> is the
  thread of \<^verbatim>\<open>proxy.c\<close> that serves a client; \<open>ProxyProps\<close> (C39) states the session that a client
  sees and shows that the thread implements it; \<open>ProxyMain\<close> has \<^verbatim>\<open>main\<close>. \<open>LogMutex\<close> (C40) interleaves the threads' calls of
  \<^verbatim>\<open>print_log\<close> step by step, \<open>LogDate\<close> (C8) their use of the static storage of \<^verbatim>\<open>asctime\<close>, in calls that can overlap.
  \<open>ProxyEcho\<close> (C20) puts a client, the proxy and the echo server together.

  \<^bold>\<open>Parameters.\<close> The kernel's answers in \<open>Shell\<close> (the record \<open>os\<close> and the events), the libc allocator
  in \<open>Driver\<close> and \<open>Memtrace\<close>, the stack frames in \<open>Callinfo\<close>, the clocks of \<open>env\<close>, the events of a
  descriptor in \<open>Rio\<close>, connections and times of day in \<open>Proxy\<close>, the
  socket functions in \<open>Sockets\<close>, the wrapped functions in \<open>Wrappers\<close>, the name service in \<open>EchoServer\<close>. A hypothesis on them says that they do
  not fail (\<open>healthy\<close>, \<open>sound_network\<close>) and has an instance in the property's witness.

  \<^bold>\<open>Not modelled.\<close> \<^verbatim>\<open>free_trace\<close> and \<^verbatim>\<open>mem_deinit\<close>, which only release libc memory; the failures of libc's allocator in \<^verbatim>\<open>read_trace\<close> and \<^verbatim>\<open>init_sampler\<close> and of the semaphore
  functions, which the theories name; the line that \<^verbatim>\<open>mem_sbrk\<close> writes when it fails; output
  for debugging that is commented out or compiled out; what a program prints before it stops with an error,
  where the last message is all that the model gives; the headers' prototypes; scripts and attack strings.
\<close>

end
